(* ===== verification/Soam_Prelude.thy ===== *)
theory Soam_Prelude
  imports Complex_Main "HOL-Library.Word"
begin

text \<open>
  Shared vocabulary of the development: the C++ exceptions the library throws, results that are
  either an exception or a value, the narrowing conversion from \<open>std::size_t\<close> to \<open>int\<close>, and
  generic facts on lists, maps and words that several components use.
\<close>

section \<open>Exceptions and results\<close>

text \<open>
  One constructor per standard exception class that code under \<open>src/\<close> throws, with the text given
  to its constructor. \<open>Bad_alloc\<close> is what the allocator throws.
\<close>

datatype exn =
    Invalid_argument string
  | Out_of_range string
  | Runtime_error string
  | Logic_error string
  | Overflow_error string
  | Bad_alloc

type_synonym 'a result = "exn + 'a"

type_synonym u64 = "64 word"

definition rbind :: "'a result \<Rightarrow> ('a \<Rightarrow> 'b result) \<Rightarrow> 'b result" where
  "rbind m k = (case m of Inl e \<Rightarrow> Inl e | Inr x \<Rightarrow> k x)"

definition guard_that :: "bool \<Rightarrow> exn \<Rightarrow> unit result" where
  "guard_that b e = (if b then Inr () else Inl e)"

definition is_ok :: "'a result \<Rightarrow> bool" where
  "is_ok m = (case m of Inl _ \<Rightarrow> False | Inr _ \<Rightarrow> True)"

named_theorems result_simps \<open>rewriting of results and their sequencing\<close>

lemma rbind_simps [simp, result_simps]:
  "rbind (Inl e) k = Inl e"
  "rbind (Inr x) k = k x"
  by (simp_all add: rbind_def)

lemma rbind_eq_Inr_iff [result_simps]:
  "rbind m k = Inr y \<longleftrightarrow> (\<exists>x. m = Inr x \<and> k x = Inr y)"
  by (cases m) auto

lemma rbind_eq_Inl_iff [result_simps]:
  "rbind m k = Inl e \<longleftrightarrow> m = Inl e \<or> (\<exists>x. m = Inr x \<and> k x = Inl e)"
  by (cases m) auto

lemma guard_that_simps [simp, result_simps]:
  "guard_that True e = Inr ()"
  "guard_that False e = Inl e"
  by (simp_all add: guard_that_def)

lemma guard_that_eq_iff [result_simps]:
  "guard_that b e = Inr u \<longleftrightarrow> b"
  "guard_that b e = Inl e' \<longleftrightarrow> \<not> b \<and> e' = e"
  by (auto simp: guard_that_def)

lemma is_ok_simps [simp]:
  "is_ok (Inr x)"
  "\<not> is_ok (Inl e)"
  by (simp_all add: is_ok_def)

lemma is_ok_iff: "is_ok m \<longleftrightarrow> (\<exists>x. m = Inr x)"
  by (cases m) auto

section \<open>Conversions of machine integers\<close>

text \<open>
  \<open>static_cast<int>\<close> of a \<open>std::size_t\<close>: the value modulo \<open>2 ^ 32\<close>, read in two's complement.
  Node indices are modelled as \<open>nat\<close>; this is the only place where their width shows.
\<close>

definition size_to_int :: "nat \<Rightarrow> int" where
  "size_to_int n = (int n + 2 ^ 31) mod 2 ^ 32 - 2 ^ 31"

lemma size_to_int_small [simp]: "n < 2 ^ 31 \<Longrightarrow> size_to_int n = int n"
  by (simp add: size_to_int_def)

lemma size_to_int_wraps: "size_to_int (2 ^ 31) = - (2 ^ 31)"
  by (simp add: size_to_int_def)

lemma size_to_int_inj:
  "m < 2 ^ 31 \<Longrightarrow> n < 2 ^ 31 \<Longrightarrow> size_to_int m = size_to_int n \<longleftrightarrow> m = n"
  by simp

section \<open>Words\<close>

lemma unat_Suc_less:
  fixes c l :: u64
  assumes "c < l"
  shows "unat (c + 1) = Suc (unat c)"
proof -
  have "unat c < unat l" using assms by (simp add: word_less_nat_alt)
  moreover have "unat l < 2 ^ LENGTH(64)" by (rule unsigned_less)
  ultimately have "Suc (unat c) < 2 ^ LENGTH(64)" by linarith
  then show ?thesis by (simp add: unat_word_ariths)
qed

lemma unat_Suc_not_max:
  fixes c :: u64
  assumes "c \<noteq> - 1"
  shows "unat (c + 1) = Suc (unat c)"
proof -
  have "c < - 1" using assms by (simp add: word_order.not_eq_extremum)
  then show ?thesis by (rule unat_Suc_less)
qed

section \<open>Lists and maps\<close>

lemma nth_list_update_other: "i \<noteq> j \<Longrightarrow> (xs[i := x]) ! j = xs ! j"
  by simp

lemma list_all_update:
  "list_all P xs \<Longrightarrow> P x \<Longrightarrow> list_all P (xs[i := x])"
  using set_update_subset_insert [of xs i x] by (auto simp: list_all_iff)

lemma fold_max_ge_init: "(m::nat) \<le> fold max xs m"
proof (induction xs arbitrary: m)
  case (Cons x xs)
  have "max x m \<le> fold max xs (max x m)" by (rule Cons.IH)
  then show ?case by simp
qed simp

lemma fold_max_ge: "x \<in> set xs \<Longrightarrow> (x::nat) \<le> fold max xs m"
proof (induction xs arbitrary: m)
  case (Cons y ys)
  show ?case
  proof (cases "x = y")
    case True
    then show ?thesis using fold_max_ge_init [of "max y m" ys] by simp
  next
    case False
    then show ?thesis using Cons by simp
  qed
qed simp

lemma fold_max_in: "fold max xs (m::nat) = m \<or> fold max xs m \<in> set xs"
proof (induction xs arbitrary: m)
  case (Cons y ys)
  show ?case using Cons.IH [of "max y m"] by (auto simp: max_def)
qed simp

end
