(* ===== verification/Binary64.thy ===== *)
theory Binary64
  imports Soam_Prelude
begin

text \<open>
  The C++ type \<open>double\<close> as IEEE 754 binary64 with rounding to nearest, ties to even. A finite
  value is the rational it denotes; every arithmetic operation computes the exact rational result
  and rounds it once, with gradual underflow and with overflow to infinity. The two zeros are one
  value: the program never divides by a zero whose sign could be negative and never inspects a sign
  bit, so no comparison or branch of the source tells them apart. All operations are executable.
\<close>

section \<open>Powers of two and binary logarithms\<close>

fun ibits :: "int \<Rightarrow> int" where
  "ibits n = (if n \<le> 0 then 0 else 1 + ibits (n div 2))"

declare ibits.simps [simp del]

abbreviation p2 :: "int \<Rightarrow> rat" where
  "p2 k \<equiv> 2 powi k"

definition ilog2 :: "rat \<Rightarrow> int" where
  "ilog2 r = (if 1 \<le> r then ibits \<lfloor>r\<rfloor> - 1 else - ibits (\<lceil>1 / r\<rceil> - 1))"

lemma p2_pos [simp]: "0 < p2 k"
  by (simp add: power_int_def)

lemma p2_nonneg [simp]: "0 \<le> p2 k"
  by (simp add: less_imp_le)

lemma p2_nonzero [simp]: "p2 k \<noteq> 0"
  by simp

lemma p2_add: "p2 (a + b) = p2 a * p2 b"
  by (simp add: power_int_add)

lemma p2_diff: "p2 (a - b) = p2 a / p2 b"
  by (simp add: power_int_diff)

lemma p2_less_iff [simp]: "p2 a < p2 b \<longleftrightarrow> a < b"
  using power_int_strict_increasing [of a b "2::rat"] power_int_increasing [of b a "2::rat"]
  by (cases "a < b") (auto simp: not_less)

lemma p2_le_iff [simp]: "p2 a \<le> p2 b \<longleftrightarrow> a \<le> b"
  using p2_less_iff [of b a] by (simp only: not_less [symmetric])

lemma p2_nat: "0 \<le> k \<Longrightarrow> p2 k = of_int (2 ^ nat k)"
  by (simp add: power_int_def)

lemma ibits_nonneg: "0 \<le> ibits n"
proof (induction n rule: ibits.induct)
  case (1 n)
  then show ?case by (subst ibits.simps) auto
qed

lemma ibits_pos: "0 < n \<Longrightarrow> 1 \<le> ibits n"
  using ibits_nonneg [of "n div 2"] by (subst ibits.simps) auto

lemma ibits_bounds: "0 < n \<Longrightarrow> 2 ^ nat (ibits n - 1) \<le> n \<and> n < 2 ^ nat (ibits n)"
proof (induction n rule: ibits.induct)
  case (1 n)
  show ?case
  proof (cases "n = 1")
    case True
    then show ?thesis by (simp add: ibits.simps)
  next
    case False
    define b where "b = ibits (n div 2)"
    from False "1.prems" have half: "0 < n div 2" by simp
    with "1.IH" "1.prems" have IH: "2 ^ nat (b - 1) \<le> n div 2" "n div 2 < 2 ^ nat b"
      by (auto simp: b_def)
    have b1: "1 \<le> b" using half by (simp add: b_def ibits_pos)
    have eq: "ibits n = 1 + b" using "1.prems" by (subst ibits.simps) (simp add: b_def)
    have s1: "(2::int) ^ nat b = 2 * 2 ^ nat (b - 1)"
      using b1 by (simp add: power_Suc [symmetric] nat_diff_distrib del: power_Suc)
    have s2: "(2::int) ^ nat (1 + b) = 2 * 2 ^ nat b"
      using b1 by (simp add: nat_add_distrib)
    have "2 * (n div 2) \<le> n" "n < 2 * (n div 2) + 2" by linarith+
    with IH have "2 * 2 ^ nat (b - 1) \<le> n" "n < 2 * 2 ^ nat b" by linarith+
    then show ?thesis by (simp add: eq s1 s2)
  qed
qed

lemma ilog2_bounds:
  assumes "0 < r"
  shows "p2 (ilog2 r) \<le> r" and "r < p2 (ilog2 r + 1)"
proof -
  have "p2 (ilog2 r) \<le> r \<and> r < p2 (ilog2 r + 1)"
  proof (cases "1 \<le> r")
    case True
    define n where "n = \<lfloor>r\<rfloor>"
    have n: "0 < n" using True by (simp add: n_def)
    have b: "1 \<le> ibits n" using n by (rule ibits_pos)
    note bounds = ibits_bounds [OF n]
    have lo: "p2 (ibits n - 1) = of_int (2 ^ nat (ibits n - 1))" using b by (simp add: p2_nat)
    have hi: "p2 (ibits n) = of_int (2 ^ nat (ibits n))" using b by (simp add: p2_nat)
    have "of_int (2 ^ nat (ibits n - 1)) \<le> (of_int n :: rat)"
      using bounds by (simp only: of_int_le_iff)
    then have l: "p2 (ibits n - 1) \<le> r" unfolding lo using of_int_floor_le [of r] n_def by linarith
    have "n + 1 \<le> 2 ^ nat (ibits n)" using bounds by linarith
    then have "of_int (n + 1) \<le> (of_int (2 ^ nat (ibits n)) :: rat)" by (simp only: of_int_le_iff)
    then have h: "r < p2 (ibits n)" unfolding hi using n_def by linarith
    show ?thesis using l h True by (simp add: ilog2_def n_def)
  next
    case False
    define m where "m = \<lceil>1 / r\<rceil> - 1"
    have "1 < 1 / r" using False assms by simp
    then have m: "0 < m" by (simp add: m_def less_ceiling_iff)
    have b: "1 \<le> ibits m" using m by (rule ibits_pos)
    note bounds = ibits_bounds [OF m]
    have lo: "p2 (ibits m - 1) = of_int (2 ^ nat (ibits m - 1))" using b by (simp add: p2_nat)
    have hi: "p2 (ibits m) = of_int (2 ^ nat (ibits m))" using b by (simp add: p2_nat)
    have "of_int (2 ^ nat (ibits m - 1)) \<le> (of_int m :: rat)"
      using bounds by (simp only: of_int_le_iff)
    then have l: "p2 (ibits m - 1) < 1 / r" unfolding lo using m_def by linarith
    have "m + 1 \<le> 2 ^ nat (ibits m)" using bounds by linarith
    then have "of_int (m + 1) \<le> (of_int (2 ^ nat (ibits m)) :: rat)" by (simp only: of_int_le_iff)
    then have h: "1 / r \<le> p2 (ibits m)" unfolding hi
      using m_def le_of_int_ceiling [of "1 / r"] by linarith
    have "r * p2 (ibits m - 1) < 1" using l assms by (simp add: field_simps)
    then have u: "r < p2 (- ibits m + 1)"
      by (simp add: power_int_minus power_int_diff power_int_add field_simps)
    have "1 \<le> r * p2 (ibits m)" using h assms by (simp add: field_simps)
    then have v: "p2 (- ibits m) \<le> r" by (simp add: power_int_minus field_simps)
    show ?thesis using u v False by (simp add: ilog2_def m_def)
  qed
  then show "p2 (ilog2 r) \<le> r" and "r < p2 (ilog2 r + 1)" by auto
qed

lemma ilog2_unique:
  assumes "p2 k \<le> r" and "r < p2 (k + 1)"
  shows "ilog2 r = k"
proof -
  have r: "0 < r" using assms(1) p2_pos [of k] by linarith
  have "p2 k < p2 (ilog2 r + 1)" using assms(1) ilog2_bounds(2) [OF r] by linarith
  moreover have "p2 (ilog2 r) < p2 (k + 1)" using assms(2) ilog2_bounds(1) [OF r] by linarith
  ultimately show ?thesis by simp
qed

lemma ilog2_mono:
  assumes "0 < x" and "x \<le> y"
  shows "ilog2 x \<le> ilog2 y"
proof -
  have "p2 (ilog2 x) < p2 (ilog2 y + 1)"
    using ilog2_bounds(1) [OF assms(1)] ilog2_bounds(2) [of y] assms by linarith
  then show ?thesis by simp
qed

lemma ilog2_less_iff: "0 < x \<Longrightarrow> ilog2 x < k \<longleftrightarrow> x < p2 k"
proof -
  assume x: "0 < x"
  have "x < p2 k" if "ilog2 x < k"
  proof -
    have "p2 (ilog2 x + 1) \<le> p2 k" using that by simp
    then show ?thesis using ilog2_bounds(2) [OF x] by linarith
  qed
  moreover have "ilog2 x < k" if "x < p2 k"
  proof -
    have "p2 (ilog2 x) < p2 k" using that ilog2_bounds(1) [OF x] by linarith
    then show ?thesis by simp
  qed
  ultimately show ?thesis by blast
qed

lemma ilog2_zero [simp]: "ilog2 0 = 0"
  by (simp add: ilog2_def ibits.simps)

section \<open>Rounding a rational to an integer, ties to even\<close>

definition round_even :: "rat \<Rightarrow> int" where
  "round_even x =
     (let f = \<lfloor>x\<rfloor>; d = x - of_int f
      in if d < 1 / 2 then f
         else if 1 / 2 < d then f + 1
         else if even f then f else f + 1)"

lemma round_even_cases: "round_even x = \<lfloor>x\<rfloor> \<or> round_even x = \<lfloor>x\<rfloor> + 1"
  by (simp add: round_even_def Let_def)

lemma round_even_bounds: "\<lfloor>x\<rfloor> \<le> round_even x" "round_even x \<le> \<lfloor>x\<rfloor> + 1"
  using round_even_cases [of x] by auto

lemma round_even_of_int [simp]: "round_even (of_int n) = n"
  by (simp add: round_even_def)

lemma round_even_mono:
  assumes "x \<le> y"
  shows "round_even x \<le> round_even y"
proof (cases "\<lfloor>x\<rfloor> = \<lfloor>y\<rfloor>")
  case True
  then show ?thesis using assms by (auto simp: round_even_def Let_def)
next
  case False
  have "\<lfloor>x\<rfloor> \<le> \<lfloor>y\<rfloor>" using assms by (rule floor_mono)
  with False have "\<lfloor>x\<rfloor> + 1 \<le> \<lfloor>y\<rfloor>" by linarith
  then show ?thesis using round_even_bounds [of x] round_even_bounds [of y] by linarith
qed

lemma round_even_error: "\<bar>of_int (round_even x) - x\<bar> \<le> 1 / 2"
proof -
  define f d where "f = \<lfloor>x\<rfloor>" and "d = x - of_int f"
  have d: "0 \<le> d" "d < 1" unfolding d_def f_def by linarith+
  have "round_even x =
      (if d < 1 / 2 then f else if 1 / 2 < d then f + 1 else if even f then f else f + 1)"
    by (simp add: round_even_def f_def d_def)
  moreover have "x = of_int f + d" by (simp add: d_def)
  ultimately show ?thesis using d by (simp add: abs_if)
qed

lemma round_even_near:
  assumes "\<bar>of_int n - x\<bar> < 1 / 2"
  shows "round_even x = n"
proof -
  have "\<bar>of_int (round_even x) - (of_int n :: rat)\<bar> < 1"
    using assms round_even_error [of x] by linarith
  then have "\<bar>round_even x - n\<bar> < 1" by linarith
  then show ?thesis by linarith
qed

lemma round_even_tie:
  assumes "x = of_int n + 1 / 2"
  shows "round_even x = (if even n then n else n + 1)"
proof -
  have "\<lfloor>x\<rfloor> = n" using assms by linarith
  then show ?thesis using assms by (simp add: round_even_def)
qed

lemma round_even_odd: "round_even (- x) = - round_even x"
proof (cases "x = of_int \<lfloor>x\<rfloor> + 1 / 2")
  case True
  then have "- x = of_int (- \<lfloor>x\<rfloor> - 1) + 1 / 2" by simp
  from round_even_tie [OF this] round_even_tie [OF True] show ?thesis by auto
next
  case False
  have "\<bar>of_int (round_even x) - x\<bar> < 1 / 2"
    using False by (auto simp: round_even_def Let_def abs_if) linarith+
  then have "\<bar>of_int (- round_even x) - (- x)\<bar> < 1 / 2" by linarith
  then show ?thesis by (rule round_even_near)
qed

section \<open>Rounding to binary64 precision\<close>

text \<open>
  \<open>ulp_exp r\<close> is the exponent of the last place of a binary64 number of the magnitude of \<open>r\<close>:
  53 significant bits, never below \<open>2 powi (- 1074)\<close> (the subnormal range). \<open>rne\<close> rounds with
  unbounded exponent range above; overflow is decided afterwards by \<open>to_f64\<close>.
\<close>

definition ulp_exp :: "rat \<Rightarrow> int" where
  "ulp_exp r = (if r = 0 then - 1074 else max (- 1074) (ilog2 \<bar>r\<bar> - 52))"

definition rne :: "rat \<Rightarrow> rat" where
  "rne r = of_int (round_even (r / p2 (ulp_exp r))) * p2 (ulp_exp r)"

definition is_repr :: "rat \<Rightarrow> bool" where
  "is_repr r \<longleftrightarrow> rne r = r"

lemma ulp_exp_ge: "- 1074 \<le> ulp_exp r"
  by (simp add: ulp_exp_def)

lemma ulp_exp_minus [simp]: "ulp_exp (- r) = ulp_exp r"
  by (simp add: ulp_exp_def)

lemma ulp_exp_mono:
  assumes "0 \<le> x" and "x \<le> y"
  shows "ulp_exp x \<le> ulp_exp y"
  using assms ilog2_mono [of x y] by (auto simp: ulp_exp_def max_def)

lemma ulp_exp_upper: "\<bar>x\<bar> < p2 (ulp_exp x + 53)"
proof (cases "x = 0")
  case False
  then have "\<bar>x\<bar> < p2 (ilog2 \<bar>x\<bar> + 1)" by (intro ilog2_bounds) simp
  also have "\<dots> \<le> p2 (ulp_exp x + 53)" using False by (simp add: ulp_exp_def)
  finally show ?thesis .
qed simp

lemma rne_minus: "rne (- r) = - rne r"
  by (simp add: rne_def round_even_odd)

lemma rne_zero [simp]: "rne 0 = 0"
  using round_even_of_int [of 0] by (simp add: rne_def)

lemma rne_upper:
  assumes "x \<le> of_int n * p2 (ulp_exp x)"
  shows "rne x \<le> of_int n * p2 (ulp_exp x)"
proof -
  have "x / p2 (ulp_exp x) \<le> of_int n" using assms by (simp add: field_simps)
  then have "round_even (x / p2 (ulp_exp x)) \<le> n"
    using round_even_mono by fastforce
  then show ?thesis by (simp add: rne_def)
qed

lemma rne_lower:
  assumes "of_int n * p2 (ulp_exp x) \<le> x"
  shows "of_int n * p2 (ulp_exp x) \<le> rne x"
proof -
  have "of_int n \<le> x / p2 (ulp_exp x)" using assms by (simp add: field_simps)
  then have "n \<le> round_even (x / p2 (ulp_exp x))"
    using round_even_mono by fastforce
  then show ?thesis by (simp add: rne_def)
qed

lemma rne_nonneg: "0 \<le> x \<Longrightarrow> 0 \<le> rne x"
  using rne_lower [of 0 x] by simp

lemma rne_mono_nonneg:
  assumes "0 \<le> x" and "x \<le> y"
  shows "rne x \<le> rne y"
proof (cases "ulp_exp x = ulp_exp y")
  case True
  have "x / p2 (ulp_exp x) \<le> y / p2 (ulp_exp x)" using assms by (simp add: divide_right_mono)
  then show ?thesis using True by (simp add: rne_def round_even_mono)
next
  case False
  with ulp_exp_mono [OF assms] have less: "ulp_exp x < ulp_exp y" by simp
  then have y: "0 < y" "ulp_exp y = ilog2 y - 52"
    using assms ulp_exp_ge [of x] by (auto simp: ulp_exp_def split: if_splits)
  have p53: "(2::rat) ^ 53 = p2 53" "(2::rat) ^ 52 = p2 52" by (simp_all add: power_int_def)
  have "x \<le> of_int (2 ^ 53) * p2 (ulp_exp x)"
    using ulp_exp_upper [of x] by (simp add: p2_add power_int_add)
  then have "rne x \<le> of_int (2 ^ 53) * p2 (ulp_exp x)" by (rule rne_upper)
  also have "\<dots> = p2 (ulp_exp x + 53)" by (simp add: p2_add)
  also have "\<dots> \<le> p2 (ulp_exp y + 52)" using less by simp
  also have "\<dots> = of_int (2 ^ 52) * p2 (ulp_exp y)" by (simp add: p2_add)
  also have "\<dots> \<le> rne y"
  proof (rule rne_lower)
    have "p2 (ulp_exp y + 52) \<le> y" using y ilog2_bounds(1) [of y] by simp
    then show "of_int (2 ^ 52) * p2 (ulp_exp y) \<le> y" by (simp add: p2_add)
  qed
  finally show ?thesis .
qed

lemma rne_mono:
  assumes "x \<le> y"
  shows "rne x \<le> rne y"
proof -
  consider "0 \<le> x" | "x < 0" "0 \<le> y" | "y < 0" by linarith
  then show ?thesis
  proof cases
    case 1
    then show ?thesis using assms by (rule rne_mono_nonneg)
  next
    case 2
    then have "0 \<le> rne (- x)" "0 \<le> rne y" by (simp_all add: rne_nonneg)
    then show ?thesis by (simp add: rne_minus)
  next
    case 3
    then have "rne (- y) \<le> rne (- x)" using assms by (intro rne_mono_nonneg) auto
    then show ?thesis by (simp add: rne_minus)
  qed
qed

lemma rne_of_scaled_int:
  assumes "\<bar>m\<bar> < 2 ^ 53" and "- 1074 \<le> e"
  shows "rne (of_int m * p2 e) = of_int m * p2 e"
proof (cases "m = 0")
  case False
  define x where "x = (of_int m * p2 e :: rat)"
  have x: "x \<noteq> 0" using False by (simp add: x_def)
  have "of_int \<bar>m\<bar> < (of_int (2 ^ 53) :: rat)" using assms(1) by (simp only: of_int_less_iff)
  then have "\<bar>x\<bar> < p2 (53 + e)" by (simp add: x_def abs_mult p2_add)
  then have "ilog2 \<bar>x\<bar> < 53 + e" using x by (simp add: ilog2_less_iff)
  then have u: "ulp_exp x \<le> e" using x assms(2) by (simp add: ulp_exp_def)
  have "x / p2 (ulp_exp x) = of_int m * p2 (e - ulp_exp x)" by (simp add: x_def p2_diff)
  also have "\<dots> = of_int (m * 2 ^ nat (e - ulp_exp x))" using u by (simp add: p2_nat)
  finally have "round_even (x / p2 (ulp_exp x)) = m * 2 ^ nat (e - ulp_exp x)"
    by (simp only: round_even_of_int)
  then have "rne x = of_int m * p2 (e - ulp_exp x) * p2 (ulp_exp x)"
    using u by (simp add: rne_def p2_nat)
  then show ?thesis by (simp add: p2_diff x_def)
qed simp

lemma is_repr_scaled_int: "\<bar>m\<bar> < 2 ^ 53 \<Longrightarrow> - 1074 \<le> e \<Longrightarrow> is_repr (of_int m * p2 e)"
  by (simp add: is_repr_def rne_of_scaled_int)

lemma is_repr_scaled_int_le:
  assumes "\<bar>m\<bar> \<le> 2 ^ 53" and "- 1074 \<le> e"
  shows "is_repr (of_int m * p2 e)"
proof (cases "\<bar>m\<bar> = 2 ^ 53")
  case True
  have eq: "p2 (53 + e) = of_int (2 ^ 53) * p2 e" by (simp add: p2_add)
  have "m = 2 ^ 53 \<or> m = - (2 ^ 53)" using True by linarith
  then have "of_int m * p2 e = of_int (sgn m) * p2 (53 + e)" unfolding eq by auto
  moreover have "\<bar>sgn m\<bar> < 2 ^ 53" by (simp add: sgn_if)
  ultimately show ?thesis using is_repr_scaled_int [of "sgn m" "53 + e"] assms(2) by simp
next
  case False
  then show ?thesis using assms by (intro is_repr_scaled_int) auto
qed

lemma rne_scaled_int: "\<exists>m e. rne x = of_int m * p2 e \<and> \<bar>m\<bar> < 2 ^ 53 \<and> ulp_exp x \<le> e"
proof -
  define m where "m = round_even (x / p2 (ulp_exp x))"
  have eq: "rne x = of_int m * p2 (ulp_exp x)" by (simp add: rne_def m_def)
  have "x < p2 (ulp_exp x) * of_int (2 ^ 53)" "- (p2 (ulp_exp x) * of_int (2 ^ 53)) < x"
    using ulp_exp_upper [of x] by (simp_all add: abs_less_iff p2_add)
  then have "x / p2 (ulp_exp x) \<le> of_int (2 ^ 53)" "of_int (- (2 ^ 53)) \<le> x / p2 (ulp_exp x)"
    by (simp_all add: field_simps)
  then have "m \<le> 2 ^ 53" "- (2 ^ 53) \<le> m"
    unfolding m_def using round_even_mono round_even_of_int by metis+
  then consider "\<bar>m\<bar> < 2 ^ 53" | "m = 2 ^ 53" | "m = - (2 ^ 53)" by linarith
  then show ?thesis
  proof cases
    case 1
    then show ?thesis using eq by blast
  next
    case 2
    then have "rne x = of_int 1 * p2 (ulp_exp x + 53)" by (simp add: eq p2_add)
    then show ?thesis by (intro exI [of _ 1] exI [of _ "ulp_exp x + 53"]) simp
  next
    case 3
    then have "rne x = of_int (- 1) * p2 (ulp_exp x + 53)" by (simp add: eq p2_add)
    then show ?thesis by (intro exI [of _ "- 1"] exI [of _ "ulp_exp x + 53"]) simp
  qed
qed

lemma is_repr_rne [simp]: "is_repr (rne x)"
proof -
  obtain m e where "rne x = of_int m * p2 e" "\<bar>m\<bar> < 2 ^ 53" "ulp_exp x \<le> e"
    using rne_scaled_int by blast
  then show ?thesis using ulp_exp_ge [of x] is_repr_scaled_int [of m e] by simp
qed

lemma rne_idem [simp]: "rne (rne x) = rne x"
  using is_repr_rne [of x] by (simp add: is_repr_def)

lemma rne_error: "\<bar>rne x - x\<bar> \<le> p2 (ulp_exp x) / 2"
proof -
  define t where "t = x / p2 (ulp_exp x)"
  have "rne x - x = (of_int (round_even t) - t) * p2 (ulp_exp x)"
    by (simp add: rne_def t_def algebra_simps)
  then have "\<bar>rne x - x\<bar> = \<bar>of_int (round_even t) - t\<bar> * p2 (ulp_exp x)" by (simp add: abs_mult)
  also have "\<dots> \<le> 1 / 2 * p2 (ulp_exp x)"
    using round_even_error [of t] by (rule mult_right_mono) simp
  finally show ?thesis by simp
qed

lemma rne_rel_error_normal:
  assumes "p2 (- 1022) \<le> \<bar>x\<bar>"
  shows "\<bar>rne x - x\<bar> \<le> p2 (- 53) * \<bar>x\<bar>"
proof -
  have x: "x \<noteq> 0" using assms by auto
  have "\<not> ilog2 \<bar>x\<bar> < - 1022" using assms x ilog2_less_iff [of "\<bar>x\<bar>" "- 1022"] by simp
  then have "ulp_exp x = ilog2 \<bar>x\<bar> - 52" using x by (simp add: ulp_exp_def)
  then have "p2 (ulp_exp x) = p2 (- 52) * p2 (ilog2 \<bar>x\<bar>)"
    using p2_add [of "- 52" "ilog2 \<bar>x\<bar>"] by simp
  moreover have "p2 (- 52) * p2 (ilog2 \<bar>x\<bar>) \<le> p2 (- 52) * \<bar>x\<bar>"
    using x ilog2_bounds(1) [of "\<bar>x\<bar>"] by (intro mult_left_mono) auto
  moreover have "p2 (- 52) / 2 = p2 (- 53)" using p2_diff [of "- 52" 1] by simp
  ultimately show ?thesis using rne_error [of x] by (simp add: field_simps)
qed

lemma is_repr_multiple: "is_repr x \<Longrightarrow> \<exists>n. x = of_int n * p2 (- 1074)"
proof -
  assume "is_repr x"
  then have "x = of_int (round_even (x / p2 (ulp_exp x))) * p2 (ulp_exp x)"
    by (simp add: is_repr_def rne_def)
  moreover have "p2 (ulp_exp x) = of_int (2 ^ nat (ulp_exp x + 1074)) * p2 (- 1074)"
    using ulp_exp_ge [of x] p2_nat [of "ulp_exp x + 1074"] p2_add [of "ulp_exp x + 1074" "- 1074"]
    by simp
  ultimately have "x = of_int (round_even (x / p2 (ulp_exp x)) * 2 ^ nat (ulp_exp x + 1074))
      * p2 (- 1074)"
    by (simp only: of_int_mult mult.assoc)
  then show ?thesis by blast
qed

lemma is_repr_small_multiple:
  assumes "x = of_int n * p2 (- 1074)" and "\<bar>x\<bar> < p2 (- 1021)"
  shows "is_repr x"
proof -
  have "p2 (- 1021) = of_int (2 ^ 53) * p2 (- 1074)"
    using p2_add [of 53 "- 1074"] p2_nat [of 53] by simp
  then have "of_int \<bar>n\<bar> * p2 (- 1074) < of_int (2 ^ 53) * p2 (- 1074)"
    using assms by (simp add: abs_mult)
  then have "of_int \<bar>n\<bar> < (of_int (2 ^ 53) :: rat)" by (simp only: mult_less_cancel_right_pos p2_pos)
  then have "\<bar>n\<bar> < 2 ^ 53" by (simp only: of_int_less_iff)
  then have "is_repr (of_int n * p2 (- 1074))" by (rule is_repr_scaled_int) simp
  then show ?thesis by (simp only: assms(1))
qed

lemma rne_rel_error_multiple:
  assumes "x = of_int n * p2 (- 1074)"
  shows "\<bar>rne x - x\<bar> \<le> p2 (- 53) * \<bar>x\<bar>"
proof (cases "\<bar>x\<bar> < p2 (- 1021)")
  case True
  then have "rne x = x" using is_repr_small_multiple [OF assms] by (simp add: is_repr_def)
  then show ?thesis by simp
next
  case False
  moreover have "p2 (- 1022) \<le> p2 (- 1021)" by simp
  ultimately show ?thesis by (intro rne_rel_error_normal) linarith
qed

lemma rne_add_rel_error:
  assumes "is_repr a" and "is_repr b"
  shows "\<bar>rne (a + b) - (a + b)\<bar> \<le> p2 (- 53) * \<bar>a + b\<bar>"
proof -
  obtain m n where "a = of_int m * p2 (- 1074)" "b = of_int n * p2 (- 1074)"
    using assms is_repr_multiple by blast
  then have "a + b = of_int (m + n) * p2 (- 1074)" by (simp add: distrib_right)
  then show ?thesis by (rule rne_rel_error_multiple)
qed

end
