(* ===== verification/Double.thy ===== *)
theory Double
  imports Binary64
begin

text \<open>
  The type \<open>double\<close> of the sources, its arithmetic and its comparisons, on top of the rounding
  function of \<open>Binary64\<close>, and the interval lemmas that the component proofs use. The instances
  of the arithmetic classes let the model's expressions read like the C++ expressions; they carry
  no algebraic laws, since binary64 arithmetic has few. \<open><\<close> and \<open>\<le>\<close> are the IEEE comparisons:
  false as soon as an operand is NaN.
\<close>

section \<open>Bounds of monotone rounding\<close>

text \<open>
  What the component proofs need of a rounding function: it is monotone, odd, and leaves its own
  results alone. Everything else about intervals follows from that.
\<close>

locale rounding =
  fixes rnd :: "rat \<Rightarrow> rat"
  assumes rnd_mono: "x \<le> y \<Longrightarrow> rnd x \<le> rnd y"
    and rnd_odd: "rnd (- x) = - rnd x"
    and rnd_idem: "rnd (rnd x) = rnd x"
begin

lemma rnd_le: "x \<le> u \<Longrightarrow> rnd u = u \<Longrightarrow> rnd x \<le> u"
  using rnd_mono [of x u] by simp

lemma rnd_ge: "l \<le> x \<Longrightarrow> rnd l = l \<Longrightarrow> l \<le> rnd x"
  using rnd_mono [of l x] by simp

lemma rnd_zero: "rnd 0 = 0"
  using rnd_odd [of 0] by simp

lemma rnd_nonneg: "0 \<le> x \<Longrightarrow> 0 \<le> rnd x"
  by (rule rnd_ge) (simp_all add: rnd_zero)

lemma rnd_nonpos: "x \<le> 0 \<Longrightarrow> rnd x \<le> 0"
  by (rule rnd_le) (simp_all add: rnd_zero)

lemma rnd_abs: "\<bar>rnd x\<bar> = rnd \<bar>x\<bar>"
  using rnd_nonneg [of x] rnd_nonpos [of x] by (cases "0 \<le> x") (simp_all add: rnd_odd)

lemma rnd_abs_le: "\<bar>x\<bar> \<le> u \<Longrightarrow> rnd u = u \<Longrightarrow> \<bar>rnd x\<bar> \<le> u"
  using rnd_le [of "\<bar>x\<bar>" u] by (simp add: rnd_abs)

end

interpretation rne: rounding rne
  by unfold_locales (auto intro: rne_mono simp: rne_minus)

section \<open>Values\<close>

datatype f64 = Fin rat | PInf | NInf | NaN

definition isfinite :: "f64 \<Rightarrow> bool" where
  "isfinite v = (case v of Fin _ \<Rightarrow> True | _ \<Rightarrow> False)"

definition val :: "f64 \<Rightarrow> rat" where
  "val v = (case v of Fin q \<Rightarrow> q | _ \<Rightarrow> 0)"

definition to_f64 :: "rat \<Rightarrow> f64" where
  "to_f64 q = (if ilog2 \<bar>q\<bar> < 1024 then Fin q else if 0 < q then PInf else NInf)"

definition rnd64 :: "rat \<Rightarrow> f64" where
  "rnd64 q = to_f64 (rne q)"

text \<open>
  A decimal literal of the source denotes the double nearest to it: \<open>dec m k\<close> is the literal with
  the digits \<open>m\<close>, the last \<open>k\<close> of them after the point, so \<open>dec 85 2\<close> is \<open>0.85\<close>.
\<close>

definition dec :: "int \<Rightarrow> nat \<Rightarrow> f64" where
  "dec m k = rnd64 (of_int m / 10 ^ k)"

definition f64_of_nat :: "nat \<Rightarrow> f64" where
  "f64_of_nat n = rnd64 (of_nat n)"

text \<open>A value that a \<open>double\<close> object can hold.\<close>

definition wf64 :: "f64 \<Rightarrow> bool" where
  "wf64 v = (case v of Fin q \<Rightarrow> is_repr q \<and> ilog2 \<bar>q\<bar> < 1024 | _ \<Rightarrow> True)"

definition fsgn :: "f64 \<Rightarrow> int" where
  "fsgn v = (case v of
      Fin q \<Rightarrow> if 0 < q then 1 else if q < 0 then - 1 else 0
    | PInf \<Rightarrow> 1 | NInf \<Rightarrow> - 1 | NaN \<Rightarrow> 0)"

definition inf_of_sign :: "int \<Rightarrow> f64" where
  "inf_of_sign s = (if 0 < s then PInf else if s < 0 then NInf else NaN)"

section \<open>Arithmetic and comparisons\<close>

instantiation f64 :: "{zero, one, plus, uminus, minus, times, inverse, abs, ord}"
begin

definition zero_f64 :: f64 where "0 = Fin 0"

definition one_f64 :: f64 where "1 = Fin 1"

fun plus_f64 :: "f64 \<Rightarrow> f64 \<Rightarrow> f64" where
  "plus_f64 (Fin a) (Fin b) = rnd64 (a + b)"
| "plus_f64 NaN _ = NaN"
| "plus_f64 _ NaN = NaN"
| "plus_f64 PInf NInf = NaN"
| "plus_f64 NInf PInf = NaN"
| "plus_f64 PInf _ = PInf"
| "plus_f64 _ PInf = PInf"
| "plus_f64 NInf _ = NInf"
| "plus_f64 _ NInf = NInf"

fun uminus_f64 :: "f64 \<Rightarrow> f64" where
  "uminus_f64 (Fin a) = Fin (- a)"
| "uminus_f64 PInf = NInf"
| "uminus_f64 NInf = PInf"
| "uminus_f64 NaN = NaN"

definition minus_f64 :: "f64 \<Rightarrow> f64 \<Rightarrow> f64" where
  "minus_f64 x y = x + (- y)"

fun times_f64 :: "f64 \<Rightarrow> f64 \<Rightarrow> f64" where
  "times_f64 (Fin a) (Fin b) = rnd64 (a * b)"
| "times_f64 x y = inf_of_sign (fsgn x * fsgn y)"

text \<open>A zero divisor is \<open>+0\<close>; a finite dividend over an infinity is zero.\<close>

fun divide_f64 :: "f64 \<Rightarrow> f64 \<Rightarrow> f64" where
  "divide_f64 (Fin a) (Fin b) = (if b = 0 then inf_of_sign (fsgn (Fin a)) else rnd64 (a / b))"
| "divide_f64 NaN _ = NaN"
| "divide_f64 _ NaN = NaN"
| "divide_f64 (Fin a) _ = Fin 0"
| "divide_f64 x (Fin b) = inf_of_sign (fsgn x * (if b < 0 then - 1 else 1))"
| "divide_f64 _ _ = NaN"

definition inverse_f64 :: "f64 \<Rightarrow> f64" where
  "inverse_f64 x = (1 :: f64) div x"

fun abs_f64 :: "f64 \<Rightarrow> f64" where
  "abs_f64 (Fin a) = Fin \<bar>a\<bar>"
| "abs_f64 NaN = NaN"
| "abs_f64 _ = PInf"

fun less_eq_f64 :: "f64 \<Rightarrow> f64 \<Rightarrow> bool" where
  "less_eq_f64 NaN _ = False"
| "less_eq_f64 _ NaN = False"
| "less_eq_f64 NInf _ = True"
| "less_eq_f64 _ PInf = True"
| "less_eq_f64 (Fin a) (Fin b) = (a \<le> b)"
| "less_eq_f64 _ _ = False"

fun less_f64 :: "f64 \<Rightarrow> f64 \<Rightarrow> bool" where
  "less_f64 NaN _ = False"
| "less_f64 _ NaN = False"
| "less_f64 NInf y = (y \<noteq> NInf)"
| "less_f64 x PInf = (x \<noteq> PInf)"
| "less_f64 (Fin a) (Fin b) = (a < b)"
| "less_f64 _ _ = False"

instance ..

end

text \<open>\<open>operator==\<close> on doubles: false on NaN.\<close>

definition feq :: "f64 \<Rightarrow> f64 \<Rightarrow> bool" where
  "feq x y \<longleftrightarrow> x = y \<and> x \<noteq> NaN"

text \<open>\<open>std::max(a, b)\<close> is \<open>a < b ? b : a\<close> and \<open>std::min(a, b)\<close> is \<open>b < a ? b : a\<close>.\<close>

definition std_max :: "f64 \<Rightarrow> f64 \<Rightarrow> f64" where
  "std_max a b = (if a < b then b else a)"

definition std_min :: "f64 \<Rightarrow> f64 \<Rightarrow> f64" where
  "std_min a b = (if b < a then b else a)"

section \<open>Rewriting\<close>

named_theorems fin_simps \<open>arithmetic and comparisons on finite values\<close>

lemma fin_arith [fin_simps]:
  "Fin a + Fin b = rnd64 (a + b)"
  "Fin a - Fin b = rnd64 (a - b)"
  "Fin a * Fin b = rnd64 (a * b)"
  "b \<noteq> 0 \<Longrightarrow> Fin a / Fin b = rnd64 (a / b)"
  "- Fin a = Fin (- a)"
  "\<bar>Fin a\<bar> = Fin \<bar>a\<bar>"
  by (simp_all add: minus_f64_def)

lemma fin_order [simp, fin_simps]:
  "Fin a \<le> Fin b \<longleftrightarrow> a \<le> b"
  "Fin a < Fin b \<longleftrightarrow> a < b"
  by simp_all

lemma isfinite_simps [simp]:
  "isfinite (Fin q)" "\<not> isfinite PInf" "\<not> isfinite NInf" "\<not> isfinite NaN"
  "isfinite 0" "isfinite 1"
  by (simp_all add: isfinite_def zero_f64_def one_f64_def)

lemma val_simps [simp]: "val (Fin q) = q" "val 0 = 0" "val 1 = 1"
  by (simp_all add: val_def zero_f64_def one_f64_def)

lemma isfinite_iff: "isfinite v \<longleftrightarrow> (\<exists>q. v = Fin q)"
  by (cases v) auto

lemma Fin_val [simp]: "isfinite v \<Longrightarrow> Fin (val v) = v"
  by (auto simp: isfinite_iff)

lemma wf64_simps [simp]:
  "wf64 (Fin q) \<longleftrightarrow> is_repr q \<and> ilog2 \<bar>q\<bar> < 1024"
  "wf64 PInf" "wf64 NInf" "wf64 NaN"
  by (simp_all add: wf64_def)

lemma ilog2_abs_less_iff: "ilog2 \<bar>q\<bar> < 1024 \<longleftrightarrow> \<bar>q\<bar> < p2 1024"
  by (cases "q = 0") (simp_all add: ilog2_less_iff del: power_int_numeral)

lemma to_f64_fin: "\<bar>q\<bar> < p2 1024 \<Longrightarrow> to_f64 q = Fin q"
  by (simp only: to_f64_def ilog2_abs_less_iff if_True)

lemma wf64_to_f64: "is_repr q \<Longrightarrow> wf64 (to_f64 q)"
  by (simp add: to_f64_def)

lemma wf64_rnd64 [simp]: "wf64 (rnd64 q)"
  by (simp add: rnd64_def wf64_to_f64)

lemma rnd64_neq_NaN [simp]: "rnd64 q \<noteq> NaN" "NaN \<noteq> rnd64 q"
  by (simp_all add: rnd64_def to_f64_def)

lemma rnd64_wf [simp]: "wf64 (Fin q) \<Longrightarrow> rnd64 q = Fin q"
  by (simp add: rnd64_def is_repr_def to_f64_def)

lemma is_repr_of_int: "\<bar>m\<bar> < 2 ^ 53 \<Longrightarrow> is_repr (of_int m)"
  using is_repr_scaled_int [of m 0] by simp

lemma is_repr_0 [simp]: "is_repr 0" and is_repr_1 [simp]: "is_repr 1"
  using is_repr_of_int [of 0] is_repr_of_int [of 1] by simp_all

lemma is_repr_minus [simp]: "is_repr (- q) = is_repr q"
  by (simp add: is_repr_def rne_minus)

lemma is_repr_abs [simp]: "is_repr \<bar>q\<bar> = is_repr q"
  by (simp add: abs_if)

lemma ilog2_1 [simp]: "ilog2 1 = 0"
  by (rule ilog2_unique) (simp_all add: power_int_def)

lemma wf64_01 [simp]: "wf64 0" "wf64 1"
  by (simp_all add: zero_f64_def one_f64_def)

lemma wf64_uminus [simp]: "wf64 (- v) = wf64 v" and wf64_abs [simp]: "wf64 v \<Longrightarrow> wf64 \<bar>v\<bar>"
  by (cases v; simp)+

lemma wf64_plus [simp]: "wf64 x \<Longrightarrow> wf64 y \<Longrightarrow> wf64 (x + y)"
  by (cases x; cases y) simp_all

lemma wf64_minus [simp]: "wf64 x \<Longrightarrow> wf64 y \<Longrightarrow> wf64 (x - y)"
  by (simp add: minus_f64_def)

lemma wf64_inf_of_sign [simp]: "wf64 (inf_of_sign s)"
  by (simp add: inf_of_sign_def)

lemma wf64_times [simp]: "wf64 (x * y)"
  by (cases x; cases y) simp_all

lemma wf64_divide [simp]: "wf64 (x / y)"
  by (cases x; cases y) simp_all

lemma wf64_std_max [simp]: "wf64 x \<Longrightarrow> wf64 y \<Longrightarrow> wf64 (std_max x y)"
  and wf64_std_min [simp]: "wf64 x \<Longrightarrow> wf64 y \<Longrightarrow> wf64 (std_min x y)"
  by (simp_all add: std_max_def std_min_def)

section \<open>Rounded results within bounds\<close>

lemma p2_1024_gt: "\<bar>q\<bar> \<le> 2 ^ 60 \<Longrightarrow> \<bar>q\<bar> < p2 1024"
proof -
  assume "\<bar>q\<bar> \<le> 2 ^ 60"
  also have "(2::rat) ^ 60 = p2 60" by (simp add: power_int_def)
  also have "p2 60 < p2 1024" by (simp only: p2_less_iff)
  finally show ?thesis .
qed

lemma to_f64_cases:
  "to_f64 q = (if \<bar>q\<bar> < p2 1024 then Fin q else if 0 < q then PInf else NInf)"
  by (simp only: to_f64_def ilog2_abs_less_iff)

lemma to_f64_mono: "x \<le> y \<Longrightarrow> to_f64 x \<le> to_f64 y"
proof -
  assume "x \<le> y"
  moreover define L where "L = p2 1024"
  moreover have "0 < L" by (simp only: L_def p2_pos)
  ultimately show ?thesis unfolding to_f64_cases L_def [symmetric] by (auto simp: abs_if split: if_splits)
qed

lemma rnd64_of_int: "\<bar>m\<bar> < 2 ^ 53 \<Longrightarrow> rnd64 (of_int m) = Fin (of_int m)"
proof -
  assume m: "\<bar>m\<bar> < 2 ^ 53"
  then have "of_int \<bar>m\<bar> \<le> (of_int (2 ^ 60) :: rat)" unfolding of_int_le_iff by simp
  then have "\<bar>of_int m :: rat\<bar> < p2 1024" by (intro p2_1024_gt) simp
  then show ?thesis using is_repr_of_int [OF m] by (simp only: rnd64_def is_repr_def to_f64_fin)
qed

lemma rnd64_numeral [simp]:
  "(numeral k :: int) < 2 ^ 53 \<Longrightarrow> rnd64 (numeral k) = Fin (numeral k)"
  "(numeral k :: int) < 2 ^ 53 \<Longrightarrow> rnd64 (- numeral k) = Fin (- numeral k)"
  "rnd64 0 = Fin 0" "rnd64 1 = Fin 1"
  using rnd64_of_int [of "numeral k"] rnd64_of_int [of "- numeral k"] rnd64_of_int [of 0]
    rnd64_of_int [of 1] by simp_all

lemma rnd64_mono: "x \<le> y \<Longrightarrow> rnd64 x \<le> rnd64 y"
  by (simp add: rnd64_def to_f64_mono rne_mono)

lemma rnd64_le: "x \<le> u \<Longrightarrow> wf64 (Fin u) \<Longrightarrow> rnd64 x \<le> Fin u"
  using rnd64_mono [of x u] by simp

lemma rnd64_ge: "l \<le> x \<Longrightarrow> wf64 (Fin l) \<Longrightarrow> Fin l \<le> rnd64 x"
  using rnd64_mono [of l x] by simp

lemma rnd64_between:
  assumes "l \<le> q" "q \<le> u" "is_repr l" "is_repr u" "\<bar>l\<bar> < p2 1024" "\<bar>u\<bar> < p2 1024"
  shows "rnd64 q = Fin (rne q)" and "l \<le> rne q" and "rne q \<le> u"
proof -
  show l: "l \<le> rne q" and u: "rne q \<le> u"
    using assms by (auto simp: is_repr_def intro: rne.rnd_ge rne.rnd_le)
  have "\<bar>rne q\<bar> < p2 1024" using l u assms(5,6) by linarith
  then show "rnd64 q = Fin (rne q)" by (simp only: rnd64_def to_f64_fin)
qed

lemma rnd64_unit:
  assumes "0 \<le> q" and "q \<le> 1"
  shows "0 \<le> rnd64 q \<and> rnd64 q \<le> 1"
proof -
  have "\<bar>0::rat\<bar> < p2 1024" "\<bar>1::rat\<bar> < p2 1024" by (rule p2_1024_gt, simp)+
  from rnd64_between [OF assms is_repr_0 is_repr_1 this]
  show ?thesis by (simp add: zero_f64_def one_f64_def)
qed

lemma rnd64_nonneg: "0 \<le> q \<Longrightarrow> 0 \<le> rnd64 q"
  by (auto simp: rnd64_def to_f64_def zero_f64_def dest: rne.rnd_nonneg)

lemma unit_iff: "0 \<le> v \<and> v \<le> 1 \<longleftrightarrow> (\<exists>q. v = Fin q \<and> 0 \<le> q \<and> q \<le> 1)"
  by (cases v) (auto simp: zero_f64_def one_f64_def)

lemma nonneg_iff: "0 \<le> v \<longleftrightarrow> v = PInf \<or> (\<exists>q. v = Fin q \<and> 0 \<le> q)"
  by (cases v) (auto simp: zero_f64_def)

lemma unit_finite: "0 \<le> v \<Longrightarrow> v \<le> 1 \<Longrightarrow> isfinite v"
  using unit_iff [of v] by auto

lemma f64_unit_01 [simp]: "(0::f64) \<le> 0" "(0::f64) \<le> 1" "(1::f64) \<le> 1" "(0::f64) \<le> PInf"
  by (simp_all add: zero_f64_def one_f64_def)

lemma f64_not_less: "x \<noteq> NaN \<Longrightarrow> y \<noteq> NaN \<Longrightarrow> \<not> x < y \<longleftrightarrow> y \<le> (x::f64)"
  by (cases x; cases y) auto

lemma times_unit:
  assumes "0 \<le> x" "x \<le> 1" "0 \<le> y" "y \<le> (1::f64)"
  shows "0 \<le> x * y" and "x * y \<le> 1"
proof -
  obtain a b where ab: "x = Fin a" "y = Fin b" "0 \<le> a" "a \<le> 1" "0 \<le> b" "b \<le> 1"
    using assms unit_iff by metis
  then have "0 \<le> a * b" "a * b \<le> 1" by (simp_all add: mult_le_one)
  from rnd64_unit [OF this] ab show "0 \<le> x * y" and "x * y \<le> 1" by (simp_all add: fin_arith)
qed

lemma plus_nonneg: "0 \<le> x \<Longrightarrow> 0 \<le> y \<Longrightarrow> 0 \<le> x + (y::f64)"
  by (auto simp: nonneg_iff [of x] nonneg_iff [of y] rnd64_nonneg zero_f64_def [symmetric])

lemma dec_neq_NaN [simp]: "dec m k \<noteq> NaN" "wf64 (dec m k)"
  by (simp_all add: dec_def)

lemma dec_nonneg [simp]: "0 \<le> m \<Longrightarrow> 0 \<le> dec m k"
  by (simp add: dec_def rnd64_nonneg)

lemma dec_unit:
  assumes "0 \<le> m" "m \<le> 10 ^ k"
  shows "0 \<le> dec m k" and "dec m k \<le> 1" and "isfinite (dec m k)"
proof -
  have "of_int m \<le> (of_int (10 ^ k) :: rat)" using assms(2) by (simp only: of_int_le_iff)
  then have "0 \<le> of_int m / (10 ^ k :: rat)" "of_int m / (10 ^ k :: rat) \<le> 1"
    using assms(1) by simp_all
  from rnd64_unit [OF this] show "0 \<le> dec m k" and "dec m k \<le> 1" by (simp_all add: dec_def)
  then show "isfinite (dec m k)" by (rule unit_finite)
qed

end
