(* ===== verification/Hypot.thy ===== *)
theory Hypot
  imports Double
begin

text \<open>
  \<open>std::hypot\<close> is the one libm function the program calls. Its contract is stated as a locale: the
  identities of ISO C Annex F (symmetry, even in each argument, \<open>hypot(x, 0) = |x|\<close>), no NaN on
  finite arguments, and a result not below either leg, as IEEE 754 clause 9.2 implies for a
  correctly rounded result. \<open>hypot_cr\<close> is an executable, correctly rounded hypotenuse; it satisfies
  the contract.
\<close>

section \<open>The contract\<close>

locale libm_hypot =
  fixes hypot :: "f64 \<Rightarrow> f64 \<Rightarrow> f64"
  assumes hypot_wf: "wf64 x \<Longrightarrow> wf64 y \<Longrightarrow> wf64 (hypot x y)"
    and hypot_comm: "hypot x y = hypot y x"
    and hypot_neg: "hypot (- x) y = hypot x y"
    and hypot_zero: "wf64 x \<Longrightarrow> hypot x 0 = \<bar>x\<bar>"
    and hypot_inf: "hypot PInf y = PInf"
    and hypot_leg: "wf64 x \<Longrightarrow> wf64 y \<Longrightarrow> isfinite x \<Longrightarrow> isfinite y \<Longrightarrow> \<bar>x\<bar> \<le> hypot x y"
begin

lemma hypot_neg2: "hypot x (- y) = hypot x y"
  by (simp add: hypot_comm [of x] hypot_neg)

lemma hypot_leg2:
  assumes "wf64 x" "wf64 y" "isfinite x" "isfinite y"
  shows "\<bar>y\<bar> \<le> hypot x y"
  using hypot_leg [OF assms(2) assms(1) assms(4) assms(3)] by (simp add: hypot_comm [of x])

lemma hypot_nonneg:
  assumes "wf64 x" "wf64 y" "isfinite x" "isfinite y"
  shows "0 \<le> hypot x y"
proof -
  obtain a where "x = Fin a" using assms(3) by (auto simp: isfinite_iff)
  then show ?thesis using hypot_leg [OF assms]
    by (cases "hypot x y") (auto simp: zero_f64_def)
qed

end

section \<open>Integer square roots\<close>

function isqrt :: "int \<Rightarrow> int" where
  "isqrt n =
     (if n \<le> 0 then 0
      else let r = 2 * isqrt (n div 4) in if (r + 1) * (r + 1) \<le> n then r + 1 else r)"
  by pat_completeness auto
termination
  by (relation "measure nat") auto

declare isqrt.simps [simp del]

lemma isqrt_bounds:
  "0 \<le> n \<Longrightarrow> 0 \<le> isqrt n \<and> isqrt n * isqrt n \<le> n \<and> n < (isqrt n + 1) * (isqrt n + 1)"
proof (induction n rule: isqrt.induct)
  case (1 n)
  show ?case
  proof (cases "n = 0")
    case True
    then show ?thesis by (simp add: isqrt.simps)
  next
    case False
    define s where "s = isqrt (n div 4)"
    have IH: "0 \<le> s" "s * s \<le> n div 4" "n div 4 < (s + 1) * (s + 1)"
      using "1.IH" "1.prems" False by (auto simp: s_def)
    then have n: "4 * (s * s) \<le> n" "n < 4 * ((s + 1) * (s + 1))" by linarith+
    have eq: "isqrt n = (if (2 * s + 1) * (2 * s + 1) \<le> n then 2 * s + 1 else 2 * s)"
      using False "1.prems" by (subst isqrt.simps) (simp add: s_def Let_def)
    show ?thesis using n IH(1) by (simp add: eq algebra_simps)
  qed
qed

lemma isqrt_less_iff:
  assumes "0 \<le> n" and "0 \<le> k"
  shows "isqrt n < k \<longleftrightarrow> n < k * k"
proof -
  have b: "0 \<le> isqrt n" "isqrt n * isqrt n \<le> n" "n < (isqrt n + 1) * (isqrt n + 1)"
    using isqrt_bounds [OF assms(1)] by auto
  have "n < k * k" if "isqrt n < k"
    using mult_mono [of "isqrt n + 1" k "isqrt n + 1" k] that b by linarith
  moreover have "isqrt n < k" if "n < k * k"
  proof (rule ccontr)
    assume "\<not> isqrt n < k"
    then have "k * k \<le> isqrt n * isqrt n" using assms(2) by (intro mult_mono) auto
    then show False using that b by linarith
  qed
  ultimately show ?thesis by blast
qed

section \<open>A correctly rounded hypotenuse\<close>

text \<open>
  \<open>sqrt_even t\<close> is the integer nearest to the square root of \<open>t\<close>, ties to even; \<open>sqrt_rne s\<close> the
  binary64 number nearest to the square root of \<open>s\<close>.
\<close>

definition sqrt_even :: "rat \<Rightarrow> int" where
  "sqrt_even t =
     (let k = isqrt \<lfloor>t\<rfloor>; mid = of_int (k * k + k) + 1 / 4
      in if t < mid then k else if mid < t then k + 1 else if even k then k else k + 1)"

definition sqrt_exp :: "rat \<Rightarrow> int" where
  "sqrt_exp s = (if s = 0 then - 1074 else max (- 1074) (ilog2 s div 2 - 52))"

definition sqrt_rne :: "rat \<Rightarrow> rat" where
  "sqrt_rne s = of_int (sqrt_even (s / p2 (2 * sqrt_exp s))) * p2 (sqrt_exp s)"

fun hypot_cr :: "f64 \<Rightarrow> f64 \<Rightarrow> f64" where
  "hypot_cr (Fin a) (Fin b) = to_f64 (sqrt_rne (a * a + b * b))"
| "hypot_cr PInf _ = PInf"
| "hypot_cr NInf _ = PInf"
| "hypot_cr _ PInf = PInf"
| "hypot_cr _ NInf = PInf"
| "hypot_cr _ _ = NaN"

lemma isqrt_floor_bounds:
  assumes "0 \<le> t"
  shows "0 \<le> isqrt \<lfloor>t\<rfloor>" and "of_int (isqrt \<lfloor>t\<rfloor> * isqrt \<lfloor>t\<rfloor>) \<le> t"
    and "t < of_int ((isqrt \<lfloor>t\<rfloor> + 1) * (isqrt \<lfloor>t\<rfloor> + 1))"
proof -
  have f: "0 \<le> \<lfloor>t\<rfloor>" using assms by simp
  note b = isqrt_bounds [OF f]
  show "0 \<le> isqrt \<lfloor>t\<rfloor>" using b by simp
  show "of_int (isqrt \<lfloor>t\<rfloor> * isqrt \<lfloor>t\<rfloor>) \<le> t" using b by (simp only: le_floor_iff)
  show "t < of_int ((isqrt \<lfloor>t\<rfloor> + 1) * (isqrt \<lfloor>t\<rfloor> + 1))" using b by (simp only: floor_less_iff)
qed

lemma square_less_iff: "0 \<le> a \<Longrightarrow> 0 \<le> b \<Longrightarrow> a * a < b * b \<longleftrightarrow> a < (b :: rat)"
  using mult_mono [of b a b a] mult_strict_mono' [of a b a b] by (cases "a < b") auto

lemma sqrt_even_square:
  assumes "0 \<le> u"
  shows "sqrt_even (u * u) = round_even u"
proof -
  define k where "k = isqrt \<lfloor>u * u\<rfloor>"
  have "0 \<le> u * u" using assms by simp
  note b = isqrt_floor_bounds [OF this, folded k_def]
  have "\<not> u * u < of_int k * of_int k" using b(2) by simp
  then have "\<not> u < of_int k" using square_less_iff [of u "of_int k"] assms b(1) by simp
  moreover have "u * u < of_int (k + 1) * of_int (k + 1)" using b(3) by (simp only: of_int_mult)
  then have "u < of_int (k + 1)"
    using square_less_iff [of u "of_int (k + 1)"] assms b(1) by simp
  ultimately have k: "\<lfloor>u\<rfloor> = k" by (simp add: floor_eq_iff)
  have mid: "of_int (k * k + k) + 1 / 4 = (of_int k + 1 / 2) * (of_int k + 1 / 2 :: rat)"
    by (simp add: algebra_simps)
  have "0 \<le> of_int k + (1 / 2 :: rat)" using b(1) by simp
  from square_less_iff [OF assms this] square_less_iff [OF this assms]
  have l: "u * u < of_int (k * k + k) + 1 / 4 \<longleftrightarrow> u < of_int k + 1 / 2"
    and g: "of_int (k * k + k) + 1 / 4 < u * u \<longleftrightarrow> of_int k + 1 / 2 < u"
    unfolding mid by simp_all
  have l': "u - of_int k < 1 / 2 \<longleftrightarrow> u < of_int k + 1 / 2"
    and g': "1 / 2 < u - of_int k \<longleftrightarrow> of_int k + 1 / 2 < u"
    by linarith+
  show ?thesis
    unfolding sqrt_even_def round_even_def Let_def k_def [symmetric] k l g l' g' by simp
qed

lemma sqrt_even_ge:
  assumes "0 \<le> k" and "of_int (k * k) \<le> t"
  shows "k \<le> sqrt_even t"
proof -
  have "k * k \<le> \<lfloor>t\<rfloor>" using assms by (simp only: le_floor_iff)
  moreover have "0 \<le> k * k" by simp
  ultimately have "\<not> isqrt \<lfloor>t\<rfloor> < k" using assms(1) isqrt_less_iff [of "\<lfloor>t\<rfloor>" k] by linarith
  then show ?thesis by (auto simp: sqrt_even_def Let_def)
qed

lemma sqrt_even_le:
  assumes "0 \<le> k" and "0 \<le> t" and "t \<le> of_int (k * k)"
  shows "sqrt_even t \<le> k"
proof (cases "t = of_int (k * k)")
  case True
  then show ?thesis using sqrt_even_square [of "of_int k"] assms(1) by simp
next
  case False
  then have "\<lfloor>t\<rfloor> < k * k" using assms(3) by (simp only: floor_less_iff)
  then have "isqrt \<lfloor>t\<rfloor> < k" using assms(1,2) by (simp add: isqrt_less_iff)
  then show ?thesis by (auto simp: sqrt_even_def Let_def)
qed

lemma sqrt_exp_ge: "- 1074 \<le> sqrt_exp s"
  by (simp add: sqrt_exp_def)

lemma sqrt_exp_mono: "0 \<le> x \<Longrightarrow> x \<le> y \<Longrightarrow> sqrt_exp x \<le> sqrt_exp y"
  using ilog2_mono [of x y] zdiv_mono1 [of "ilog2 x" "ilog2 y" 2]
  by (auto simp: sqrt_exp_def max_def)

lemma p2_double: "p2 (2 * k) = p2 k * p2 k"
  using p2_add [of k k] by simp

lemma sqrt_exp_square:
  assumes "0 \<le> x"
  shows "sqrt_exp (x * x) = ulp_exp x"
proof (cases "x = 0")
  case False
  with assms have x: "0 < x" by simp
  define j where "j = ilog2 x"
  have j: "p2 j \<le> x" "x < p2 (j + 1)" using ilog2_bounds [OF x] by (simp_all add: j_def)
  have "p2 (2 * j) \<le> x * x" using j(1) x by (simp add: p2_double mult_mono)
  then have "\<not> ilog2 (x * x) < 2 * j" using x by (simp add: ilog2_less_iff)
  moreover have "x * x < p2 (2 * (j + 1))"
    unfolding p2_double using j(2) x by (intro mult_strict_mono) auto
  then have "ilog2 (x * x) < 2 * (j + 1)" using x by (simp only: ilog2_less_iff mult_pos_pos)
  ultimately have "ilog2 (x * x) div 2 = j" by presburger
  then show ?thesis using x by (simp add: sqrt_exp_def ulp_exp_def j_def)
qed (simp add: sqrt_exp_def ulp_exp_def)

lemma sqrt_rne_square: "0 \<le> x \<Longrightarrow> sqrt_rne (x * x) = rne x"
  using sqrt_even_square [of "x / p2 (ulp_exp x)"]
  by (simp add: sqrt_rne_def sqrt_exp_square rne_def p2_double)

lemma sqrt_exp_lower: "0 < s \<Longrightarrow> - 1074 < sqrt_exp s \<Longrightarrow> p2 (2 * (sqrt_exp s + 52)) \<le> s"
proof -
  assume s: "0 < s" "- 1074 < sqrt_exp s"
  then have "2 * (sqrt_exp s + 52) \<le> ilog2 s" by (auto simp: sqrt_exp_def split: if_splits)
  then have "p2 (2 * (sqrt_exp s + 52)) \<le> p2 (ilog2 s)" by (simp only: p2_le_iff)
  then show ?thesis using ilog2_bounds(1) [OF s(1)] by linarith
qed

lemma sqrt_exp_upper: "0 \<le> s \<Longrightarrow> s \<le> p2 (2 * (sqrt_exp s + 53))"
proof (cases "s = 0")
  case False
  assume "0 \<le> s"
  with False have s: "0 < s" by simp
  have "ilog2 s div 2 - 52 \<le> sqrt_exp s" using s by (simp add: sqrt_exp_def)
  then have "ilog2 s + 1 \<le> 2 * (sqrt_exp s + 53)" by presburger
  then have "p2 (ilog2 s + 1) \<le> p2 (2 * (sqrt_exp s + 53))" by (simp only: p2_le_iff)
  then show ?thesis using ilog2_bounds(2) [OF s] by linarith
qed simp

lemma p2_scale: "p2 (2 * (e + int n)) = of_int (2 ^ n * 2 ^ n) * p2 (2 * e)"
  by (simp add: p2_double p2_add)

lemma sqrt_rne_ge:
  assumes y: "0 \<le> y" "is_repr y" "y * y \<le> s"
  shows "y \<le> sqrt_rne s"
proof -
  define e where "e = sqrt_exp s"
  have s: "0 \<le> s" using y(3) zero_le_square [of y] by linarith
  have le: "ulp_exp y \<le> e"
    using sqrt_exp_mono [of "y * y" s] y by (simp add: sqrt_exp_square e_def)
  have "\<exists>k\<ge>0. y \<le> of_int k * p2 e \<and> of_int (k * k) * p2 (2 * e) \<le> s"
  proof (cases "ulp_exp y = e")
    case True
    define k where "k = round_even (y / p2 e)"
    have yk: "y = of_int k * p2 e" using y(2) True by (simp add: is_repr_def rne_def k_def)
    have "round_even 0 \<le> k" unfolding k_def using y(1) by (intro round_even_mono) simp
    then have "0 \<le> k" using round_even_of_int [of 0] by simp
    moreover have "of_int (k * k) * p2 (2 * e) = y * y"
      unfolding p2_double by (simp only: yk of_int_mult mult_ac)
    then have "of_int (k * k) * p2 (2 * e) \<le> s" using y(3) by simp
    ultimately show ?thesis using yk by auto
  next
    case False
    with le have less: "ulp_exp y + 53 \<le> e + 52" by simp
    then have e: "- 1074 < e" using ulp_exp_ge [of y] by linarith
    then have "0 < s" using s by (cases "s = 0") (auto simp: e_def sqrt_exp_def)
    then have "p2 (2 * (e + int 52)) \<le> s" using e sqrt_exp_lower [of s] by (simp add: e_def)
    moreover have "y \<le> of_int (2 ^ 52) * p2 e"
    proof -
      have "y < p2 (ulp_exp y + 53)" using ulp_exp_upper [of y] y(1) by simp
      also have "\<dots> \<le> p2 (e + 52)" using less by (simp only: p2_le_iff)
      finally show ?thesis by (simp add: p2_add)
    qed
    ultimately show ?thesis unfolding p2_scale by (intro exI [of _ "2 ^ 52"]) simp
  qed
  then obtain k where k: "0 \<le> k" "y \<le> of_int k * p2 e" "of_int (k * k) * p2 (2 * e) \<le> s"
    by blast
  have "of_int (k * k) \<le> s / p2 (2 * e)" using k(3) by (simp add: field_simps)
  then have "k \<le> sqrt_even (s / p2 (2 * e))" using k(1) by (rule sqrt_even_ge [rotated])
  then have "of_int k * p2 e \<le> sqrt_rne s"
    unfolding sqrt_rne_def e_def by (intro mult_right_mono) simp_all
  then show ?thesis using k(2) by linarith
qed

lemma is_repr_sqrt_rne:
  assumes "0 \<le> s"
  shows "is_repr (sqrt_rne s)" and "0 \<le> sqrt_rne s"
proof -
  define e where "e = sqrt_exp s"
  define m where "m = sqrt_even (s / p2 (2 * e))"
  have "s \<le> of_int (2 ^ 53 * 2 ^ 53) * p2 (2 * e)"
    using sqrt_exp_upper [OF assms] p2_scale [of e 53] by (simp add: e_def)
  then have "s / p2 (2 * e) \<le> of_int (2 ^ 53 * 2 ^ 53)" by (simp add: field_simps)
  then have "m \<le> 2 ^ 53" unfolding m_def using assms by (intro sqrt_even_le) simp_all
  moreover have m0: "0 \<le> m" unfolding m_def using assms by (intro sqrt_even_ge) simp_all
  ultimately have "\<bar>m\<bar> \<le> 2 ^ 53" by simp
  then have "is_repr (of_int m * p2 e)"
    using sqrt_exp_ge [of s] by (intro is_repr_scaled_int_le) (simp_all add: e_def)
  then show "is_repr (sqrt_rne s)" by (simp add: sqrt_rne_def m_def e_def)
  show "0 \<le> sqrt_rne s" using m0 by (simp add: sqrt_rne_def m_def e_def)
qed

lemma hypot_cr_exact:
  "0 \<le> r \<Longrightarrow> wf64 (Fin r) \<Longrightarrow> a * a + b * b = r * r \<Longrightarrow> hypot_cr (Fin a) (Fin b) = Fin r"
  by (simp add: sqrt_rne_square is_repr_def to_f64_def)

section \<open>The contract holds\<close>

lemma hypot_cr_zero:
  assumes "wf64 x"
  shows "hypot_cr x 0 = \<bar>x\<bar>"
proof (cases x)
  case (Fin a)
  have "sqrt_rne (a * a) = \<bar>a\<bar>"
    using sqrt_rne_square [of "\<bar>a\<bar>"] assms Fin by (simp add: is_repr_def rne.rnd_abs [symmetric])
  then show ?thesis using assms Fin by (simp add: zero_f64_def to_f64_def)
qed (simp_all add: zero_f64_def)

lemma hypot_cr_leg:
  assumes "wf64 x" "wf64 y" "isfinite x" "isfinite y"
  shows "\<bar>x\<bar> \<le> hypot_cr x y"
proof -
  obtain a b where xy: "x = Fin a" "y = Fin b" using assms by (auto simp: isfinite_iff)
  have "\<bar>a\<bar> * \<bar>a\<bar> \<le> a * a + b * b" by simp
  then have "\<bar>a\<bar> \<le> sqrt_rne (a * a + b * b)"
    using assms(1) xy by (intro sqrt_rne_ge) simp_all
  moreover have "0 \<le> sqrt_rne (a * a + b * b)" by (simp add: is_repr_sqrt_rne)
  ultimately show ?thesis
    by (cases "sqrt_rne (a * a + b * b) = 0") (simp_all add: xy to_f64_def)
qed

interpretation hypot_cr: libm_hypot hypot_cr
proof
  show "hypot_cr x y = hypot_cr y x" for x y
    by (cases x; cases y) (simp_all add: add.commute)
  show "hypot_cr (- x) y = hypot_cr x y" for x y
    by (cases x; cases y) simp_all
  show "wf64 (hypot_cr x y)" for x y
    by (cases x; cases y) (simp_all add: wf64_to_f64 is_repr_sqrt_rne)
qed (simp_all add: hypot_cr_zero hypot_cr_leg)

end
