(* ===== verification/Mesh_Primitives.thy ===== *)
theory Mesh_Primitives
  imports Hypot
begin

text \<open>
  The value types of the runtime and their operations, as declared in
  \<open>cmake/templates/system_architecture.hpp.in\<close> and defined in \<open>src/system_architecture.cpp\<close>:
  positions, the identity invariant, the signal evaluator, bridges and nodes; and the validated
  accessors of \<open>include/api_access.hpp\<close>. An operation that may throw returns a \<open>result\<close>; each of
  them throws before it writes, so no state goes with the exception. \<open>std::hypot\<close> is the argument
  \<open>hyp\<close>. Locks and atomics are not modelled here: every operation is one step.
\<close>

section \<open>Data\<close>

record vec3 =
  vx :: f64
  vy :: f64
  vz :: f64

record identity_invariant =
  baseline :: f64
  maxEpsilon :: f64

datatype signal_category = NOISE | CREATIVE_SIGNAL | DESTRUCTIVE_DRIFT

datatype bridge_status = NORMAL | DAMPING | RECOVERY | ISOLATED

record spatial_bridge =
  targetNodeId :: int
  distance :: f64
  orientationWeight :: f64
  capacity :: f64
  status :: bridge_status

record node =
  node_id :: nat
  position :: vec3
  state :: f64
  healthIndex :: f64
  invariant :: identity_invariant
  bridges :: "spatial_bridge list"

section \<open>Geometry\<close>

definition requireFinite :: "f64 \<Rightarrow> string \<Rightarrow> unit result" where
  "requireFinite v name = guard_that (isfinite v) (Invalid_argument (name @ '' must be finite''))"

definition vec3_validate :: "vec3 \<Rightarrow> unit result" where
  "vec3_validate p =
     rbind (requireFinite (vx p) ''x'') (\<lambda>_.
     rbind (requireFinite (vy p) ''y'') (\<lambda>_.
     requireFinite (vz p) ''z''))"

definition distanceTo :: "(f64 \<Rightarrow> f64 \<Rightarrow> f64) \<Rightarrow> vec3 \<Rightarrow> vec3 \<Rightarrow> f64 result" where
  "distanceTo hyp p q =
     rbind (vec3_validate p) (\<lambda>_.
     rbind (vec3_validate q) (\<lambda>_.
     let dx = vx p - vx q; dy = vy p - vy q; dz = vz p - vz q in
     rbind (requireFinite dx ''distance dx'') (\<lambda>_.
     rbind (requireFinite dy ''distance dy'') (\<lambda>_.
     rbind (requireFinite dz ''distance dz'') (\<lambda>_.
     let r = hyp (hyp dx dy) dz in
     rbind (requireFinite r ''distance'') (\<lambda>_. Inr r))))))"

definition orientationFactorTo :: "(f64 \<Rightarrow> f64 \<Rightarrow> f64) \<Rightarrow> vec3 \<Rightarrow> vec3 \<Rightarrow> f64 result" where
  "orientationFactorTo hyp p q =
     rbind (distanceTo hyp p q) (\<lambda>d.
     if d < dec 1 6 then Inr 1
     else Inr (dec 5 1 * (1 + (vz q - vz p) / d)))"

section \<open>Identity invariant and signal evaluation\<close>

definition invariant_validate :: "identity_invariant \<Rightarrow> unit result" where
  "invariant_validate w =
     rbind (requireFinite (baseline w) ''baseline'') (\<lambda>_.
     rbind (requireFinite (maxEpsilon w) ''maxEpsilon'') (\<lambda>_.
     guard_that (\<not> maxEpsilon w \<le> 0) (Invalid_argument ''maxEpsilon must be positive'')))"

definition isWithinSafetyBound :: "identity_invariant \<Rightarrow> f64 \<Rightarrow> bool result" where
  "isWithinSafetyBound w v =
     rbind (invariant_validate w) (\<lambda>_.
     rbind (requireFinite v ''state'') (\<lambda>_.
     Inr (\<bar>v - baseline w\<bar> \<le> maxEpsilon w)))"

definition meta_evaluate :: "f64 \<Rightarrow> f64 \<Rightarrow> identity_invariant \<Rightarrow> signal_category result" where
  "meta_evaluate candidate health omega =
     rbind (requireFinite candidate ''candidateState'') (\<lambda>_.
     rbind (requireFinite health ''healthIndex'') (\<lambda>_.
     rbind (isWithinSafetyBound omega candidate) (\<lambda>safe.
     if \<not> safe then Inr DESTRUCTIVE_DRIFT
     else if dec 7 1 < health \<and> dec 12 1 < \<bar>candidate - baseline omega\<bar>
       then Inr CREATIVE_SIGNAL
     else Inr NOISE)))"

section \<open>Bridges\<close>

fun updateBridgeState :: "signal_category \<Rightarrow> spatial_bridge \<Rightarrow> spatial_bridge" where
  "updateBridgeState NOISE b =
     b\<lparr>capacity := std_max (dec 1 2) (capacity b * dec 85 2), status := DAMPING\<rparr>"
| "updateBridgeState CREATIVE_SIGNAL b =
     (let c = std_min 1 (capacity b + dec 15 2)
      in b\<lparr>capacity := c, status := (if dec 9 1 \<le> c then NORMAL else RECOVERY)\<rparr>)"
| "updateBridgeState DESTRUCTIVE_DRIFT b = b\<lparr>capacity := 0, status := ISOLATED\<rparr>"

definition getEffectiveCoupling :: "spatial_bridge \<Rightarrow> f64 result" where
  "getEffectiveCoupling b =
     rbind (requireFinite (distance b) ''bridge distance'') (\<lambda>_.
     rbind (requireFinite (orientationWeight b) ''bridge orientationWeight'') (\<lambda>_.
     rbind (requireFinite (capacity b) ''bridge capacity'') (\<lambda>_.
     rbind (guard_that (\<not> distance b < 0)
       (Invalid_argument ''bridge distance must be non-negative'')) (\<lambda>_.
     rbind (guard_that (\<not> (orientationWeight b < 0 \<or> 1 < orientationWeight b))
       (Invalid_argument ''bridge orientationWeight must be in [0, 1]'')) (\<lambda>_.
     rbind (guard_that (\<not> (capacity b < 0 \<or> 1 < capacity b))
       (Invalid_argument ''bridge capacity must be in [0, 1]'')) (\<lambda>_.
     let r = capacity b * (1 / (1 + dec 1 1 * distance b)) * orientationWeight b in
     rbind (requireFinite r ''effective coupling'') (\<lambda>_. Inr r)))))))"

definition getEffectiveTransmission :: "spatial_bridge \<Rightarrow> f64 result" where
  "getEffectiveTransmission b = getEffectiveCoupling b"

section \<open>Nodes\<close>

text \<open>The constructor; \<open>maxEpsilon\<close> keeps its default member initializer.\<close>

definition mk_node :: "nat \<Rightarrow> vec3 \<Rightarrow> f64 \<Rightarrow> node result" where
  "mk_node i pos initialBaseline =
     rbind (vec3_validate pos) (\<lambda>_.
     rbind (requireFinite initialBaseline ''baseline'') (\<lambda>_.
     Inr \<lparr>node_id = i, position = pos, state = initialBaseline, healthIndex = 1,
          invariant = \<lparr>baseline = initialBaseline, maxEpsilon = dec 10 0\<rparr>, bridges = []\<rparr>))"

definition updateHealth :: "node \<Rightarrow> node result" where
  "updateHealth n =
     rbind (invariant_validate (invariant n)) (\<lambda>_.
     rbind (requireFinite (state n) ''state'') (\<lambda>_.
     let drift = \<bar>state n - baseline (invariant n)\<bar> in
     Inr (n\<lparr>healthIndex := std_max 0 (1 - drift / maxEpsilon (invariant n))\<rparr>)))"

abbreviation maxAllowedReflexStep :: f64 where
  "maxAllowedReflexStep \<equiv> dec 35 1"

definition applyLocalReflexFilter :: "node \<Rightarrow> f64 \<Rightarrow> f64 result" where
  "applyLocalReflexFilter n rawInput =
     rbind (requireFinite rawInput ''rawInput'') (\<lambda>_.
     rbind (requireFinite (state n) ''state'') (\<lambda>_.
     let delta = rawInput - state n in
     if maxAllowedReflexStep < \<bar>delta\<bar>
     then Inr (state n + (if 0 < delta then maxAllowedReflexStep else - maxAllowedReflexStep))
     else Inr rawInput))"

section \<open>Validated accessors (api)\<close>

record node_snapshot =
  snap_id :: nat
  snap_position :: vec3
  snap_state :: f64
  snap_healthIndex :: f64
  snap_bridgeCount :: nat

definition setNodeState :: "node \<Rightarrow> f64 \<Rightarrow> node result" where
  "setNodeState n v = rbind (requireFinite v ''state'') (\<lambda>_. Inr (n\<lparr>state := v\<rparr>))"

definition setNodeHealthIndex :: "node \<Rightarrow> f64 \<Rightarrow> node result" where
  "setNodeHealthIndex n v =
     rbind (requireFinite v ''healthIndex'') (\<lambda>_.
     rbind (guard_that (\<not> (v < 0 \<or> 1 < v)) (Invalid_argument ''healthIndex must be in [0, 1]''))
       (\<lambda>_. Inr (n\<lparr>healthIndex := v\<rparr>)))"

definition setNodePosition :: "node \<Rightarrow> vec3 \<Rightarrow> node result" where
  "setNodePosition n p = rbind (vec3_validate p) (\<lambda>_. Inr (n\<lparr>position := p\<rparr>))"

definition snapshotNode :: "node \<Rightarrow> node_snapshot result" where
  "snapshotNode n =
     rbind (vec3_validate (position n)) (\<lambda>_.
     rbind (invariant_validate (invariant n)) (\<lambda>_.
     rbind (requireFinite (state n) ''state'') (\<lambda>_.
     rbind (requireFinite (healthIndex n) ''healthIndex'') (\<lambda>_.
     rbind (guard_that (\<not> (healthIndex n < 0 \<or> 1 < healthIndex n))
       (Runtime_error ''node healthIndex violates [0, 1]'')) (\<lambda>_.
     Inr \<lparr>snap_id = node_id n, snap_position = position n, snap_state = state n,
          snap_healthIndex = healthIndex n, snap_bridgeCount = length (bridges n)\<rparr>)))))"

definition setBridgeCapacity :: "spatial_bridge \<Rightarrow> f64 \<Rightarrow> spatial_bridge result" where
  "setBridgeCapacity b v =
     rbind (requireFinite v ''bridge capacity'') (\<lambda>_.
     rbind (guard_that (\<not> (v < 0 \<or> 1 < v)) (Invalid_argument ''bridge capacity must be in [0, 1]''))
       (\<lambda>_. Inr (b\<lparr>capacity := v\<rparr>)))"

definition setBridgeGeometry :: "spatial_bridge \<Rightarrow> int \<Rightarrow> f64 \<Rightarrow> f64 \<Rightarrow> spatial_bridge result" where
  "setBridgeGeometry b target dist1 orient1 =
     rbind (guard_that (\<not> target < 0)
       (Invalid_argument ''bridge targetNodeId must be non-negative'')) (\<lambda>_.
     rbind (requireFinite dist1 ''bridge distance'') (\<lambda>_.
     rbind (requireFinite orient1 ''bridge orientationWeight'') (\<lambda>_.
     rbind (guard_that (\<not> dist1 < 0)
       (Invalid_argument ''bridge distance must be non-negative'')) (\<lambda>_.
     rbind (guard_that (\<not> (orient1 < 0 \<or> 1 < orient1))
       (Invalid_argument ''bridge orientationWeight must be in [0, 1]'')) (\<lambda>_.
     Inr (b\<lparr>targetNodeId := target, distance := dist1, orientationWeight := orient1\<rparr>))))))"

definition validateBridge :: "spatial_bridge \<Rightarrow> unit result" where
  "validateBridge b =
     rbind (guard_that (\<not> targetNodeId b < 0)
       (Invalid_argument ''bridge targetNodeId must be non-negative'')) (\<lambda>_.
     rbind (getEffectiveCoupling b) (\<lambda>_. Inr ()))"

section \<open>Well-formed values\<close>

definition bridge_ok :: "spatial_bridge \<Rightarrow> bool" where
  "bridge_ok b \<longleftrightarrow> isfinite (distance b) \<and> 0 \<le> distance b \<and>
     0 \<le> orientationWeight b \<and> orientationWeight b \<le> 1 \<and> 0 \<le> capacity b \<and> capacity b \<le> 1"

text \<open>What the status field says of the capacity.\<close>

definition status_coherent :: "spatial_bridge \<Rightarrow> bool" where
  "status_coherent b = (case status b of
      NORMAL \<Rightarrow> dec 9 1 \<le> capacity b
    | DAMPING \<Rightarrow> dec 1 2 \<le> capacity b
    | RECOVERY \<Rightarrow> capacity b < dec 9 1
    | ISOLATED \<Rightarrow> capacity b = 0)"

definition invariant_ok :: "identity_invariant \<Rightarrow> bool" where
  "invariant_ok w \<longleftrightarrow> isfinite (baseline w) \<and> isfinite (maxEpsilon w) \<and> 0 < maxEpsilon w"

definition vec3_ok :: "vec3 \<Rightarrow> bool" where
  "vec3_ok p \<longleftrightarrow> isfinite (vx p) \<and> isfinite (vy p) \<and> isfinite (vz p)"

definition vec3_wf :: "vec3 \<Rightarrow> bool" where
  "vec3_wf p \<longleftrightarrow> wf64 (vx p) \<and> wf64 (vy p) \<and> wf64 (vz p)"

lemma requireFinite_iff [simp]:
  "requireFinite v s = Inr u \<longleftrightarrow> isfinite v"
  "requireFinite v s = Inl e \<longleftrightarrow> \<not> isfinite v \<and> e = Invalid_argument (s @ '' must be finite'')"
  by (auto simp: requireFinite_def result_simps)

lemma requireFinite_ok [simp]: "isfinite v \<Longrightarrow> requireFinite v s = Inr ()"
  by simp

lemma vec3_validate_iff [simp]: "vec3_validate p = Inr u \<longleftrightarrow> vec3_ok p"
  by (simp add: vec3_validate_def vec3_ok_def result_simps)

lemma vec3_validate_ok [simp]: "vec3_ok p \<Longrightarrow> vec3_validate p = Inr ()"
  by simp

lemma f64_not_le_0: "isfinite v \<Longrightarrow> \<not> v \<le> 0 \<longleftrightarrow> 0 < v"
  by (auto simp: isfinite_iff zero_f64_def)

lemma invariant_validate_iff [simp]: "invariant_validate w = Inr u \<longleftrightarrow> invariant_ok w"
  by (simp add: invariant_validate_def invariant_ok_def result_simps f64_not_le_0 cong: conj_cong)

lemma invariant_validate_ok [simp]: "invariant_ok w \<Longrightarrow> invariant_validate w = Inr ()"
  by simp

lemma f64_range_iff:
  "isfinite v \<Longrightarrow> \<not> (v < 0 \<or> 1 < v) \<longleftrightarrow> 0 \<le> v \<and> v \<le> 1"
  "isfinite v \<Longrightarrow> \<not> v < 0 \<longleftrightarrow> 0 \<le> v"
  by (auto simp: isfinite_iff zero_f64_def one_f64_def)

section \<open>Bridges: coupling and state updates\<close>

lemma one_plus_ge: "0 \<le> x \<Longrightarrow> (1::f64) \<le> 1 + x"
proof -
  assume "0 \<le> x"
  then consider "x = PInf" | q where "x = Fin q" "0 \<le> q" by (auto simp: nonneg_iff)
  then show ?thesis
  proof cases
    case 2
    have "1 \<le> rne (1 + q)" using 2 by (intro rne.rnd_ge) (simp_all add: is_repr_def [symmetric])
    then show ?thesis using 2 by (simp add: one_f64_def rnd64_def to_f64_def)
  qed (simp add: one_f64_def)
qed

lemma recip_unit:
  assumes "1 \<le> y"
  shows "0 \<le> 1 / y" and "1 / y \<le> (1::f64)"
proof -
  consider "y = PInf" | q where "y = Fin q" "1 \<le> q"
    using assms by (cases y) (auto simp: one_f64_def)
  then have "0 \<le> 1 / y \<and> 1 / y \<le> (1::f64)"
  proof cases
    case 2
    then show ?thesis using rnd64_unit [of "1 / q"] by (simp add: one_f64_def fin_arith)
  qed (simp add: one_f64_def zero_f64_def)
  then show "0 \<le> 1 / y" and "1 / y \<le> (1::f64)" by auto
qed

lemma times_nonneg: "0 \<le> x \<Longrightarrow> 0 \<le> y \<Longrightarrow> isfinite x \<Longrightarrow> isfinite y \<Longrightarrow> 0 \<le> x * (y::f64)"
  by (auto simp: isfinite_iff zero_f64_def [symmetric] intro!: rnd64_nonneg)
    (simp add: zero_f64_def)

lemma attenuation_unit:
  assumes "isfinite d" and "0 \<le> d"
  shows "0 \<le> 1 / (1 + dec 1 1 * d)" and "1 / (1 + dec 1 1 * d) \<le> (1::f64)"
proof -
  have "0 \<le> dec 1 1 * d"
    using assms by (intro times_nonneg) (simp_all add: dec_unit)
  then have "1 \<le> 1 + dec 1 1 * d" by (rule one_plus_ge)
  then show "0 \<le> 1 / (1 + dec 1 1 * d)" and "1 / (1 + dec 1 1 * d) \<le> (1::f64)"
    by (rule recip_unit)+
qed

lemma coupling_value_unit:
  assumes "isfinite d" "0 \<le> d" "0 \<le> w" "w \<le> 1" "0 \<le> c" "c \<le> (1::f64)"
  shows "0 \<le> c * (1 / (1 + dec 1 1 * d)) * w" and "c * (1 / (1 + dec 1 1 * d)) * w \<le> 1"
  using assms attenuation_unit [of d] times_unit by metis+

lemma getEffectiveCoupling_eq:
  assumes "bridge_ok b"
  shows "getEffectiveCoupling b =
    Inr (capacity b * (1 / (1 + dec 1 1 * distance b)) * orientationWeight b)"
proof -
  have fin: "isfinite (orientationWeight b)" "isfinite (capacity b)"
    using assms unit_finite by (auto simp: bridge_ok_def)
  have "isfinite (capacity b * (1 / (1 + dec 1 1 * distance b)) * orientationWeight b)"
    using assms coupling_value_unit unit_finite by (simp add: bridge_ok_def)
  moreover have "\<not> (orientationWeight b < 0 \<or> 1 < orientationWeight b)"
    "\<not> (capacity b < 0 \<or> 1 < capacity b)" "\<not> distance b < 0"
    using assms fin f64_range_iff unfolding bridge_ok_def by blast+
  ultimately show ?thesis
    using assms fin by (simp add: getEffectiveCoupling_def bridge_ok_def Let_def)
qed

lemma getEffectiveCoupling_Inr_bridge_ok: "getEffectiveCoupling b = Inr c \<Longrightarrow> bridge_ok b"
  unfolding getEffectiveCoupling_def bridge_ok_def result_simps requireFinite_iff Let_def
  using f64_range_iff by blast

lemma capacity_damped_unit:
  assumes "0 \<le> c" "c \<le> 1"
  shows "0 \<le> std_max (dec 1 2) (c * dec 85 2)"
    and "std_max (dec 1 2) (c * dec 85 2) \<le> 1"
    and "dec 1 2 \<le> std_max (dec 1 2) (c * dec 85 2)"
proof -
  have t: "0 \<le> c * dec 85 2" "c * dec 85 2 \<le> 1"
    using assms by (auto intro!: times_unit dec_unit)
  then obtain q where q: "c * dec 85 2 = Fin q" using unit_finite isfinite_iff by blast
  obtain r where r: "dec 1 2 = Fin r"
    using dec_unit(3) [of 1 2] by (auto simp: isfinite_iff)
  show "0 \<le> std_max (dec 1 2) (c * dec 85 2)"
    and "std_max (dec 1 2) (c * dec 85 2) \<le> 1"
    using t by (simp_all add: std_max_def dec_unit)
  show "dec 1 2 \<le> std_max (dec 1 2) (c * dec 85 2)"
    unfolding q r by (simp add: std_max_def)
qed

lemma capacity_raised_unit:
  assumes "0 \<le> c" "c \<le> 1"
  shows "0 \<le> std_min 1 (c + dec 15 2)" and "std_min 1 (c + dec 15 2) \<le> 1"
proof -
  have s: "0 \<le> c + dec 15 2" using assms by (intro plus_nonneg) simp_all
  then have n: "c + dec 15 2 \<noteq> NaN" by (cases "c + dec 15 2") (auto simp: zero_f64_def)
  show "0 \<le> std_min 1 (c + dec 15 2)" using s by (simp add: std_min_def)
  show "std_min 1 (c + dec 15 2) \<le> 1"
    using n f64_not_less [of "c + dec 15 2" 1]
    by (auto simp: std_min_def one_f64_def) (cases "c + dec 15 2"; auto)
qed

lemma updateBridgeState_frame [simp]:
  "targetNodeId (updateBridgeState cat b) = targetNodeId b"
  "distance (updateBridgeState cat b) = distance b"
  "orientationWeight (updateBridgeState cat b) = orientationWeight b"
  by (cases cat; simp add: Let_def)+

lemma updateBridgeState_unit:
  assumes "0 \<le> capacity b" "capacity b \<le> 1"
  shows "0 \<le> capacity (updateBridgeState cat b)" and "capacity (updateBridgeState cat b) \<le> 1"
  using assms capacity_damped_unit capacity_raised_unit by (cases cat; simp add: Let_def)+

lemma updateBridgeState_bridge_ok: "bridge_ok b \<Longrightarrow> bridge_ok (updateBridgeState cat b)"
  using updateBridgeState_unit [of b cat] by (simp add: bridge_ok_def)

lemma updateBridgeState_status_coherent:
  assumes "0 \<le> capacity b" "capacity b \<le> 1"
  shows "status_coherent (updateBridgeState cat b)"
proof (cases cat)
  case NOISE
  then show ?thesis using capacity_damped_unit [OF assms] by (simp add: status_coherent_def)
next
  case CREATIVE_SIGNAL
  define c where "c = std_min 1 (capacity b + dec 15 2)"
  obtain q where q: "c = Fin q"
    using capacity_raised_unit [OF assms] unit_finite isfinite_iff unfolding c_def by blast
  obtain r where r: "dec 9 1 = Fin r"
    using dec_unit(3) [of 9 1] by (auto simp: isfinite_iff)
  show ?thesis using CREATIVE_SIGNAL q r
    by (auto simp: status_coherent_def c_def [symmetric] Let_def)
next
  case DESTRUCTIVE_DRIFT
  then show ?thesis by (simp add: status_coherent_def)
qed

end
