(* ===== verification/Primitive_Laws.thy ===== *)
theory Primitive_Laws
  imports Mesh_Primitives
begin

text \<open>
  Laws of the geometry, of the health index, of the signal evaluator and of the reflex filter of
  \<open>Mesh_Primitives\<close>: ranges, symmetry of distances, and how far one shock can move a node.
\<close>

section \<open>Rounded differences\<close>

lemma rnd64_minus: "rnd64 (- q) = - rnd64 q"
  by (auto simp: rnd64_def to_f64_def rne_minus)

lemma f64_minus_swap: "y - x = - (x - (y::f64))"
  using rnd64_minus [of "val x - val y"] by (cases x; cases y) (simp_all add: minus_f64_def)

lemma isfinite_uminus [simp]: "isfinite (- v) = isfinite v"
  by (cases v) simp_all

lemma rnd64_int_bounds:
  assumes "of_int l \<le> q" "q \<le> of_int u" "\<bar>l\<bar> < 2 ^ 53" "\<bar>u\<bar> < 2 ^ 53"
  shows "\<exists>r. rnd64 q = Fin r \<and> of_int l \<le> r \<and> r \<le> of_int u"
proof -
  have small: "\<bar>of_int k :: rat\<bar> < p2 1024" if "\<bar>k\<bar> < 2 ^ 53" for k :: int
  proof (rule p2_1024_gt)
    have "\<bar>k\<bar> \<le> 2 ^ 60" using that by simp
    then have "of_int \<bar>k\<bar> \<le> (of_int (2 ^ 60) :: rat)" by (simp only: of_int_le_iff)
    then show "\<bar>of_int k :: rat\<bar> \<le> 2 ^ 60" by simp
  qed
  show ?thesis
    using rnd64_between [OF assms(1,2) is_repr_of_int is_repr_of_int small small] assms(3,4)
    by blast
qed

section \<open>Geometry\<close>

lemma distanceTo_Inr_iff:
  "distanceTo hyp p q = Inr d \<longleftrightarrow>
     vec3_ok p \<and> vec3_ok q \<and> isfinite (vx p - vx q) \<and> isfinite (vy p - vy q) \<and>
     isfinite (vz p - vz q) \<and> isfinite d \<and>
     d = hyp (hyp (vx p - vx q) (vy p - vy q)) (vz p - vz q)"
  by (auto simp: distanceTo_def result_simps Let_def)

context libm_hypot
begin

lemma distance_sym: "distanceTo hypot p q = Inr d \<Longrightarrow> distanceTo hypot q p = Inr d"
  unfolding distanceTo_Inr_iff f64_minus_swap [of "vx q"] f64_minus_swap [of "vy q"]
    f64_minus_swap [of "vz q"]
  by (auto simp: hypot_neg hypot_neg2)

lemma hypot_finite_leg:
  assumes "wf64 x" "wf64 y" "isfinite x" "isfinite y" "isfinite (hypot (hypot x y) z)"
  shows "isfinite (hypot x y)"
proof -
  have "0 \<le> hypot x y" using assms by (intro hypot_nonneg)
  moreover have "hypot x y \<noteq> PInf" using assms(5) by (auto simp: hypot_inf)
  ultimately show ?thesis by (auto simp: nonneg_iff)
qed

lemma distance_bounds:
  assumes "distanceTo hypot p q = Inr d" and "vec3_wf p" and "vec3_wf q"
  shows "0 \<le> d" and "\<bar>vz p - vz q\<bar> \<le> d"
proof -
  have wf: "wf64 (vx p - vx q)" "wf64 (vy p - vy q)" "wf64 (vz p - vz q)"
    using assms(2,3) by (simp_all add: vec3_wf_def)
  have fin: "isfinite (vx p - vx q)" "isfinite (vy p - vy q)" "isfinite (vz p - vz q)"
    "isfinite d" "d = hypot (hypot (vx p - vx q) (vy p - vy q)) (vz p - vz q)"
    using assms(1) unfolding distanceTo_Inr_iff by auto
  then have fin2: "isfinite (hypot (vx p - vx q) (vy p - vy q))"
    using wf hypot_finite_leg by blast
  show "0 \<le> d" unfolding fin(5) using wf fin fin2 by (intro hypot_nonneg hypot_wf)
  show "\<bar>vz p - vz q\<bar> \<le> d" unfolding fin(5) using wf fin fin2 by (intro hypot_leg2 hypot_wf)
qed

lemma orientation_unit:
  assumes "orientationFactorTo hypot p q = Inr w" and "vec3_wf p" and "vec3_wf q"
  shows "0 \<le> w" and "w \<le> 1"
proof -
  obtain d where d: "distanceTo hypot p q = Inr d"
    and w: "w = (if d < dec 1 6 then 1 else dec 5 1 * (1 + (vz q - vz p) / d))"
    using assms(1) by (auto simp: orientationFactorTo_def result_simps split: if_splits)
  have "0 \<le> w \<and> w \<le> 1"
  proof (cases "d < dec 1 6")
    case False
    have "isfinite d" "isfinite (vz p - vz q)" using d unfolding distanceTo_Inr_iff by auto
    then obtain r z where r: "d = Fin r" and z: "vz p - vz q = Fin z"
      by (auto simp: isfinite_iff)
    have z': "vz q - vz p = Fin (- z)" by (simp add: f64_minus_swap [of "vz q"] z)
    have zr: "\<bar>z\<bar> \<le> r" using distance_bounds(2) [OF d assms(2,3)] by (simp add: r z)
    have "0 < dec 1 6" by code_simp
    then have r0: "0 < r"
      using False r dec_unit(3) [of 1 6] by (auto simp: isfinite_iff zero_f64_def)
    have "- 1 \<le> - z / r" "- z / r \<le> 1" using zr r0 by (simp_all add: field_simps abs_le_iff)
    then obtain t where t: "Fin (- z) / Fin r = Fin t" "- 1 \<le> t" "t \<le> 1"
      using rnd64_int_bounds [of "- 1" "- z / r" 1] r0 by (auto simp: fin_arith)
    then obtain s where s: "1 + Fin t = Fin s" "0 \<le> s" "s \<le> 2"
      using rnd64_int_bounds [of 0 "1 + t" 2] by (auto simp: one_f64_def)
    have half: "dec 5 1 = Fin (1 / 2)" by code_simp
    have "w = dec 5 1 * (1 + Fin (- z) / Fin r)" using False by (simp add: w z' r)
    also have "\<dots> = Fin (1 / 2) * Fin s" by (simp only: t(1) s(1) half)
    finally have "w = rnd64 (1 / 2 * s)" by (simp only: fin_arith)
    then show ?thesis using rnd64_unit [of "1 / 2 * s"] s by simp
  qed (simp add: w)
  then show "0 \<le> w" and "w \<le> 1" by auto
qed

text \<open>What \<open>connectPairs\<close> stores in a new bridge passes the coupling check.\<close>

lemma fresh_bridge_ok:
  assumes "distanceTo hypot p q = Inr d" and "orientationFactorTo hypot p q = Inr w"
    and "vec3_wf p" and "vec3_wf q"
  shows "bridge_ok \<lparr>targetNodeId = t, distance = d, orientationWeight = w, capacity = 1,
    status = NORMAL\<rparr>"
  using assms distance_bounds(1) orientation_unit
  by (auto simp: bridge_ok_def distanceTo_Inr_iff)

end

section \<open>The health index\<close>

lemma drift_nonneg: "isfinite s \<Longrightarrow> isfinite b \<Longrightarrow> 0 \<le> \<bar>s - (b::f64)\<bar>"
  by (auto simp: isfinite_iff fin_arith rnd64_def to_f64_def zero_f64_def)

lemma divide_nonneg: "0 \<le> x \<Longrightarrow> isfinite e \<Longrightarrow> 0 < e \<Longrightarrow> 0 \<le> x / (e::f64)"
  by (auto simp: nonneg_iff [of x] isfinite_iff zero_f64_def [symmetric] fin_arith
      inf_of_sign_def fsgn_def intro!: rnd64_nonneg) (auto simp: zero_f64_def)

lemma one_minus_le: "0 \<le> y \<Longrightarrow> 1 - y \<le> (1::f64)"
proof -
  assume "0 \<le> y"
  then consider "y = PInf" | q where "y = Fin q" "0 \<le> q" by (auto simp: nonneg_iff)
  then show ?thesis
  proof cases
    case 2
    then have "rnd64 (1 - q) \<le> Fin 1" by (intro rnd64_le) simp_all
    then show ?thesis using 2 by (simp add: one_f64_def fin_arith)
  qed (simp add: one_f64_def minus_f64_def)
qed

lemma health_value_unit:
  assumes "isfinite s" "isfinite b" "isfinite e" "0 < e"
  shows "0 \<le> std_max 0 (1 - \<bar>s - b\<bar> / e)" and "std_max 0 (1 - \<bar>s - b\<bar> / e) \<le> 1"
proof -
  have le: "1 - \<bar>s - b\<bar> / e \<le> 1" using assms by (intro one_minus_le divide_nonneg drift_nonneg)
  show "std_max 0 (1 - \<bar>s - b\<bar> / e) \<le> 1" using le by (simp add: std_max_def)
  show "0 \<le> std_max 0 (1 - \<bar>s - b\<bar> / e)"
    by (cases "1 - \<bar>s - b\<bar> / e") (auto simp: std_max_def zero_f64_def)
qed

lemma updateHealth_Inr_iff:
  "updateHealth n = Inr n' \<longleftrightarrow> invariant_ok (invariant n) \<and> isfinite (state n) \<and>
     n' = n\<lparr>healthIndex := std_max 0 (1 - \<bar>state n - baseline (invariant n)\<bar>
       / maxEpsilon (invariant n))\<rparr>"
  by (auto simp: updateHealth_def result_simps Let_def)

section \<open>The reflex filter\<close>

lemma rne_near_max:
  assumes "is_repr s" "\<bar>s\<bar> < p2 1024" "\<bar>x - s\<bar> \<le> 4"
  shows "\<bar>rne x\<bar> < p2 1024"
proof -
  define M where "M = (of_int (2 ^ 53 - 1) * p2 971 :: rat)"
  have M: "is_repr M" unfolding M_def by (rule is_repr_scaled_int) simp_all
  have M0: "0 \<le> M" unfolding M_def by (intro mult_nonneg_nonneg) simp_all
  have p1024: "p2 1024 = of_int (2 ^ 53) * p2 971"
    using p2_add [of 53 971] p2_nat [of 53] by simp
  then have M1024: "M + p2 971 = p2 1024" by (simp add: M_def algebra_simps)
  have big: "p2 3 \<le> p2 970" by (simp only: p2_le_iff)
  have p971: "p2 971 = 2 * p2 970" using p2_add [of 1 970] by simp
  have p3: "p2 3 = 8" by (simp add: power_int_def)
  have bound: "rne y < p2 1024" if y: "0 \<le> y" "y \<le> t + 4" "is_repr t" "t < p2 1024" for y t
  proof (cases "y \<le> M")
    case True
    then have "rne y \<le> M" using M by (intro rne.rnd_le) (simp_all add: is_repr_def)
    then show ?thesis using M1024 p2_pos [of 971] by linarith
  next
    case False
    have "t \<le> M"
    proof (rule ccontr)
      assume "\<not> t \<le> M"
      then have t: "M < t" by simp
      have "0 < t" using t M0 by linarith
      have "p2 1023 \<le> M" using p2_add [of 52 971] p2_nat [of 52] by (simp add: M_def)
      then have "\<not> ilog2 t < 1023" using t \<open>0 < t\<close> by (simp only: ilog2_less_iff)
      moreover have "ilog2 t < 1024" using y(4) \<open>0 < t\<close> by (simp only: ilog2_less_iff)
      ultimately have "ulp_exp t = 971" using \<open>0 < t\<close> by (simp add: ulp_exp_def)
      then obtain k where k: "t = of_int k * p2 971"
        using y(3) unfolding is_repr_def rne_def by metis
      have "of_int (2 ^ 53 - 1) < (of_int k :: rat)" "of_int k < (of_int (2 ^ 53) :: rat)"
        using t y(4) unfolding M_def k p1024 by (simp_all only: mult_less_cancel_right_pos p2_pos)
      then have "2 ^ 53 - 1 < k" "k < 2 ^ 53" by (simp_all only: of_int_less_iff)
      then show False by linarith
    qed
    then have y2: "y - M \<le> 4" using y by linarith
    have "ulp_exp y = 971"
    proof -
      have y0: "0 < y" using False M0 by linarith
      have "p2 1023 \<le> M" using p2_add [of 52 971] p2_nat [of 52] by (simp add: M_def)
      then have "\<not> ilog2 y < 1023" using False y0 by (simp only: ilog2_less_iff)
      moreover have "y < p2 1024" using y2 M1024 big p971 p3 by linarith
      then have "ilog2 y < 1024" using y0 by (simp only: ilog2_less_iff)
      ultimately show ?thesis using y0 by (simp add: ulp_exp_def)
    qed
    moreover have "round_even (y / p2 971) = 2 ^ 53 - 1"
    proof (rule round_even_near)
      have "\<bar>of_int (2 ^ 53 - 1) - y / p2 971\<bar> = (y - M) / p2 971"
        using False by (simp add: M_def field_simps)
      also have "\<dots> \<le> 4 / p2 971" using y2 by (simp add: divide_right_mono)
      also have "\<dots> < 1 / 2" using big p971 p3 p2_pos [of 971] by (simp add: field_simps)
      finally show "\<bar>of_int (2 ^ 53 - 1) - y / p2 971\<bar> < 1 / 2" .
    qed
    ultimately have "rne y = M" by (simp add: rne_def M_def)
    then show ?thesis using M1024 p2_pos [of 971] by linarith
  qed
  have "rne \<bar>x\<bar> < p2 1024"
    using assms by (intro bound [of "\<bar>x\<bar>" "\<bar>s\<bar>"]) auto
  then show ?thesis by (simp add: rne.rnd_abs)
qed

lemma reflex_step_value: "dec 35 1 = Fin (7 / 2)"
  by code_simp

lemma is_repr_7_2: "is_repr (7 / 2)"
  using is_repr_scaled_int [of 7 "- 1"] by (simp add: power_int_minus)

lemma u_small: "p2 (- 53) \<le> 1 / 8"
proof -
  have "p2 (- 53) \<le> p2 (- 3)" by (simp only: p2_le_iff)
  also have "p2 (- 3) = 1 / 8" by (simp add: power_int_minus)
  finally show ?thesis .
qed

lemma reflex_clamped:
  assumes "is_repr a" "\<bar>a\<bar> < p2 1024" "c = 7 / 2 \<or> c = - (7 / 2)"
  shows "rnd64 (a + c) = Fin (rne (a + c))"
    and "\<bar>rne (a + c) - a\<bar> \<le> 7 / 2 + p2 (- 53) * (\<bar>a\<bar> + 4)"
proof -
  have c: "\<bar>c\<bar> = 7 / 2" using assms(3) by auto
  have "is_repr c" using assms(3) by (elim disjE) (simp_all only: is_repr_minus is_repr_7_2)
  note c = c this
  then have "\<bar>rne (a + c)\<bar> < p2 1024" using assms by (intro rne_near_max [of a]) auto
  then show "rnd64 (a + c) = Fin (rne (a + c))" by (simp only: rnd64_def to_f64_fin)
  have "\<bar>rne (a + c) - (a + c)\<bar> \<le> p2 (- 53) * \<bar>a + c\<bar>"
    using assms(1) c(2) by (rule rne_add_rel_error)
  also have "\<dots> \<le> p2 (- 53) * (\<bar>a\<bar> + 4)" using c(1) by (intro mult_left_mono) auto
  finally show "\<bar>rne (a + c) - a\<bar> \<le> 7 / 2 + p2 (- 53) * (\<bar>a\<bar> + 4)" using c(1) by linarith
qed

lemma reflex_passed:
  assumes "is_repr a" "is_repr r" "\<bar>rne (r - a)\<bar> \<le> 7 / 2"
  shows "\<bar>r - a\<bar> \<le> 7 / 2 + p2 (- 53) * (\<bar>a\<bar> + 4)"
proof -
  define d where "d = r - a"
  have err: "\<bar>rne d - d\<bar> \<le> p2 (- 53) * \<bar>d\<bar>"
    using rne_add_rel_error [of r "- a"] assms(1,2) by (simp add: d_def)
  also have "\<dots> \<le> 1 / 8 * \<bar>d\<bar>" using u_small by (intro mult_right_mono) simp_all
  finally have "\<bar>d\<bar> \<le> 4" using assms(3) unfolding d_def [symmetric] by linarith
  then have "p2 (- 53) * \<bar>d\<bar> \<le> p2 (- 53) * (\<bar>a\<bar> + 4)" by (intro mult_left_mono) auto
  then show ?thesis using err assms(3) unfolding d_def [symmetric] by linarith
qed

lemma reflex_filter_bound:
  assumes "applyLocalReflexFilter n raw = Inr v" and "wf64 (state n)" and "wf64 raw"
  shows "isfinite v" and "\<bar>val v - val (state n)\<bar> \<le> 7 / 2 + p2 (- 53) * (\<bar>val (state n)\<bar> + 4)"
proof -
  obtain a r where a: "state n = Fin a" "is_repr a" "\<bar>a\<bar> < p2 1024"
    and r: "raw = Fin r" "is_repr r"
    using assms by (auto simp: applyLocalReflexFilter_def result_simps isfinite_iff
        ilog2_abs_less_iff simp del: power_int_numeral)
  define delta where "delta = raw - state n"
  have v: "v = (if Fin (7 / 2) < \<bar>delta\<bar>
      then Fin a + (if 0 < delta then Fin (7 / 2) else Fin (- (7 / 2))) else Fin r)"
    using assms(1) unfolding applyLocalReflexFilter_def reflex_step_value delta_def
    by (auto simp: result_simps Let_def a(1) r(1) split: if_splits)
  have "isfinite v \<and> \<bar>val v - a\<bar> \<le> 7 / 2 + p2 (- 53) * (\<bar>a\<bar> + 4)"
  proof (cases "Fin (7 / 2) < \<bar>delta\<bar>")
    case True
    define c where "c = (if 0 < delta then 7 / 2 else - (7 / 2) :: rat)"
    have "v = rnd64 (a + c)" using True by (simp add: v c_def)
    then show ?thesis using reflex_clamped [OF a(2,3), of c] by (auto simp: c_def)
  next
    case False
    have "delta = to_f64 (rne (r - a))" by (simp add: delta_def a r fin_arith rnd64_def)
    with False have "\<bar>rne (r - a)\<bar> \<le> 7 / 2"
      by (auto simp: to_f64_def not_less split: if_splits)
    then show ?thesis using False reflex_passed [OF a(2) r(2)] by (simp add: v)
  qed
  then show "isfinite v" and "\<bar>val v - val (state n)\<bar> \<le> 7 / 2 + p2 (- 53) * (\<bar>val (state n)\<bar> + 4)"
    by (simp_all add: a)
qed

end
