(* ===== verification/Bridge_Dynamics.thy ===== *)
theory Bridge_Dynamics
  imports Primitive_Laws
begin

text \<open>
  Sequences of bridge updates, and the properties of the value types: what an accepted coupling is,
  where repeated signals drive a bridge, and the ranges of geometry, health and reflexes.
\<close>

section \<open>Repeated capacity updates\<close>

definition raise_capacity :: "f64 \<Rightarrow> f64" where
  "raise_capacity c = std_min 1 (c + dec 15 2)"

definition damp_capacity :: "f64 \<Rightarrow> f64" where
  "damp_capacity c = std_max (dec 1 2) (c * dec 85 2)"

definition unit_f64 :: "f64 \<Rightarrow> bool" where
  "unit_f64 c \<longleftrightarrow> 0 \<le> c \<and> c \<le> 1"

lemma unit_f64_finite: "unit_f64 c \<Longrightarrow> isfinite c"
  using unit_finite by (simp add: unit_f64_def)

lemma raise_unit: "unit_f64 c \<Longrightarrow> unit_f64 (raise_capacity c)"
  and damp_unit: "unit_f64 c \<Longrightarrow> unit_f64 (damp_capacity c)"
  using capacity_raised_unit capacity_damped_unit
  by (simp_all add: unit_f64_def raise_capacity_def damp_capacity_def)

text \<open>Away from zero a rounding error is at most a millionth of the value.\<close>

lemma rne_close:
  assumes "1 / 1024 \<le> x"
  shows "rne x \<le> x + x / 1000000" and "x - x / 1000000 \<le> rne x"
proof -
  have n: "p2 (- 1022) \<le> p2 (- 10)" and u: "p2 (- 53) \<le> p2 (- 20)" by (simp_all only: p2_le_iff)
  have v: "p2 (- 10) = 1 / 1024" "p2 (- 20) = 1 / 1048576" by (simp_all add: power_int_minus)
  have "\<bar>rne x - x\<bar> \<le> p2 (- 53) * \<bar>x\<bar>"
    using n assms unfolding v by (intro rne_rel_error_normal) linarith
  also have "\<dots> \<le> 1 / 1000000 * \<bar>x\<bar>" using u unfolding v by (intro mult_right_mono) linarith+
  finally show "rne x \<le> x + x / 1000000" and "x - x / 1000000 \<le> rne x" using assms by linarith+
qed

lemma dec_close:
  assumes "0 \<le> m" "m \<le> 10 ^ k" "q = of_int m / 10 ^ k" "1 / 1024 \<le> q"
  shows "\<exists>d. dec m k = Fin d \<and> is_repr d \<and> q - q / 1000000 \<le> d \<and> d \<le> q + q / 1000000 \<and> d \<le> 1"
proof -
  have "dec m k = Fin (rne q)"
    using dec_unit(3) [OF assms(1,2)] by (auto simp: dec_def rnd64_def to_f64_def assms(3) split: if_splits)
  moreover have "dec m k \<le> 1" using assms by (intro dec_unit)
  ultimately show ?thesis using rne_close [OF assms(4)] by (auto simp: one_f64_def)
qed

lemma unit_Fin: "unit_f64 c \<longleftrightarrow> (\<exists>q. c = Fin q \<and> 0 \<le> q \<and> q \<le> 1)"
  using unit_iff [of c] by (simp add: unit_f64_def)

lemma rnd64_small: "0 \<le> q \<Longrightarrow> q \<le> 2 \<Longrightarrow> rnd64 q = Fin (rne q)"
  using rnd64_int_bounds [of 0 q 2] by (auto simp: rnd64_def to_f64_def split: if_splits)

lemma raise_step:
  assumes "unit_f64 c" "t \<le> val c"
  shows "min 1 (t + 149 / 1000) \<le> val (raise_capacity c)"
proof -
  obtain d where d: "dec 15 2 = Fin d" "1499 / 10000 \<le> d" "d \<le> 1"
    using dec_close [of 15 2 "15 / 100"] by auto
  obtain a where a: "c = Fin a" "0 \<le> a" "a \<le> 1" using assms(1) unit_Fin by blast
  have "a + d - (a + d) / 1000000 \<le> rne (a + d)" using a d by (intro rne_close) linarith
  moreover have "(a + d) / 1000000 \<le> 2 / 1000000" using a d by (intro divide_right_mono) simp_all
  moreover have "t \<le> a" using a assms(2) by simp
  ultimately have "t + 149 / 1000 \<le> rne (a + d)" using d by linarith
  moreover have "rnd64 (a + d) = Fin (rne (a + d))" using a d by (intro rnd64_small) linarith+
  ultimately show ?thesis by (simp add: raise_capacity_def a d fin_arith std_min_def one_f64_def)
qed

lemma raise_funpow:
  assumes "unit_f64 c"
  shows "unit_f64 ((raise_capacity ^^ n) c) \<and>
    min 1 (of_nat n * (149 / 1000)) \<le> val ((raise_capacity ^^ n) c)"
proof (induction n)
  case 0
  then show ?case using assms by (auto simp: unit_Fin)
next
  case (Suc n)
  then have "min 1 (min 1 (of_nat n * (149 / 1000)) + 149 / 1000) \<le> val ((raise_capacity ^^ Suc n) c)"
    using raise_step [of "(raise_capacity ^^ n) c"] by simp
  moreover have "min 1 (of_nat (Suc n) * (149 / 1000)) \<le>
      min 1 (min 1 (of_nat n * (149 / 1000)) + 149 / 1000 :: rat)"
    by (auto simp: min_def algebra_simps)
  ultimately show ?case using Suc raise_unit by (simp del: of_nat_Suc)
qed

text \<open>Damping shrinks a capacity above the floor by more than the factor 0.851.\<close>

lemma damp_step:
  assumes "unit_f64 c" "dec 1 2 = Fin l" "val c \<le> max l t"
  shows "val (damp_capacity c) \<le> max l (t * (851 / 1000))"
proof -
  obtain d where d: "dec 85 2 = Fin d" "0 \<le> d" "d \<le> 8501 / 10000"
    using dec_close [of 85 2 "85 / 100"] by auto
  obtain l' where l': "dec 1 2 = Fin l'" "is_repr l'" "99 / 10000 \<le> l'"
    using dec_close [of 1 2 "1 / 100"] by auto
  then have l: "is_repr l" "99 / 10000 \<le> l" using assms(2) by auto
  obtain a where a: "c = Fin a" "0 \<le> a" "a \<le> 1" using assms(1) unit_Fin by blast
  have ad: "0 \<le> a * d" "a * d \<le> 2" using a d mult_mono [of a 1 d 1] by auto
  have v: "val (damp_capacity c) = max l (rne (a * d))"
    by (simp add: damp_capacity_def a d assms(2) fin_arith rnd64_small [OF ad] std_max_def)
  show ?thesis
  proof (cases "a * d \<le> l")
    case True
    then have "rne (a * d) \<le> l" using l by (intro rne.rnd_le) (simp_all add: is_repr_def)
    then show ?thesis by (simp add: v)
  next
    case False
    have le: "a * d \<le> a * (8501 / 10000)" using a d by (intro mult_left_mono) simp_all
    have "a \<le> t" using assms(3) le False a by (simp add: max_def split: if_splits)
    moreover have "rne (a * d) \<le> a * d + a * d / 1000000" using False l by (intro rne_close) linarith
    ultimately have "rne (a * d) \<le> t * (851 / 1000)" using le a(2) by simp
    then show ?thesis by (simp add: v)
  qed
qed

lemma damp_funpow:
  assumes "unit_f64 c" "dec 1 2 = Fin l"
  shows "unit_f64 ((damp_capacity ^^ n) c) \<and> val ((damp_capacity ^^ n) c) \<le> max l ((851 / 1000) ^ n)"
proof (induction n)
  case 0
  then show ?case using assms(1) by (auto simp: unit_Fin)
next
  case (Suc n)
  then show ?case
    using damp_step [OF _ assms(2), of "(damp_capacity ^^ n) c" "(851 / 1000) ^ n"] damp_unit
    by (simp add: mult.commute)
qed

lemma raise_seven: "unit_f64 c \<Longrightarrow> (raise_capacity ^^ 7) c = 1"
  using raise_funpow [of c 7] by (auto simp: unit_Fin one_f64_def)

lemma damp_ge: "unit_f64 c \<Longrightarrow> dec 1 2 \<le> damp_capacity c"
  using capacity_damped_unit(3) by (simp add: unit_f64_def damp_capacity_def)

lemma damp_many: "unit_f64 c \<Longrightarrow> (damp_capacity ^^ 29) c = dec 1 2"
proof -
  assume c: "unit_f64 c"
  obtain l where l: "dec 1 2 = Fin l" "99 / 10000 \<le> l"
    using dec_close [of 1 2 "1 / 100"] by auto
  have "((851 / 1000) ^ 29 :: rat) \<le> 99 / 10000" by (simp add: power_divide)
  then have le: "val ((damp_capacity ^^ 29) c) \<le> l" using damp_funpow [OF c l(1), of 29] l(2) by auto
  have "dec 1 2 \<le> damp_capacity ((damp_capacity ^^ 28) c)"
    using damp_funpow [OF c l(1), of 28] by (intro damp_ge) simp
  moreover have "damp_capacity ((damp_capacity ^^ 28) c) = (damp_capacity ^^ 29) c"
    using funpow.simps(2) [of 28 damp_capacity] by simp
  moreover have "unit_f64 ((damp_capacity ^^ 29) c)" using damp_funpow [OF c l(1), of 29] by blast
  ultimately show ?thesis using le by (auto simp: unit_Fin l(1))
qed

section \<open>Runs of bridge updates\<close>

lemma update_capacity:
  "capacity (updateBridgeState CREATIVE_SIGNAL b) = raise_capacity (capacity b)"
  "capacity (updateBridgeState NOISE b) = damp_capacity (capacity b)"
  by (simp_all add: raise_capacity_def damp_capacity_def Let_def)

lemma update_capacity_funpow:
  "capacity ((updateBridgeState CREATIVE_SIGNAL ^^ n) b) = (raise_capacity ^^ n) (capacity b)"
  "capacity ((updateBridgeState NOISE ^^ n) b) = (damp_capacity ^^ n) (capacity b)"
  by (induction n) (simp_all add: update_capacity del: updateBridgeState.simps)

lemma updates_keep_ok: "bridge_ok b \<Longrightarrow> bridge_ok (fold updateBridgeState cats b)"
  by (induction cats arbitrary: b) (auto intro: updateBridgeState_bridge_ok simp del: updateBridgeState.simps)

lemma updates_coherent:
  assumes "bridge_ok b" "status_coherent b"
  shows "status_coherent (fold updateBridgeState cats b)"
  using assms
proof (induction cats arbitrary: b)
  case (Cons c cs)
  have "status_coherent (updateBridgeState c b)"
    using Cons.prems by (intro updateBridgeState_status_coherent) (simp_all add: bridge_ok_def)
  then show ?case using Cons.IH updateBridgeState_bridge_ok [OF Cons.prems(1)] by simp
qed simp

section \<open>Properties\<close>

text \<open>
  C22. A coupling is returned exactly for a bridge with a finite non-negative distance and with
  orientation weight and capacity in [0, 1]; it is the attenuated capacity as the code computes it
  in doubles, and it lies in [0, 1] itself. Every other bridge is refused with an exception.
\<close>

theorem coupling_accepts_exactly:
  "getEffectiveCoupling b = Inr c \<longleftrightarrow> bridge_ok b \<and>
     c = capacity b * (1 / (1 + dec 1 1 * distance b)) * orientationWeight b \<and> 0 \<le> c \<and> c \<le> 1"
proof -
  have "0 \<le> capacity b * (1 / (1 + dec 1 1 * distance b)) * orientationWeight b \<and>
      capacity b * (1 / (1 + dec 1 1 * distance b)) * orientationWeight b \<le> 1" if "bridge_ok b"
    using that coupling_value_unit by (simp add: bridge_ok_def)
  then show ?thesis
    using getEffectiveCoupling_eq getEffectiveCoupling_Inr_bridge_ok by fastforce
qed

text \<open>
  C23. Any sequence of signals keeps a valid bridge valid (in particular its capacity in [0, 1]),
  keeps its status in step with its capacity, and never touches its target or geometry.
\<close>

theorem bridge_updates_invariant:
  assumes "bridge_ok b" "status_coherent b"
  shows "bridge_ok (fold updateBridgeState cats b) \<and> status_coherent (fold updateBridgeState cats b) \<and>
    targetNodeId (fold updateBridgeState cats b) = targetNodeId b \<and>
    distance (fold updateBridgeState cats b) = distance b \<and>
    orientationWeight (fold updateBridgeState cats b) = orientationWeight b"
proof -
  have "targetNodeId (fold updateBridgeState cats b) = targetNodeId b \<and>
    distance (fold updateBridgeState cats b) = distance b \<and>
    orientationWeight (fold updateBridgeState cats b) = orientationWeight b"
    by (induction cats arbitrary: b) (simp_all del: updateBridgeState.simps)
  then show ?thesis using updates_keep_ok updates_coherent assms by blast
qed

abbreviation sample_bridge :: spatial_bridge where
  "sample_bridge \<equiv> \<lparr>targetNodeId = 1, distance = dec 20 1, orientationWeight = dec 5 1,
     capacity = 1, status = NORMAL\<rparr>"

lemma sample_bridge_ok: "bridge_ok sample_bridge" "status_coherent sample_bridge"
  by code_simp+

theorem bridge_updates_invariant_witness:
  "bridge_ok (fold updateBridgeState [NOISE, DESTRUCTIVE_DRIFT, CREATIVE_SIGNAL] sample_bridge) \<and>
   status_coherent (fold updateBridgeState [NOISE, DESTRUCTIVE_DRIFT, CREATIVE_SIGNAL] sample_bridge)"
  using bridge_updates_invariant [OF sample_bridge_ok] by blast

text \<open>
  C24. Recovery and decay are complete in bounded time, rounding included: seven constructive signals
  bring any valid bridge, an isolated one too, to full capacity and NORMAL; twenty-nine noise signals
  bring any valid bridge to exactly the floor of 0.01 in DAMPING, and never below.
\<close>

theorem bridge_recovery_and_decay:
  assumes "bridge_ok b"
  shows "capacity ((updateBridgeState CREATIVE_SIGNAL ^^ 7) b) = 1 \<and>
    status ((updateBridgeState CREATIVE_SIGNAL ^^ 7) b) = NORMAL \<and>
    capacity ((updateBridgeState NOISE ^^ 29) b) = dec 1 2 \<and>
    status ((updateBridgeState NOISE ^^ 29) b) = DAMPING"
proof -
  have u: "unit_f64 (capacity b)" using assms by (simp add: bridge_ok_def unit_f64_def)
  have st: "status (updateBridgeState CREATIVE_SIGNAL b') =
      (if dec 9 1 \<le> capacity (updateBridgeState CREATIVE_SIGNAL b') then NORMAL else RECOVERY)" for b'
    by (simp add: Let_def)
  have c7: "capacity ((updateBridgeState CREATIVE_SIGNAL ^^ 7) b) = 1"
    unfolding update_capacity_funpow by (rule raise_seven [OF u])
  have s7: "(updateBridgeState CREATIVE_SIGNAL ^^ 7) b =
      updateBridgeState CREATIVE_SIGNAL ((updateBridgeState CREATIVE_SIGNAL ^^ 6) b)"
    by (simp add: eval_nat_numeral)
  have "dec 9 1 \<le> 1" by (simp add: dec_unit)
  then have "status ((updateBridgeState CREATIVE_SIGNAL ^^ 7) b) = NORMAL"
    using c7 unfolding s7 st by simp
  moreover have "status ((updateBridgeState NOISE ^^ 29) b) = DAMPING"
    by (simp add: eval_nat_numeral)
  moreover have "capacity ((updateBridgeState NOISE ^^ 29) b) = dec 1 2"
    unfolding update_capacity_funpow by (rule damp_many [OF u])
  ultimately show ?thesis using c7 by blast
qed

theorem bridge_recovery_and_decay_witness:
  "capacity ((updateBridgeState CREATIVE_SIGNAL ^^ 7) (updateBridgeState DESTRUCTIVE_DRIFT sample_bridge)) = 1"
  using bridge_recovery_and_decay [OF updateBridgeState_bridge_ok [OF sample_bridge_ok(1)]] by blast

text \<open>
  C25. Whatever finite state a node with a valid invariant is in, \<open>updateHealth\<close> succeeds and leaves
  a health index in [0, 1], also where the drift overflows; an invalid invariant or state is refused.
\<close>

theorem update_health_unit:
  "(updateHealth n = Inr n') =
     (invariant_ok (invariant n) \<and> isfinite (state n) \<and> 0 \<le> healthIndex n' \<and> healthIndex n' \<le> 1 \<and>
      n' = n\<lparr>healthIndex := std_max 0 (1 - \<bar>state n - baseline (invariant n)\<bar> / maxEpsilon (invariant n))\<rparr>)"
  using health_value_unit [of "state n" "baseline (invariant n)" "maxEpsilon (invariant n)"]
  by (auto simp: updateHealth_Inr_iff invariant_ok_def)

text \<open>
  C26. With any \<open>hypot\<close> that meets its contract, distances are symmetric, no distance is negative,
  and both orientation factors of a pair of valid positions lie in [0, 1].
\<close>

theorem geometry_laws:
  assumes "libm_hypot hyp" "vec3_wf p" "vec3_wf q"
    and "distanceTo hyp p q = Inr d" "orientationFactorTo hyp p q = Inr w"
  shows "distanceTo hyp q p = Inr d \<and> 0 \<le> d \<and> 0 \<le> w \<and> w \<le> 1 \<and>
    (\<exists>w'. orientationFactorTo hyp q p = Inr w' \<and> 0 \<le> w' \<and> w' \<le> 1)"
proof -
  have s: "distanceTo hyp q p = Inr d" using assms(1,4) by (rule libm_hypot.distance_sym)
  then obtain w' where w': "orientationFactorTo hyp q p = Inr w'"
    by (cases "d < dec 1 6") (simp_all add: orientationFactorTo_def)
  show ?thesis
    using s w' libm_hypot.distance_bounds(1) [OF assms(1,4,2,3)]
      libm_hypot.orientation_unit [OF assms(1,5,2,3)]
      libm_hypot.orientation_unit [OF assms(1) w' assms(3,2)]
    by blast
qed

theorem geometry_laws_witness:
  "\<exists>w'. orientationFactorTo hypot_cr \<lparr>vx = Fin 3, vy = Fin 4, vz = 0\<rparr>
     \<lparr>vx = 0, vy = 0, vz = 0\<rparr> = Inr w' \<and> 0 \<le> w' \<and> w' \<le> 1"
proof -
  let ?p = "\<lparr>vx = 0, vy = 0, vz = 0\<rparr>" and ?q = "\<lparr>vx = Fin 3, vy = Fin 4, vz = 0\<rparr>"
  have repr: "wf64 (Fin 3)" "wf64 (Fin 4)" "wf64 (Fin 5)"
    using wf64_rnd64 [of 3] wf64_rnd64 [of 4] wf64_rnd64 [of 5] by (simp_all del: wf64_rnd64)
  have h: "hypot_cr (Fin (- 3)) (Fin (- 4)) = Fin 5" "hypot_cr (Fin 5) (Fin 0) = Fin 5"
    by (rule hypot_cr_exact [OF _ repr(3)]; simp)+
  have d: "distanceTo hypot_cr ?p ?q = Inr (Fin 5)"
    by (simp add: distanceTo_Inr_iff vec3_ok_def zero_f64_def fin_arith h del: hypot_cr.simps)
  have small: "\<not> Fin 5 < dec 1 6" using dec_unit [of 1 6] by (auto simp: isfinite_iff one_f64_def)
  have w: "orientationFactorTo hypot_cr ?p ?q = Inr (dec 5 1 * (1 + (0 - 0) / Fin 5))"
    using small by (simp add: orientationFactorTo_def d)
  have wf: "vec3_wf ?p" "vec3_wf ?q" using repr(1,2) by (simp_all add: vec3_wf_def del: wf64_simps(1))
  from geometry_laws [OF hypot_cr.libm_hypot_axioms wf d w] show ?thesis by blast
qed

text \<open>
  C27. One shock moves a node by at most 3.5 up to the rounding of one addition, however large the raw
  input is, and never to a non-finite value.
\<close>

theorem reflex_filter_limits:
  assumes "applyLocalReflexFilter n raw = Inr v" "wf64 (state n)" "wf64 raw"
  shows "isfinite v \<and> \<bar>val v - val (state n)\<bar> \<le> 7 / 2 + p2 (- 53) * (\<bar>val (state n)\<bar> + 4)"
  using reflex_filter_bound [OF assms] by blast

theorem reflex_filter_limits_witness:
  "\<bar>val (dec 35 1) - 0\<bar> \<le> 7 / 2 + p2 (- 53) * (\<bar>0\<bar> + 4)"
proof -
  define n where "n = \<lparr>node_id = 0, position = \<lparr>vx = 0, vy = 0, vz = 0\<rparr>, state = 0, healthIndex = 1,
    invariant = \<lparr>baseline = 0, maxEpsilon = dec 10 0\<rparr>, bridges = []\<rparr>"
  have k: "Fin 1000 - 0 = Fin 1000" "\<bar>Fin 1000\<bar> = Fin 1000" "0 < Fin 1000"
    by (simp_all add: zero_f64_def fin_arith)
  have "rnd64 (7 / 2) = Fin (7 / 2)"
    using reflex_clamped(1) [of 0 "7 / 2"] is_repr_7_2 by (simp add: is_repr_def)
  then have e: "0 + dec 35 1 = dec 35 1" "dec 35 1 < Fin 1000"
    unfolding reflex_step_value by (simp_all add: zero_f64_def)
  have "applyLocalReflexFilter n (Fin 1000) = Inr (dec 35 1)"
    unfolding applyLocalReflexFilter_def n_def node.simps Let_def k
    using e by (simp only: k requireFinite_ok isfinite_simps rbind_simps if_True)
  moreover have "wf64 (Fin 1000)" using wf64_rnd64 [of 1000] by (simp del: wf64_rnd64)
  ultimately show ?thesis using reflex_filter_limits [of n "Fin 1000" "dec 35 1"] by (simp add: n_def)
qed

end
