(* ===== verification/Eligibility.thy ===== *)
theory Eligibility
  imports Soam_Prelude
begin

text \<open>
  The eligibility contract of \<open>include/production_transition_eligibility.hpp\<close>: request bindings,
  the five kinds of prerequisite evidence and the evaluator with its frozen precedence of
  rejection reasons.
\<close>

section \<open>Data\<close>

datatype requested_direction = constrain | support

datatype transition_eligibility = not_eligible | eligible_for_authority_consideration

datatype eligibility_rejection =
    rejection_none
  | invalid_input
  | missing_prerequisite
  | binding_mismatch
  | permission_not_satisfied
  | invariant_not_satisfied
  | resilience_not_satisfied
  | freshness_not_satisfied
  | revalidation_failed

record relationship_identity =
  relSourceNodeId :: nat
  relTargetNodeId :: nat
  generation :: u64

datatype state_version = StateVersion (opaqueVersion: u64)

datatype transition_class_id = TransitionClassId (opaqueClassId: u64)

record request_binding =
  relationship :: relationship_identity
  direction :: requested_direction
  transitionClass :: transition_class_id
  stateVersion :: state_version

record permission_evidence =
  permission_context :: request_binding
  permission_satisfied :: bool

record invariant_evidence =
  invariant_context :: request_binding
  invariant_satisfied :: bool

record resilience_evidence =
  resilience_context :: request_binding
  resilience_satisfied :: bool

record freshness_evidence =
  freshness_context :: request_binding
  freshness_satisfied :: bool

record revalidation_evidence =
  revalidation_context :: request_binding
  revalidation_satisfied :: bool

record prerequisite_set =
  pre_permission :: "permission_evidence option"
  pre_invariant :: "invariant_evidence option"
  pre_resilience :: "resilience_evidence option"
  pre_freshness :: "freshness_evidence option"
  pre_revalidation :: "revalidation_evidence option"

record eligibility_decision =
  eligibility :: transition_eligibility
  rejectionReason :: eligibility_rejection
  binding :: request_binding

section \<open>The evaluator\<close>

abbreviation rejected :: "eligibility_rejection \<Rightarrow> request_binding \<Rightarrow> eligibility_decision" where
  "rejected r request \<equiv> \<lparr>eligibility = not_eligible, rejectionReason = r, binding = request\<rparr>"

definition eligibility_evaluate :: "request_binding \<Rightarrow> prerequisite_set \<Rightarrow> eligibility_decision" where
  "eligibility_evaluate request pre =
     (case (pre_permission pre, pre_invariant pre, pre_resilience pre, pre_freshness pre,
            pre_revalidation pre) of
       (Some p, Some i, Some r, Some f, Some v) \<Rightarrow>
         if permission_context p \<noteq> request \<or> invariant_context i \<noteq> request \<or>
            resilience_context r \<noteq> request \<or> freshness_context f \<noteq> request \<or>
            revalidation_context v \<noteq> request
         then rejected binding_mismatch request
         else if \<not> permission_satisfied p then rejected permission_not_satisfied request
         else if \<not> invariant_satisfied i then rejected invariant_not_satisfied request
         else if \<not> resilience_satisfied r then rejected resilience_not_satisfied request
         else if \<not> freshness_satisfied f then rejected freshness_not_satisfied request
         else if \<not> revalidation_satisfied v then rejected revalidation_failed request
         else \<lparr>eligibility = eligible_for_authority_consideration,
               rejectionReason = rejection_none, binding = request\<rparr>
     | _ \<Rightarrow> rejected missing_prerequisite request)"

section \<open>The precedence as a specification\<close>

text \<open>
  The documented order of the checks, as a list of conditions with the reason each one gives when
  it is the first to fail. A condition on evidence that is absent counts as met: the first entry
  has already reported the absence.
\<close>

definition met :: "('a \<Rightarrow> bool) \<Rightarrow> 'a option \<Rightarrow> bool" where
  "met P x = (case x of None \<Rightarrow> True | Some a \<Rightarrow> P a)"

definition precedence ::
  "request_binding \<Rightarrow> prerequisite_set \<Rightarrow> (bool \<times> eligibility_rejection) list" where
  "precedence request pre =
    [(pre_permission pre \<noteq> None \<and> pre_invariant pre \<noteq> None \<and> pre_resilience pre \<noteq> None \<and>
      pre_freshness pre \<noteq> None \<and> pre_revalidation pre \<noteq> None, missing_prerequisite),
     (met (\<lambda>p. permission_context p = request) (pre_permission pre) \<and>
      met (\<lambda>i. invariant_context i = request) (pre_invariant pre) \<and>
      met (\<lambda>r. resilience_context r = request) (pre_resilience pre) \<and>
      met (\<lambda>f. freshness_context f = request) (pre_freshness pre) \<and>
      met (\<lambda>v. revalidation_context v = request) (pre_revalidation pre), binding_mismatch),
     (met permission_satisfied (pre_permission pre), permission_not_satisfied),
     (met invariant_satisfied (pre_invariant pre), invariant_not_satisfied),
     (met resilience_satisfied (pre_resilience pre), resilience_not_satisfied),
     (met freshness_satisfied (pre_freshness pre), freshness_not_satisfied),
     (met revalidation_satisfied (pre_revalidation pre), revalidation_failed)]"

fun first_failure :: "(bool \<times> 'r) list \<Rightarrow> 'r option" where
  "first_failure [] = None"
| "first_failure ((ok, r) # cs) = (if ok then first_failure cs else Some r)"

lemma met_simps [simp]: "met P None" "met P (Some a) = P a"
  by (simp_all add: met_def)

lemma eligibility_evaluate_precedence:
  "eligibility_evaluate request pre =
     (case first_failure (precedence request pre) of
        None \<Rightarrow> \<lparr>eligibility = eligible_for_authority_consideration,
                 rejectionReason = rejection_none, binding = request\<rparr>
      | Some r \<Rightarrow> rejected r request)"
  by (cases "pre_permission pre"; cases "pre_invariant pre"; cases "pre_resilience pre";
      cases "pre_freshness pre"; cases "pre_revalidation pre")
    (simp_all add: eligibility_evaluate_def precedence_def)

lemma eligibility_evaluate_eligible_iff:
  "eligibility (eligibility_evaluate request pre) = eligible_for_authority_consideration \<longleftrightarrow>
     (\<exists>p i r f v. pre_permission pre = Some p \<and> pre_invariant pre = Some i \<and>
        pre_resilience pre = Some r \<and> pre_freshness pre = Some f \<and> pre_revalidation pre = Some v \<and>
        permission_context p = request \<and> invariant_context i = request \<and>
        resilience_context r = request \<and> freshness_context f = request \<and>
        revalidation_context v = request \<and>
        permission_satisfied p \<and> invariant_satisfied i \<and> resilience_satisfied r \<and>
        freshness_satisfied f \<and> revalidation_satisfied v)"
  by (cases "pre_permission pre"; cases "pre_invariant pre"; cases "pre_resilience pre";
      cases "pre_freshness pre"; cases "pre_revalidation pre")
    (auto simp: eligibility_evaluate_def)

lemma eligibility_evaluate_binding [simp]: "binding (eligibility_evaluate request pre) = request"
  by (simp add: eligibility_evaluate_precedence split: option.split)

text \<open>Evidence built for the request itself: only its satisfied flags matter.\<close>

definition bound_prerequisites ::
  "request_binding \<Rightarrow> bool \<Rightarrow> bool \<Rightarrow> bool \<Rightarrow> bool \<Rightarrow> bool \<Rightarrow> prerequisite_set" where
  "bound_prerequisites request p i r f v =
    \<lparr>pre_permission = Some \<lparr>permission_context = request, permission_satisfied = p\<rparr>,
     pre_invariant = Some \<lparr>invariant_context = request, invariant_satisfied = i\<rparr>,
     pre_resilience = Some \<lparr>resilience_context = request, resilience_satisfied = r\<rparr>,
     pre_freshness = Some \<lparr>freshness_context = request, freshness_satisfied = f\<rparr>,
     pre_revalidation = Some \<lparr>revalidation_context = request, revalidation_satisfied = v\<rparr>\<rparr>"

lemma eligibility_evaluate_bound:
  "eligibility (eligibility_evaluate request (bound_prerequisites request p i r f v))
     = eligible_for_authority_consideration \<longleftrightarrow> p \<and> i \<and> r \<and> f \<and> v"
  by (simp add: eligibility_evaluate_eligible_iff bound_prerequisites_def)

section \<open>Properties\<close>

text \<open>
  C31. A request is eligible exactly when all five kinds of evidence are present, all five are bound
  to this very request, and all five are satisfied. The decision always carries the request itself.
\<close>

theorem eligible_exactly:
  "eligibility (eligibility_evaluate request pre) = eligible_for_authority_consideration \<longleftrightarrow>
     (\<exists>p i r f v. pre_permission pre = Some p \<and> pre_invariant pre = Some i \<and>
        pre_resilience pre = Some r \<and> pre_freshness pre = Some f \<and> pre_revalidation pre = Some v \<and>
        permission_context p = request \<and> invariant_context i = request \<and>
        resilience_context r = request \<and> freshness_context f = request \<and>
        revalidation_context v = request \<and>
        permission_satisfied p \<and> invariant_satisfied i \<and> resilience_satisfied r \<and>
        freshness_satisfied f \<and> revalidation_satisfied v)"
  by (rule eligibility_evaluate_eligible_iff)

text \<open>
  C32. The rejection reason is that of the first condition to fail in the frozen order: presence,
  binding, permission, invariant, resilience, freshness, revalidation.
\<close>

theorem rejection_precedence:
  "eligibility_evaluate request pre =
     (case first_failure (precedence request pre) of
        None \<Rightarrow> \<lparr>eligibility = eligible_for_authority_consideration,
                 rejectionReason = rejection_none, binding = request\<rparr>
      | Some r \<Rightarrow> rejected r request)"
  by (rule eligibility_evaluate_precedence)

end
