(* ===== verification/Bridge_Policy.thy ===== *)
theory Bridge_Policy
  imports Primitive_Laws
begin

text \<open>
  The domain layer of \<open>include/\<close>: observations and confidences (\<open>interaction_observation.hpp\<close>,
  \<open>bridge_confidence.hpp\<close>), the evidence policy (\<open>adaptive_bridge_policy.hpp\<close>), the persistence
  gate (\<open>bridge_persistence.hpp\<close>), the authorization policy
  (\<open>bridge_transition_authorization.hpp\<close>), and the experimental controller that chains them
  (\<open>experiments/shadow_adaptive/shadow_adaptive_controller.*\<close>).
\<close>

section \<open>Observations, confidences and evidence\<close>

record interaction_observation =
  compatibility :: f64

record bridge_confidence =
  confidence :: f64

record bridge_policy_evidence =
  evidence :: f64

definition mk_InteractionObservation :: "f64 \<Rightarrow> interaction_observation result" where
  "mk_InteractionObservation c =
     rbind (guard_that (isfinite c)
       (Invalid_argument ''interaction observation compatibility must be finite'')) (\<lambda>_.
     rbind (guard_that (\<not> (c < 0 \<or> 1 < c))
       (Invalid_argument ''interaction observation compatibility must be in [0, 1]'')) (\<lambda>_.
     Inr \<lparr>compatibility = c\<rparr>))"

definition mk_BridgeConfidence :: "f64 \<Rightarrow> bridge_confidence result" where
  "mk_BridgeConfidence q =
     rbind (guard_that (isfinite q)
       (Invalid_argument ''bridge confidence must be finite'')) (\<lambda>_.
     rbind (guard_that (\<not> (q < 0 \<or> 1 < q))
       (Invalid_argument ''bridge confidence must be in [0, 1]'')) (\<lambda>_.
     Inr \<lparr>confidence = q\<rparr>))"

definition policy_evaluate ::
  "interaction_observation \<Rightarrow> bridge_confidence \<Rightarrow> bridge_policy_evidence" where
  "policy_evaluate obs conf =
     (let signedObservation = (dec 20 1 * compatibility obs) - 1
      in \<lparr>evidence = signedObservation * confidence conf\<rparr>)"

section \<open>The persistence gate\<close>

datatype persistent_recommendation = R_PRESERVE | R_CONSTRAIN | R_SUPPORT

datatype pending_direction = P_NONE | P_CONSTRAIN | P_SUPPORT | P_PRESERVE

record bridge_persistence =
  activationThreshold :: f64
  releaseThreshold :: f64
  activationSamples :: u64
  releaseSamples :: u64
  consecutiveSamples :: u64
  recommendation :: persistent_recommendation
  pendingDirection :: pending_direction

definition mk_BridgePersistence ::
  "f64 \<Rightarrow> f64 \<Rightarrow> u64 \<Rightarrow> u64 \<Rightarrow> bridge_persistence result" where
  "mk_BridgePersistence a r m n =
     rbind (guard_that (\<not> (\<not> isfinite a \<or> \<not> isfinite r \<or> r < 0 \<or> 1 < a \<or> a \<le> r))
       (Invalid_argument ''bridge persistence thresholds must satisfy 0 <= R < A <= 1'')) (\<lambda>_.
     rbind (guard_that (\<not> (m < 2 \<or> n < 2))
       (Invalid_argument ''bridge persistence sample requirements must be at least 2'')) (\<lambda>_.
     Inr \<lparr>activationThreshold = a, releaseThreshold = r, activationSamples = m,
          releaseSamples = n, consecutiveSamples = 0, recommendation = R_PRESERVE,
          pendingDirection = P_NONE\<rparr>))"

definition clearPending :: "bridge_persistence \<Rightarrow> bridge_persistence" where
  "clearPending p = p\<lparr>pendingDirection := P_NONE, consecutiveSamples := 0\<rparr>"

definition advancePending ::
  "pending_direction \<Rightarrow> u64 \<Rightarrow> bridge_persistence \<Rightarrow> bridge_persistence" where
  "advancePending direction limit p =
     (if pendingDirection p \<noteq> direction
      then p\<lparr>pendingDirection := direction, consecutiveSamples := 1\<rparr>
      else if consecutiveSamples p < limit
      then p\<lparr>consecutiveSamples := consecutiveSamples p + 1\<rparr>
      else p)"

definition observe ::
  "bridge_policy_evidence \<Rightarrow> bridge_persistence \<Rightarrow> persistent_recommendation \<times> bridge_persistence"
where
  "observe e p =
     (let v = evidence e in
      if recommendation p = R_PRESERVE then
        if \<bar>v\<bar> < activationThreshold p then
          let p1 = clearPending p in (recommendation p1, p1)
        else
          let direction = (if v < 0 then P_CONSTRAIN else P_SUPPORT);
              p1 = advancePending direction (activationSamples p) p;
              p2 = (if consecutiveSamples p1 = activationSamples p1
                    then clearPending (p1\<lparr>recommendation :=
                      (if direction = P_CONSTRAIN then R_CONSTRAIN else R_SUPPORT)\<rparr>)
                    else p1)
          in (recommendation p2, p2)
      else
        let releasePending = (if recommendation p = R_SUPPORT
              then v \<le> releaseThreshold p else - releaseThreshold p \<le> v)
        in if \<not> releasePending then
             let p1 = clearPending p in (recommendation p1, p1)
           else
             let p1 = advancePending P_PRESERVE (releaseSamples p) p;
                 p2 = (if consecutiveSamples p1 = releaseSamples p1
                       then clearPending (p1\<lparr>recommendation := R_PRESERVE\<rparr>)
                       else p1)
             in (recommendation p2, p2))"

definition persistence_reset :: "bridge_persistence \<Rightarrow> bridge_persistence" where
  "persistence_reset p = clearPending (p\<lparr>recommendation := R_PRESERVE\<rparr>)"

text \<open>The defaulted \<open>operator==\<close> of \<open>CompleteState\<close>: memberwise, doubles by \<open>==\<close>.\<close>

definition complete_state_eq :: "bridge_persistence \<Rightarrow> bridge_persistence \<Rightarrow> bool" where
  "complete_state_eq p q \<longleftrightarrow>
     feq (activationThreshold p) (activationThreshold q) \<and>
     feq (releaseThreshold p) (releaseThreshold q) \<and>
     activationSamples p = activationSamples q \<and> releaseSamples p = releaseSamples q \<and>
     consecutiveSamples p = consecutiveSamples q \<and> recommendation p = recommendation q \<and>
     pendingDirection p = pendingDirection q"

section \<open>Authorization\<close>

record bridge_transition_permissions =
  constrainAllowed :: bool
  supportAllowed :: bool

datatype bridge_transition_intent = I_PRESERVE | I_CONSTRAIN | I_SUPPORT

fun authorization_evaluate ::
  "persistent_recommendation \<Rightarrow> bridge_transition_permissions \<Rightarrow> bridge_transition_intent"
where
  "authorization_evaluate R_CONSTRAIN perms = (if constrainAllowed perms then I_CONSTRAIN else I_PRESERVE)"
| "authorization_evaluate R_SUPPORT perms = (if supportAllowed perms then I_SUPPORT else I_PRESERVE)"
| "authorization_evaluate R_PRESERVE perms = I_PRESERVE"

section \<open>The shadow controller\<close>

datatype shadow_disposition = D_preserve | D_constrain | D_support

record shadow_input =
  in_source :: nat
  in_target :: nat
  in_observation :: interaction_observation
  in_confidence :: bridge_confidence
  in_permissions :: bridge_transition_permissions

record shadow_decision =
  out_source :: nat
  out_target :: nat
  disposition :: shadow_disposition
  observationValue :: f64
  confidenceValue :: f64
  evidenceValue :: f64

fun toShadowDisposition :: "bridge_transition_intent \<Rightarrow> shadow_disposition" where
  "toShadowDisposition I_CONSTRAIN = D_constrain"
| "toShadowDisposition I_SUPPORT = D_support"
| "toShadowDisposition I_PRESERVE = D_preserve"

definition shadow_evaluate ::
  "shadow_input \<Rightarrow> bridge_persistence \<Rightarrow> shadow_decision \<times> bridge_persistence" where
  "shadow_evaluate inp p =
     (let e = policy_evaluate (in_observation inp) (in_confidence inp);
          (r, p') = observe e p;
          intent = authorization_evaluate r (in_permissions inp)
      in (\<lparr>out_source = in_source inp, out_target = in_target inp,
           disposition = toShadowDisposition intent,
           observationValue = compatibility (in_observation inp),
           confidenceValue = confidence (in_confidence inp),
           evidenceValue = evidence e\<rparr>, p'))"

fun shadow_run ::
  "shadow_input list \<Rightarrow> bridge_persistence \<Rightarrow> shadow_decision list \<times> bridge_persistence" where
  "shadow_run [] p = ([], p)"
| "shadow_run (x # xs) p =
     (let (d, p1) = shadow_evaluate x p; (ds, p2) = shadow_run xs p1 in (d # ds, p2))"

definition mk_ShadowAdaptiveController ::
  "f64 \<Rightarrow> f64 \<Rightarrow> u64 \<Rightarrow> u64 \<Rightarrow> bridge_persistence result" where
  "mk_ShadowAdaptiveController a r m n = mk_BridgePersistence a r m n"

definition shadow_reset :: "bridge_persistence \<Rightarrow> bridge_persistence" where
  "shadow_reset p = persistence_reset p"

section \<open>Laws of the evidence policy\<close>

lemma mk_InteractionObservation_iff:
  "mk_InteractionObservation c = Inr ob \<longleftrightarrow> 0 \<le> c \<and> c \<le> 1 \<and> ob = \<lparr>compatibility = c\<rparr>"
  using f64_range_iff(1) [of c] unit_finite [of c]
  by (auto simp: mk_InteractionObservation_def result_simps)

lemma mk_BridgeConfidence_iff:
  "mk_BridgeConfidence q = Inr co \<longleftrightarrow> 0 \<le> q \<and> q \<le> 1 \<and> co = \<lparr>confidence = q\<rparr>"
  using f64_range_iff(1) [of q] unit_finite [of q]
  by (auto simp: mk_BridgeConfidence_def result_simps)

lemma dec_20_1: "dec 20 1 = Fin 2"
  by code_simp

lemma rnd64_fin_between:
  assumes "of_int l \<le> q" "q \<le> of_int u" "\<bar>l\<bar> < 2 ^ 53" "\<bar>u\<bar> < 2 ^ 53"
  obtains "rnd64 q = Fin (rne q)" "of_int l \<le> rne q" "rne q \<le> of_int u"
proof -
  obtain r where r: "rnd64 q = Fin r" "of_int l \<le> r" "r \<le> of_int u"
    using rnd64_int_bounds [OF assms] by blast
  then have "r = rne q" by (auto simp: rnd64_def to_f64_def split: if_splits)
  with r show thesis using that by simp
qed

lemma signed_observation:
  assumes "0 \<le> c" "c \<le> 1"
  obtains s where "dec 20 1 * c - 1 = Fin s" "- 1 \<le> s" "s \<le> 1"
    "val c \<le> 1 / 2 \<Longrightarrow> s \<le> 0" "1 / 2 \<le> val c \<Longrightarrow> 0 \<le> s"
proof -
  obtain k where k: "c = Fin k" "0 \<le> k" "k \<le> 1" using assms unit_iff by blast
  obtain a where a: "rnd64 (2 * k) = Fin (rne (2 * k))" "0 \<le> rne (2 * k)" "rne (2 * k) \<le> 2"
    using rnd64_fin_between [of 0 "2 * k" 2] k by auto
  obtain b where b: "rnd64 (rne (2 * k) - 1) = Fin (rne (rne (2 * k) - 1))"
    "- 1 \<le> rne (rne (2 * k) - 1)" "rne (rne (2 * k) - 1) \<le> 1"
    using rnd64_fin_between [of "- 1" "rne (2 * k) - 1" 1] a by auto
  have one: "rne 1 = 1" using is_repr_1 by (simp add: is_repr_def)
  show thesis
  proof (rule that)
    show "dec 20 1 * c - 1 = Fin (rne (rne (2 * k) - 1))"
      unfolding dec_20_1 k(1) one_f64_def by (simp add: fin_arith a b)
    show "- 1 \<le> rne (rne (2 * k) - 1)" "rne (rne (2 * k) - 1) \<le> 1" using b by auto
    show "rne (rne (2 * k) - 1) \<le> 0" if "val c \<le> 1 / 2"
    proof -
      have "rne (2 * k) \<le> 1" using that k one by (intro rne.rnd_le) simp_all
      then show ?thesis by (intro rne.rnd_nonpos) simp
    qed
    show "0 \<le> rne (rne (2 * k) - 1)" if "1 / 2 \<le> val c"
    proof -
      have "1 \<le> rne (2 * k)" using that k one by (intro rne.rnd_ge) simp_all
      then show ?thesis by (intro rne.rnd_nonneg) simp
    qed
  qed
qed

lemma evidence_value:
  assumes "0 \<le> c" "c \<le> 1" "0 \<le> q" "q \<le> 1"
  obtains e where "(dec 20 1 * c - 1) * q = Fin e" "- 1 \<le> e" "e \<le> 1"
    "val c \<le> 1 / 2 \<Longrightarrow> e \<le> 0" "1 / 2 \<le> val c \<Longrightarrow> 0 \<le> e" "val q = 0 \<Longrightarrow> e = 0"
proof -
  obtain s where s: "dec 20 1 * c - 1 = Fin s" "- 1 \<le> s" "s \<le> 1"
    "val c \<le> 1 / 2 \<Longrightarrow> s \<le> 0" "1 / 2 \<le> val c \<Longrightarrow> 0 \<le> s"
    using signed_observation [OF assms(1,2)] by blast
  obtain t where t: "q = Fin t" "0 \<le> t" "t \<le> 1" using assms unit_iff by blast
  have "\<bar>s * t\<bar> \<le> 1" using s t by (simp add: abs_mult mult_le_one)
  then have "of_int (- 1) \<le> s * t" "s * t \<le> of_int 1" by (simp_all add: abs_le_iff)
  then obtain r where r: "rnd64 (s * t) = Fin (rne (s * t))" "- 1 \<le> rne (s * t)" "rne (s * t) \<le> 1"
    using rnd64_fin_between [of "- 1" "s * t" 1] by auto
  show thesis
  proof (rule that)
    show "(dec 20 1 * c - 1) * q = Fin (rne (s * t))" unfolding s(1) t(1) by (simp add: r)
    show "rne (s * t) \<le> 0" if "val c \<le> 1 / 2"
      using s(4) [OF that] t by (intro rne.rnd_nonpos) (simp add: mult_nonpos_nonneg)
    show "0 \<le> rne (s * t)" if "1 / 2 \<le> val c"
      using s(5) [OF that] t by (intro rne.rnd_nonneg) simp
    show "rne (s * t) = 0" if "val q = 0" using that t by simp
  qed (use r in auto)
qed

section \<open>Properties\<close>

text \<open>
  C28. For every observation and confidence that their constructors accept, the evidence is a finite
  double in [-1, 1] whose sign is sound: compatibilities up to one half never speak for support,
  those from one half on never for constraint, and no confidence means no evidence.
\<close>

theorem evidence_signed_unit:
  assumes "mk_InteractionObservation c = Inr ob" and "mk_BridgeConfidence q = Inr co"
  shows "\<exists>e. evidence (policy_evaluate ob co) = Fin e \<and> - 1 \<le> e \<and> e \<le> 1 \<and>
    (val c \<le> 1 / 2 \<longrightarrow> e \<le> 0) \<and> (1 / 2 \<le> val c \<longrightarrow> 0 \<le> e) \<and> (val q = 0 \<longrightarrow> e = 0)"
proof -
  have c: "0 \<le> c" "c \<le> 1" "ob = \<lparr>compatibility = c\<rparr>" and q: "0 \<le> q" "q \<le> 1" "co = \<lparr>confidence = q\<rparr>"
    using assms unfolding mk_InteractionObservation_iff mk_BridgeConfidence_iff by auto
  obtain e where "(dec 20 1 * c - 1) * q = Fin e" "- 1 \<le> e" "e \<le> 1"
    "val c \<le> 1 / 2 \<Longrightarrow> e \<le> 0" "1 / 2 \<le> val c \<Longrightarrow> 0 \<le> e" "val q = 0 \<Longrightarrow> e = 0"
    using evidence_value [OF c(1,2) q(1,2)] by blast
  then show ?thesis by (intro exI [of _ e]) (auto simp: policy_evaluate_def c(3) q(3))
qed

theorem evidence_signed_unit_witness:
  "\<exists>e. evidence (policy_evaluate \<lparr>compatibility = 1\<rparr> \<lparr>confidence = 1\<rparr>) = Fin e \<and> 0 \<le> e \<and> e \<le> 1"
proof -
  have "mk_InteractionObservation 1 = Inr \<lparr>compatibility = 1\<rparr>" "mk_BridgeConfidence 1 = Inr \<lparr>confidence = 1\<rparr>"
    by (simp_all add: mk_InteractionObservation_iff mk_BridgeConfidence_iff)
  from evidence_signed_unit [OF this] show ?thesis by (simp; blast)
qed

end
