(* ===== verification/Persistence_Laws.thy ===== *)
theory Persistence_Laws
  imports Bridge_Policy
begin

text \<open>
  The persistence gate of \<open>Bridge_Policy\<close>: its state invariant, the specification it implements
  (a recommendation changes exactly when enough of the most recent samples agree), and the
  interface \<open>recommendation_gate\<close> through which the controller uses it.
\<close>

section \<open>The state invariant\<close>

definition thresholds_ok :: "bridge_persistence \<Rightarrow> bool" where
  "thresholds_ok p \<longleftrightarrow> isfinite (activationThreshold p) \<and> isfinite (releaseThreshold p) \<and>
     0 \<le> releaseThreshold p \<and> releaseThreshold p < activationThreshold p \<and>
     activationThreshold p \<le> 1 \<and> 2 \<le> activationSamples p \<and> 2 \<le> releaseSamples p"

definition persistence_inv :: "bridge_persistence \<Rightarrow> bool" where
  "persistence_inv p \<longleftrightarrow> thresholds_ok p \<and>
     (pendingDirection p = P_NONE \<longleftrightarrow> consecutiveSamples p = 0) \<and>
     (if recommendation p = R_PRESERVE
      then pendingDirection p \<noteq> P_PRESERVE \<and> consecutiveSamples p < activationSamples p
      else pendingDirection p \<in> {P_NONE, P_PRESERVE} \<and> consecutiveSamples p < releaseSamples p)"

lemma mk_BridgePersistence_inv: "mk_BridgePersistence a r m n = Inr p \<Longrightarrow> persistence_inv p"
proof -
  assume "mk_BridgePersistence a r m n = Inr p"
  then have c: "isfinite a" "isfinite r" "\<not> r < 0" "\<not> 1 < a" "\<not> a \<le> r" "\<not> m < 2" "\<not> n < 2"
    and p: "p = \<lparr>activationThreshold = a, releaseThreshold = r, activationSamples = m,
      releaseSamples = n, consecutiveSamples = 0, recommendation = R_PRESERVE,
      pendingDirection = P_NONE\<rparr>"
    by (auto simp: mk_BridgePersistence_def result_simps)
  have "0 < m" using c(6) by (auto simp: word_less_nat_alt not_less unat_gt_0)
  with c show ?thesis
    by (auto simp: p persistence_inv_def thresholds_ok_def isfinite_iff zero_f64_def one_f64_def
        not_less)
qed

lemma next_sample:
  fixes c m :: u64
  assumes "c < m" "c + 1 \<noteq> m"
  shows "c + 1 < m" and "c + 1 \<noteq> 0" and "unat (c + 1) = Suc (unat c)"
proof -
  show u: "unat (c + 1) = Suc (unat c)" using assms(1) by (rule unat_Suc_less)
  show "c + 1 < m" using assms u by (simp add: word_less_nat_alt word_unat_eq_iff)
  show "c + 1 \<noteq> 0" using u by (metis Zero_not_Suc unat_0)
qed

lemma samples_at_least_two:
  fixes m :: u64
  assumes "2 \<le> m"
  shows "1 \<noteq> m" "1 < m" "0 < m"
  using assms by (auto simp: word_less_nat_alt word_le_nat_alt)

text \<open>One observation, with the counter arithmetic done: it clears, counts, or fires.\<close>

definition bumped :: "pending_direction \<Rightarrow> bridge_persistence \<Rightarrow> u64" where
  "bumped d p = (if pendingDirection p = d then consecutiveSamples p + 1 else 1)"

definition sample_limit :: "bridge_persistence \<Rightarrow> u64" where
  "sample_limit p =
     (if recommendation p = R_PRESERVE then activationSamples p else releaseSamples p)"

definition qualifies :: "bridge_persistence \<Rightarrow> f64 \<Rightarrow> pending_direction \<Rightarrow> bool" where
  "qualifies p v d = (case recommendation p of
      R_PRESERVE \<Rightarrow> \<not> \<bar>v\<bar> < activationThreshold p \<and> d = (if v < 0 then P_CONSTRAIN else P_SUPPORT)
    | R_SUPPORT \<Rightarrow> v \<le> releaseThreshold p \<and> d = P_PRESERVE
    | R_CONSTRAIN \<Rightarrow> - releaseThreshold p \<le> v \<and> d = P_PRESERVE)"

fun fired :: "pending_direction \<Rightarrow> persistent_recommendation" where
  "fired P_CONSTRAIN = R_CONSTRAIN"
| "fired P_SUPPORT = R_SUPPORT"
| "fired _ = R_PRESERVE"

lemma advancePending_eq:
  assumes "consecutiveSamples p < l"
  shows "advancePending d l p = p\<lparr>pendingDirection := d, consecutiveSamples := bumped d p\<rparr>"
  using assms by (simp add: advancePending_def bumped_def)

lemma inv_consecutive:
  assumes "persistence_inv p"
  shows "consecutiveSamples p < sample_limit p" "2 \<le> sample_limit p"
  using assms by (auto simp: persistence_inv_def sample_limit_def thresholds_ok_def)

lemma observe_preserve_eq:
  assumes "recommendation p = R_PRESERVE" "consecutiveSamples p < activationSamples p"
  shows "observe e p =
    (if \<bar>evidence e\<bar> < activationThreshold p then (R_PRESERVE, clearPending p)
     else let d = (if evidence e < 0 then P_CONSTRAIN else P_SUPPORT) in
       if bumped d p = activationSamples p
       then (fired d, clearPending (p\<lparr>recommendation := fired d\<rparr>))
       else (R_PRESERVE, p\<lparr>pendingDirection := d, consecutiveSamples := bumped d p\<rparr>))"
  using assms by (simp add: observe_def advancePending_eq clearPending_def Let_def)

lemma observe_held_eq:
  assumes "recommendation p \<noteq> R_PRESERVE" "consecutiveSamples p < releaseSamples p"
  shows "observe e p =
    (if \<not> (if recommendation p = R_SUPPORT then evidence e \<le> releaseThreshold p
           else - releaseThreshold p \<le> evidence e)
     then (recommendation p, clearPending p)
     else if bumped P_PRESERVE p = releaseSamples p
       then (R_PRESERVE, clearPending (p\<lparr>recommendation := R_PRESERVE\<rparr>))
       else (recommendation p, p\<lparr>pendingDirection := P_PRESERVE, consecutiveSamples := bumped P_PRESERVE p\<rparr>))"
  using assms by (simp add: observe_def advancePending_eq clearPending_def Let_def)

lemma observe_cases:
  assumes "persistence_inv p" and "observe e p = (r, p')"
  obtains (clear) "r = recommendation p" "p' = clearPending p" "\<And>d. \<not> qualifies p (evidence e) d"
  | (count) d where "r = recommendation p" "qualifies p (evidence e) d"
      "p' = p\<lparr>pendingDirection := d, consecutiveSamples := bumped d p\<rparr>" "bumped d p \<noteq> sample_limit p"
  | (fire) d where "r = fired d" "qualifies p (evidence e) d"
      "p' = clearPending (p\<lparr>recommendation := fired d\<rparr>)" "bumped d p = sample_limit p"
proof (cases "recommendation p = R_PRESERVE")
  case True
  have "consecutiveSamples p < activationSamples p"
    using inv_consecutive(1) [OF assms(1)] True by (simp add: sample_limit_def)
  note eq = observe_preserve_eq [OF True this, of e]
  show thesis using assms(2) True that unfolding eq
    by (simp add: qualifies_def sample_limit_def Let_def split: if_split_asm)
next
  case False
  have "consecutiveSamples p < releaseSamples p"
    using inv_consecutive(1) [OF assms(1)] False by (simp add: sample_limit_def)
  note eq = observe_held_eq [OF False this, of e]
  show thesis
  proof (cases "recommendation p")
    case R_SUPPORT
    then show ?thesis using assms(2) that unfolding eq
      by (simp add: qualifies_def sample_limit_def split: if_split_asm)
  next
    case R_CONSTRAIN
    then show ?thesis using assms(2) that unfolding eq
      by (simp add: qualifies_def sample_limit_def split: if_split_asm)
  qed (use False in simp)
qed

lemma qualifies_direction:
  "qualifies p v d \<Longrightarrow> d \<noteq> P_NONE \<and> (if recommendation p = R_PRESERVE then d \<noteq> P_PRESERVE else d = P_PRESERVE)"
  by (auto simp: qualifies_def split: persistent_recommendation.splits if_splits)

lemma bumped_bounds:
  assumes "persistence_inv p" "bumped d p \<noteq> sample_limit p"
  shows "bumped d p < sample_limit p" "bumped d p \<noteq> 0"
proof -
  note c = inv_consecutive [OF assms(1)]
  note two = samples_at_least_two [OF c(2)]
  have "bumped d p < sample_limit p \<and> bumped d p \<noteq> 0"
    using next_sample [OF c(1)] two assms(2) by (auto simp: bumped_def)
  then show "bumped d p < sample_limit p" "bumped d p \<noteq> 0" by auto
qed

lemma observe_frame:
  assumes "persistence_inv p" and "observe e p = (r, p')"
  shows "activationThreshold p' = activationThreshold p" "releaseThreshold p' = releaseThreshold p"
    "activationSamples p' = activationSamples p" "releaseSamples p' = releaseSamples p"
    "recommendation p' = r"
  using assms by (cases rule: observe_cases; simp add: clearPending_def)+

lemma thresholds_ok_cong:
  assumes "thresholds_ok p" "activationThreshold q = activationThreshold p"
    "releaseThreshold q = releaseThreshold p" "activationSamples q = activationSamples p"
    "releaseSamples q = releaseSamples p"
  shows "thresholds_ok q"
  using assms by (simp add: thresholds_ok_def)

lemma observe_inv:
  assumes "persistence_inv p" and "observe e p = (r, p')"
  shows "persistence_inv p'"
proof -
  have ok: "thresholds_ok p" using assms(1) by (simp add: persistence_inv_def)
  then have "2 \<le> activationSamples p" "2 \<le> releaseSamples p" by (auto simp: thresholds_ok_def)
  then have pos: "0 < activationSamples p" "0 < releaseSamples p"
    using samples_at_least_two by blast+
  have ok': "thresholds_ok p'" using ok observe_frame(1-4) [OF assms] by (rule thresholds_ok_cong)
  show ?thesis using assms
  proof (cases rule: observe_cases)
    case clear
    then show ?thesis using ok' pos by (simp add: persistence_inv_def clearPending_def)
  next
    case (count d)
    then show ?thesis
      using ok' bumped_bounds [OF assms(1) count(4)] qualifies_direction [OF count(2)]
      by (simp add: persistence_inv_def sample_limit_def split: if_split_asm)
  next
    case (fire d)
    then show ?thesis using ok' pos by (simp add: persistence_inv_def clearPending_def)
  qed
qed

lemma persistence_reset_inv: "persistence_inv p \<Longrightarrow> persistence_inv (persistence_reset p)"
  by (auto simp: persistence_reset_def clearPending_def persistence_inv_def thresholds_ok_def
      word_less_nat_alt word_le_nat_alt)

section \<open>The interface of a gate\<close>

text \<open>
  What a consumer of recommendations relies on: the state invariant is kept, the returned
  recommendation is the stored one, and a recommendation other than PRESERVE can only be kept or
  released.
\<close>

locale recommendation_gate =
  fixes gstep :: "'e \<Rightarrow> 's \<Rightarrow> persistent_recommendation \<times> 's"
    and ginv :: "'s \<Rightarrow> bool"
    and grec :: "'s \<Rightarrow> persistent_recommendation"
  assumes gstep_inv: "ginv s \<Longrightarrow> ginv (snd (gstep e s))"
    and gstep_rec: "fst (gstep e s) = grec (snd (gstep e s))"
    and gstep_release: "grec s \<noteq> R_PRESERVE \<Longrightarrow> fst (gstep e s) \<in> {grec s, R_PRESERVE}"
begin

fun grun :: "'e list \<Rightarrow> 's \<Rightarrow> persistent_recommendation list \<times> 's" where
  "grun [] s = ([], s)"
| "grun (e # es) s = (let (r, s1) = gstep e s; (rs, s2) = grun es s1 in (r # rs, s2))"

lemma grun_inv: "ginv s \<Longrightarrow> ginv (snd (grun es s))"
proof (induction es arbitrary: s)
  case (Cons e es)
  then show ?case using gstep_inv [of s e] by (auto simp: split_beta)
qed simp

text \<open>Between two recommendations that disagree there is a PRESERVE.\<close>

lemma grun_no_flip:
  "Suc i < length (grec s # fst (grun es s)) \<Longrightarrow>
     (grec s # fst (grun es s)) ! i \<noteq> R_PRESERVE \<Longrightarrow>
     (grec s # fst (grun es s)) ! Suc i \<in> {(grec s # fst (grun es s)) ! i, R_PRESERVE}"
proof (induction es arbitrary: s i)
  case (Cons e es)
  obtain r s1 where st: "gstep e s = (r, s1)" by fastforce
  have r: "r = grec s1" using gstep_rec [of e s] by (simp add: st)
  have run: "fst (grun (e # es) s) = grec s1 # fst (grun es s1)"
    by (simp add: st r split_beta)
  show ?case
  proof (cases i)
    case 0
    then show ?thesis using Cons.prems gstep_release [of s e] unfolding run by (simp add: st r)
  next
    case (Suc j)
    then show ?thesis using Cons.prems Cons.IH [of j s1] unfolding run by simp
  qed
qed simp

end

lemma observe_release:
  assumes "recommendation p \<noteq> R_PRESERVE"
  shows "fst (observe e p) \<in> {recommendation p, R_PRESERVE}"
  using assms by (simp add: observe_def advancePending_def clearPending_def Let_def)

lemma observe_returns_stored: "fst (observe e p) = recommendation (snd (observe e p))"
  by (simp add: observe_def Let_def)

interpretation gate: recommendation_gate observe persistence_inv recommendation
proof
  show "persistence_inv (snd (observe e p))" if "persistence_inv p" for e p
    using observe_inv [OF that, of e] by (metis prod.collapse)
  show "fst (observe e p) = recommendation (snd (observe e p))" for e p
    by (rule observe_returns_stored)
  show "fst (observe e p) \<in> {recommendation p, R_PRESERVE}"
    if "recommendation p \<noteq> R_PRESERVE" for e p
    using that by (rule observe_release)
qed

section \<open>The specification: enough recent samples agree\<close>

definition streak :: "(f64 \<Rightarrow> bool) \<Rightarrow> f64 list \<Rightarrow> nat" where
  "streak P h = length (takeWhile P h)"

text \<open>The specification's state: the recommendation, and the samples since it last changed, newest first.\<close>

type_synonym gate_spec = "persistent_recommendation \<times> f64 list"

definition spec_step :: "bridge_persistence \<Rightarrow> f64 \<Rightarrow> gate_spec \<Rightarrow> gate_spec" where
  "spec_step p v s = (case s of (r, h) \<Rightarrow>
     let h' = v # h; A = activationThreshold p; R = releaseThreshold p;
         m = unat (activationSamples p); n = unat (releaseSamples p)
     in case r of
       R_PRESERVE \<Rightarrow>
         if m \<le> streak (\<lambda>x. A \<le> x) h' then (R_SUPPORT, [])
         else if m \<le> streak (\<lambda>x. x \<le> - A) h' then (R_CONSTRAIN, [])
         else (R_PRESERVE, h')
     | R_SUPPORT \<Rightarrow> if n \<le> streak (\<lambda>x. x \<le> R) h' then (R_PRESERVE, []) else (R_SUPPORT, h')
     | R_CONSTRAIN \<Rightarrow> if n \<le> streak (\<lambda>x. - R \<le> x) h' then (R_PRESERVE, []) else (R_CONSTRAIN, h'))"

text \<open>The counters of the gate are the streaks of the specification.\<close>

definition gate_rel :: "bridge_persistence \<Rightarrow> gate_spec \<Rightarrow> bool" where
  "gate_rel p s \<longleftrightarrow> (case s of (r, h) \<Rightarrow> recommendation p = r \<and>
     (case r of
       R_PRESERVE \<Rightarrow>
         streak (\<lambda>x. activationThreshold p \<le> x) h
           = (if pendingDirection p = P_SUPPORT then unat (consecutiveSamples p) else 0) \<and>
         streak (\<lambda>x. x \<le> - activationThreshold p) h
           = (if pendingDirection p = P_CONSTRAIN then unat (consecutiveSamples p) else 0)
     | R_SUPPORT \<Rightarrow> streak (\<lambda>x. x \<le> releaseThreshold p) h = unat (consecutiveSamples p)
     | R_CONSTRAIN \<Rightarrow> streak (\<lambda>x. - releaseThreshold p \<le> x) h = unat (consecutiveSamples p)))"

lemma streak_simps [simp]:
  "streak P [] = 0"
  "streak P (v # h) = (if P v then Suc (streak P h) else 0)"
  by (simp_all add: streak_def)

lemma abs_threshold:
  assumes "isfinite A" "0 \<le> A" "v \<noteq> NaN" "0 < A"
  shows "\<bar>v\<bar> < A \<longleftrightarrow> \<not> A \<le> v \<and> \<not> v \<le> - (A::f64)"
    and "A \<le> v \<Longrightarrow> \<not> v < 0" and "v \<le> - A \<Longrightarrow> v < 0"
  using assms by (auto simp: isfinite_iff zero_f64_def; cases v; auto)+

lemma activation_positive:
  assumes "thresholds_ok p"
  shows "0 < activationThreshold p" "0 \<le> activationThreshold p" "isfinite (activationThreshold p)"
  using assms by (auto simp: thresholds_ok_def isfinite_iff zero_f64_def)

lemma spec_step_frame:
  assumes "persistence_inv p" "observe e p = (r, p')"
  shows "spec_step p' = spec_step p"
  using observe_frame [OF assms] by (simp add: spec_step_def fun_eq_iff)

lemma bumped_streak:
  assumes "persistence_inv p"
  shows "unat (bumped d p) = (if pendingDirection p = d then Suc (unat (consecutiveSamples p)) else 1)"
  using unat_Suc_less [OF inv_consecutive(1) [OF assms]] by (simp add: bumped_def)

lemma bumped_le_limit:
  assumes "persistence_inv p"
  shows "bumped d p = sample_limit p \<longleftrightarrow> unat (sample_limit p) \<le> unat (bumped d p)"
proof -
  note c = inv_consecutive [OF assms]
  have "unat (bumped d p) \<le> unat (sample_limit p)"
    using c samples_at_least_two [OF c(2)] bumped_streak [OF assms, of d]
    by (auto simp: word_less_nat_alt split: if_splits)
  then show ?thesis by (auto simp: word_unat_eq_iff)
qed

text \<open>One observation simulates one step of the specification.\<close>

lemma gate_simulation_preserve:
  assumes inv: "persistence_inv p" and rec: "recommendation p = R_PRESERVE"
    and rel: "gate_rel p (R_PRESERVE, h)" and v: "evidence e \<noteq> NaN"
    and obs: "observe e p = (r, p')"
  shows "gate_rel p' (spec_step p (evidence e) (R_PRESERVE, h)) \<and>
    r = fst (spec_step p (evidence e) (R_PRESERVE, h))"
proof -
  let ?A = "activationThreshold p" and ?v = "evidence e"
  have ok: "thresholds_ok p" using inv by (simp add: persistence_inv_def)
  note thr = abs_threshold [OF activation_positive(3,2) [OF ok] v activation_positive(1) [OF ok]]
  have lim: "sample_limit p = activationSamples p" "0 < unat (activationSamples p)"
    using rec inv_consecutive(2) [OF inv] by (auto simp: sample_limit_def word_le_nat_alt)
  have s: "streak (\<lambda>x. ?A \<le> x) h = (if pendingDirection p = P_SUPPORT then unat (consecutiveSamples p) else 0)"
    "streak (\<lambda>x. x \<le> - ?A) h = (if pendingDirection p = P_CONSTRAIN then unat (consecutiveSamples p) else 0)"
    using rel by (auto simp: gate_rel_def)
  from inv obs show ?thesis
  proof (cases rule: observe_cases)
    case clear
    then have "\<bar>?v\<bar> < ?A" by (auto simp: qualifies_def rec)
    then show ?thesis using clear lim thr rec
      by (simp add: spec_step_def gate_rel_def Let_def clearPending_def)
  next
    case (count d)
    have q: "\<not> \<bar>?v\<bar> < ?A" "d = (if ?v < 0 then P_CONSTRAIN else P_SUPPORT)"
      using count(2) by (auto simp: qualifies_def rec)
    have b: "\<not> unat (activationSamples p) \<le> unat (bumped d p)"
      using count(4) bumped_le_limit [OF inv] lim by simp
    show ?thesis using q b thr s count rec bumped_streak [OF inv, of d] lim
      by (auto simp: spec_step_def gate_rel_def Let_def)
  next
    case (fire d)
    have q: "\<not> \<bar>?v\<bar> < ?A" "d = (if ?v < 0 then P_CONSTRAIN else P_SUPPORT)"
      using fire(2) by (auto simp: qualifies_def rec)
    have b: "unat (activationSamples p) \<le> unat (bumped d p)"
      using fire(4) bumped_le_limit [OF inv] lim by simp
    show ?thesis using q b thr s fire rec bumped_streak [OF inv, of d] lim
      by (auto simp: spec_step_def gate_rel_def Let_def clearPending_def)
  qed
qed

lemma gate_simulation_held:
  assumes inv: "persistence_inv p" and rec: "recommendation p = q" "q \<noteq> R_PRESERVE"
    and rel: "gate_rel p (q, h)"
    and obs: "observe e p = (r, p')"
  shows "gate_rel p' (spec_step p (evidence e) (q, h)) \<and> r = fst (spec_step p (evidence e) (q, h))"
proof -
  let ?v = "evidence e"
  have lim: "sample_limit p = releaseSamples p" "0 < unat (releaseSamples p)"
    using rec inv_consecutive(2) [OF inv] by (auto simp: sample_limit_def word_le_nat_alt)
  have pend: "pendingDirection p = P_PRESERVE \<or> unat (consecutiveSamples p) = 0"
    using inv rec by (auto simp: persistence_inv_def)
  from inv obs show ?thesis
  proof (cases rule: observe_cases)
    case clear
    then show ?thesis using rec lim rel
      by (cases q) (auto simp: spec_step_def gate_rel_def Let_def clearPending_def qualifies_def)
  next
    case (count d)
    have d: "d = P_PRESERVE" using count(2) rec qualifies_direction [OF count(2)] by simp
    have b: "\<not> unat (releaseSamples p) \<le> unat (bumped d p)"
      using count(4) bumped_le_limit [OF inv] lim by simp
    show ?thesis using d b count rec rel bumped_streak [OF inv, of d] lim pend
      by (cases q) (auto simp: spec_step_def gate_rel_def Let_def qualifies_def)
  next
    case (fire d)
    have d: "d = P_PRESERVE" using fire(2) rec qualifies_direction [OF fire(2)] by simp
    have b: "unat (releaseSamples p) \<le> unat (bumped d p)"
      using fire(4) bumped_le_limit [OF inv] lim by simp
    show ?thesis using d b fire rec rel bumped_streak [OF inv, of d] lim pend
      by (cases q) (auto simp: spec_step_def gate_rel_def Let_def qualifies_def clearPending_def)
  qed
qed

lemma gate_simulation:
  assumes "persistence_inv p" "gate_rel p s" "evidence e \<noteq> NaN" "observe e p = (r, p')"
  shows "gate_rel p' (spec_step p (evidence e) s)" and "r = fst (spec_step p (evidence e) s)"
proof -
  obtain q h where s: "s = (q, h)" by fastforce
  have q: "recommendation p = q" using assms(2) by (simp add: s gate_rel_def)
  have "gate_rel p' (spec_step p (evidence e) s) \<and> r = fst (spec_step p (evidence e) s)"
  proof (cases "q = R_PRESERVE")
    case True
    then show ?thesis using gate_simulation_preserve [OF assms(1)] assms(2-4) s q by simp
  next
    case False
    then show ?thesis using gate_simulation_held [OF assms(1) q False] assms(2,4) s by simp
  qed
  then show "gate_rel p' (spec_step p (evidence e) s)" and "r = fst (spec_step p (evidence e) s)"
    by auto
qed

section \<open>Runs of the gate\<close>

fun observe_run ::
  "bridge_policy_evidence list \<Rightarrow> bridge_persistence \<Rightarrow> persistent_recommendation list \<times> bridge_persistence"
where
  "observe_run [] p = ([], p)"
| "observe_run (e # es) p =
     (let (r, p1) = observe e p; (rs, p2) = observe_run es p1 in (r # rs, p2))"

fun spec_run :: "bridge_persistence \<Rightarrow> f64 list \<Rightarrow> gate_spec \<Rightarrow> persistent_recommendation list" where
  "spec_run p [] s = []"
| "spec_run p (v # vs) s = (let s' = spec_step p v s in fst s' # spec_run p vs s')"

lemma observe_run_grun: "observe_run es p = gate.grun es p"
  by (induction es arbitrary: p) (simp_all add: split_beta)

lemma spec_run_cong: "spec_step p' = spec_step p \<Longrightarrow> spec_run p' vs s = spec_run p vs s"
  by (induction vs arbitrary: s) (simp_all add: Let_def)

lemma observe_run_refines:
  assumes "persistence_inv p" "gate_rel p s" "\<forall>e \<in> set es. evidence e \<noteq> NaN"
  shows "fst (observe_run es p) = spec_run p (map evidence es) s"
  using assms
proof (induction es arbitrary: p s)
  case (Cons e es)
  obtain r p1 where st: "observe e p = (r, p1)" by fastforce
  have v: "evidence e \<noteq> NaN" using Cons.prems by simp
  note sim = gate_simulation [OF Cons.prems(1,2) v st]
  have "fst (observe_run es p1) = spec_run p1 (map evidence es) (spec_step p (evidence e) s)"
    using Cons.prems sim observe_inv [OF Cons.prems(1) st] by (intro Cons.IH) auto
  also have "\<dots> = spec_run p (map evidence es) (spec_step p (evidence e) s)"
    using spec_step_frame [OF Cons.prems(1) st] by (rule spec_run_cong)
  finally show ?case by (simp add: st sim(2) split_beta Let_def)
qed simp

lemma gate_rel_initial: "mk_BridgePersistence a r m n = Inr p \<Longrightarrow> gate_rel p (R_PRESERVE, [])"
  by (auto simp: mk_BridgePersistence_def result_simps gate_rel_def)

section \<open>Properties\<close>

text \<open>
  C9. A gate that its constructor accepted returns, for any sequence of samples, exactly the
  recommendations of the specification: it leaves PRESERVE when at least M of the most recent
  samples reach the activation threshold in one direction, and returns to it when at least N of the
  most recent ones are back within the release threshold.
\<close>

theorem gate_refines_specification:
  assumes "mk_BridgePersistence a r m n = Inr p" and "\<forall>e \<in> set es. evidence e \<noteq> NaN"
  shows "fst (observe_run es p) = spec_run p (map evidence es) (R_PRESERVE, [])"
  using observe_run_refines [OF mk_BridgePersistence_inv gate_rel_initial] assms by blast

lemma sample_gate_accepted:
  "mk_BridgePersistence 1 0 2 2 = Inr \<lparr>activationThreshold = 1, releaseThreshold = 0,
     activationSamples = 2, releaseSamples = 2, consecutiveSamples = 0, recommendation = R_PRESERVE,
     pendingDirection = P_NONE\<rparr>"
  by (simp add: mk_BridgePersistence_def) (simp add: zero_f64_def one_f64_def)

theorem gate_refines_specification_witness:
  "\<exists>p. mk_BridgePersistence 1 0 2 2 = Inr p \<and>
     fst (observe_run [\<lparr>evidence = 1\<rparr>, \<lparr>evidence = 1\<rparr>, \<lparr>evidence = 0\<rparr>] p)
       = [R_PRESERVE, R_SUPPORT, R_SUPPORT]"
proof -
  define p where "p = \<lparr>activationThreshold = 1, releaseThreshold = 0,
     activationSamples = (2::u64), releaseSamples = 2, consecutiveSamples = 0, recommendation = R_PRESERVE,
     pendingDirection = P_NONE\<rparr>"
  have g: "mk_BridgePersistence 1 0 2 2 = Inr p" unfolding p_def by (rule sample_gate_accepted)
  have "fst (observe_run [\<lparr>evidence = 1\<rparr>, \<lparr>evidence = 1\<rparr>, \<lparr>evidence = 0\<rparr>] p)
      = spec_run p (map evidence [\<lparr>evidence = 1\<rparr>, \<lparr>evidence = 1\<rparr>, \<lparr>evidence = 0\<rparr>]) (R_PRESERVE, [])"
    using gate_refines_specification [OF g, of "[\<lparr>evidence = 1\<rparr>, \<lparr>evidence = 1\<rparr>, \<lparr>evidence = 0\<rparr>]"]
    by (simp add: one_f64_def zero_f64_def)
  also have "\<dots> = [R_PRESERVE, R_SUPPORT, R_SUPPORT]"
    by (simp add: p_def spec_step_def Let_def one_f64_def zero_f64_def)
  finally show ?thesis using g by blast
qed

text \<open>
  C19. No sequence of samples, NaN included, makes the gate jump from one recommendation to the
  opposite one: between CONSTRAIN and SUPPORT there is always a PRESERVE. The state stays
  well-formed throughout, so its counters never reach their limits unnoticed.
\<close>

theorem gate_never_flips:
  assumes "persistence_inv p"
    and "Suc i < length (recommendation p # fst (observe_run es p))"
    and "(recommendation p # fst (observe_run es p)) ! i \<noteq> R_PRESERVE"
  shows "(recommendation p # fst (observe_run es p)) ! Suc i \<in>
      {(recommendation p # fst (observe_run es p)) ! i, R_PRESERVE} \<and>
    persistence_inv (snd (observe_run es p))"
  using gate.grun_no_flip [OF assms(2,3) [unfolded observe_run_grun]] gate.grun_inv [OF assms(1), of es]
  by (simp only: observe_run_grun)

theorem gate_never_flips_witness:
  "\<exists>p. persistence_inv p \<and> recommendation p = R_SUPPORT \<and>
     fst (observe (\<lparr>evidence = NInf\<rparr>) p) \<in> {R_SUPPORT, R_PRESERVE}"
proof -
  define p where "p = \<lparr>activationThreshold = 1, releaseThreshold = 0, activationSamples = (2::u64),
    releaseSamples = 2, consecutiveSamples = 0, recommendation = R_SUPPORT, pendingDirection = P_NONE\<rparr>"
  have inv: "persistence_inv p"
    using mk_BridgePersistence_inv [OF sample_gate_accepted]
    by (simp add: p_def persistence_inv_def thresholds_ok_def)
  have "fst (observe (\<lparr>evidence = NInf\<rparr>) p) \<in> {R_SUPPORT, R_PRESERVE}"
    using gate_never_flips [OF inv, of 0 "[\<lparr>evidence = NInf\<rparr>]"] by (simp add: split_beta p_def)
  then show ?thesis using inv by (auto simp: p_def)
qed

end
