(* ===== verification/Persistence_Record.thy ===== *)
theory Persistence_Record
  imports Persistence_Laws
begin

text \<open>
  The persistence record that each production relationship carries, and the only accesses to it
  (\<open>src/detail/production_transition_evaluation_internal.hpp\<close>): the value snapshot of a gate, the
  evolution that reports whether the complete state changed, and the lineage that is replaced on
  every such change. A lineage is an allocated object compared by address; the model names it by
  the number of allocations made before it, so that two lineages are equal exactly when they are
  the same allocation. An allocation may fail.
\<close>

section \<open>Data\<close>

record persistence_state =
  ps_activationThreshold :: f64
  ps_releaseThreshold :: f64
  ps_activationSamples :: u64
  ps_releaseSamples :: u64
  ps_consecutiveSamples :: u64
  ps_recommendation :: nat
  ps_pendingDirection :: nat

datatype persistence_lineage = Lineage nat

record persistence_record =
  gate_of :: bridge_persistence
  lineage_of :: persistence_lineage

record evolution_result =
  evolved_recommendation :: persistent_recommendation
  completeStateChanged :: bool

section \<open>Operations\<close>

text \<open>The numbers that \<open>static_cast<std::uint8_t>\<close> gives the two enumerations.\<close>

fun recommendation_code :: "persistent_recommendation \<Rightarrow> nat" where
  "recommendation_code R_PRESERVE = 0"
| "recommendation_code R_CONSTRAIN = 1"
| "recommendation_code R_SUPPORT = 2"

fun direction_code :: "pending_direction \<Rightarrow> nat" where
  "direction_code P_NONE = 0"
| "direction_code P_CONSTRAIN = 1"
| "direction_code P_SUPPORT = 2"
| "direction_code P_PRESERVE = 3"

definition persistence_state_of :: "bridge_persistence \<Rightarrow> persistence_state" where
  "persistence_state_of p =
    \<lparr>ps_activationThreshold = activationThreshold p, ps_releaseThreshold = releaseThreshold p,
     ps_activationSamples = activationSamples p, ps_releaseSamples = releaseSamples p,
     ps_consecutiveSamples = consecutiveSamples p,
     ps_recommendation = recommendation_code (recommendation p),
     ps_pendingDirection = direction_code (pendingDirection p)\<rparr>"

text \<open>The defaulted \<open>operator==\<close>: memberwise, doubles by \<open>==\<close>.\<close>

definition persistence_state_eq :: "persistence_state \<Rightarrow> persistence_state \<Rightarrow> bool" where
  "persistence_state_eq s t \<longleftrightarrow>
     feq (ps_activationThreshold s) (ps_activationThreshold t) \<and>
     feq (ps_releaseThreshold s) (ps_releaseThreshold t) \<and>
     ps_activationSamples s = ps_activationSamples t \<and>
     ps_releaseSamples s = ps_releaseSamples t \<and>
     ps_consecutiveSamples s = ps_consecutiveSamples t \<and>
     ps_recommendation s = ps_recommendation t \<and>
     ps_pendingDirection s = ps_pendingDirection t"

definition evolve ::
  "bridge_policy_evidence \<Rightarrow> bridge_persistence \<Rightarrow> evolution_result \<times> bridge_persistence" where
  "evolve e p =
     (let (r, p') = observe e p
      in (\<lparr>evolved_recommendation = r, completeStateChanged = \<not> complete_state_eq p' p\<rparr>, p'))"

definition persistence_reset_changed :: "bridge_persistence \<Rightarrow> bool \<times> bridge_persistence" where
  "persistence_reset_changed p =
     (let p' = persistence_reset p in (\<not> complete_state_eq p' p, p'))"

text \<open>
  \<open>make_shared\<close>: the allocator state is the number of allocations so far; \<open>room\<close> says whether
  this one succeeds.
\<close>

definition fresh_lineage :: "bool \<Rightarrow> nat \<Rightarrow> persistence_lineage result \<times> nat" where
  "fresh_lineage room a = (if room then (Inr (Lineage a), Suc a) else (Inl Bad_alloc, a))"

text \<open>
  \<open>evolve\<close> on a record mutates the gate first and replaces the lineage afterwards, so a failed
  allocation leaves the new gate with the old lineage.
\<close>

definition evolve_record ::
  "bool \<Rightarrow> bridge_policy_evidence \<Rightarrow> persistence_record \<Rightarrow> nat \<Rightarrow>
     evolution_result result \<times> persistence_record \<times> nat" where
  "evolve_record room e rec a =
     (let (r, p') = evolve e (gate_of rec);
          rec' = rec\<lparr>gate_of := p'\<rparr>
      in if completeStateChanged r
         then (case fresh_lineage room a of
             (Inl x, a') \<Rightarrow> (Inl x, rec', a')
           | (Inr l, a') \<Rightarrow> (Inr r, rec'\<lparr>lineage_of := l\<rparr>, a'))
         else (Inr r, rec', a))"

definition record_gate :: bridge_persistence where
  "record_gate =
    \<lparr>activationThreshold = dec 5 1, releaseThreshold = dec 25 2, activationSamples = 2,
     releaseSamples = 2, consecutiveSamples = 0, recommendation = R_PRESERVE,
     pendingDirection = P_NONE\<rparr>"

text \<open>
  The default constructor builds the gate with the literals \<open>(0.5, 0.25, 2, 2)\<close>.
  Then it allocates the lineage.
\<close>

definition new_persistence_record :: "bool \<Rightarrow> nat \<Rightarrow> persistence_record result \<times> nat" where
  "new_persistence_record room a =
     (case mk_BridgePersistence (dec 5 1) (dec 25 2) 2 2 of
        Inl x \<Rightarrow> (Inl x, a)
      | Inr g \<Rightarrow> (case fresh_lineage room a of
            (Inl x, a') \<Rightarrow> (Inl x, a')
          | (Inr l, a') \<Rightarrow> (Inr \<lparr>gate_of = g, lineage_of = l\<rparr>, a')))"

definition record_state :: "persistence_record \<Rightarrow> persistence_state" where
  "record_state rec = persistence_state_of (gate_of rec)"

section \<open>Laws\<close>

lemma code_inj [simp]:
  "recommendation_code r = recommendation_code r' \<longleftrightarrow> r = r'"
  "direction_code d = direction_code d' \<longleftrightarrow> d = d'"
  by (cases r; cases r'; simp) (cases d; cases d'; simp)

text \<open>The two equalities agree, so the change flag is what a later reader of the value sees.\<close>

lemma persistence_state_eq_of:
  "persistence_state_eq (persistence_state_of p) (persistence_state_of q) \<longleftrightarrow> complete_state_eq p q"
  by (simp add: persistence_state_eq_def persistence_state_of_def complete_state_eq_def)

lemma complete_state_eq_iff: "persistence_inv p \<Longrightarrow> complete_state_eq q p \<longleftrightarrow> q = p"
  by (auto simp: complete_state_eq_def feq_def persistence_inv_def thresholds_ok_def isfinite_iff
      intro!: bridge_persistence.equality)

lemma new_record_gate: "mk_BridgePersistence (dec 5 1) (dec 25 2) 2 2 = Inr record_gate"
  unfolding record_gate_def by code_simp

lemma new_persistence_record_eq:
  "new_persistence_record room a =
     (if room then (Inr \<lparr>gate_of = record_gate, lineage_of = Lineage a\<rparr>, Suc a)
      else (Inl Bad_alloc, a))"
  unfolding new_persistence_record_def new_record_gate by (simp add: fresh_lineage_def)

lemma record_gate_inv: "persistence_inv record_gate"
  using mk_BridgePersistence_inv [OF new_record_gate] .

lemma evolve_record_eq:
  assumes "persistence_inv (gate_of rec)" "evolve_record room e rec a = (r, rec', a')"
  shows "lineage_of rec' = (if gate_of rec' \<noteq> gate_of rec \<and> room then Lineage a else lineage_of rec)"
    "a' = (if gate_of rec' \<noteq> gate_of rec \<and> room then Suc a else a)"
    "r = (if gate_of rec' \<noteq> gate_of rec \<and> \<not> room then Inl Bad_alloc
          else Inr \<lparr>evolved_recommendation = recommendation (gate_of rec'),
                    completeStateChanged = (gate_of rec' \<noteq> gate_of rec)\<rparr>)"
    "gate_of rec' = snd (observe e (gate_of rec))"
  using assms observe_returns_stored [of e "gate_of rec"]
  by (auto simp: evolve_record_def evolve_def fresh_lineage_def complete_state_eq_iff Let_def
      split_beta split: if_splits)

section \<open>Sequences of evolutions\<close>

text \<open>
  Each evolution has its own evidence and its own allocation, which succeeds or fails. An exception
  ends one call; the record stays in use, as the code leaves it.
\<close>

fun evolve_run ::
  "(bool \<times> bridge_policy_evidence) list \<Rightarrow> persistence_record \<Rightarrow> nat \<Rightarrow>
     evolution_result result list \<times> persistence_record \<times> nat" where
  "evolve_run [] rec a = ([], rec, a)"
| "evolve_run ((room, e) # es) rec a =
     (let (r, rec', a') = evolve_record room e rec a; (rs, rec'', a'') = evolve_run es rec' a'
      in (r # rs, rec'', a''))"

text \<open>The gate after the first \<open>k\<close> evolutions.\<close>

definition gate_after ::
  "(bool \<times> bridge_policy_evidence) list \<Rightarrow> persistence_record \<Rightarrow> nat \<Rightarrow> nat \<Rightarrow> bridge_persistence" where
  "gate_after es rec a k = gate_of (fst (snd (evolve_run (take k es) rec a)))"

definition lineage_known :: "persistence_record \<Rightarrow> nat \<Rightarrow> bool" where
  "lineage_known rec a = (case lineage_of rec of Lineage l \<Rightarrow> l < a)"

lemma gate_after_0 [simp]: "gate_after es rec a 0 = gate_of rec"
  by (simp add: gate_after_def)

lemma gate_after_Suc:
  "evolve_record room e rec a = (r, rec1, a1) \<Longrightarrow>
     gate_after ((room, e) # es) rec a (Suc k) = gate_after es rec1 a1 k"
  by (simp add: gate_after_def split_beta Let_def)

lemma evolve_record_known:
  assumes "persistence_inv (gate_of rec)" "lineage_known rec a"
    "evolve_record room e rec a = (r, rec', a')"
  shows "persistence_inv (gate_of rec')" "lineage_known rec' a'" "a \<le> a'"
    "k \<le> a \<Longrightarrow> \<not> lineage_known rec k \<or> (gate_of rec' \<noteq> gate_of rec \<and> room) \<Longrightarrow> \<not> lineage_known rec' k"
proof -
  note eq = evolve_record_eq [OF assms(1,3)]
  show "persistence_inv (gate_of rec')"
    using eq(4) observe_inv [OF assms(1)] by (metis prod.collapse)
  show "lineage_known rec' a'" "a \<le> a'"
    "k \<le> a \<Longrightarrow> \<not> lineage_known rec k \<or> (gate_of rec' \<noteq> gate_of rec \<and> room) \<Longrightarrow> \<not> lineage_known rec' k"
    using eq(1,2) assms(2)
    by (auto simp: lineage_known_def split: persistence_lineage.splits if_splits)
qed

text \<open>Once a lineage is replaced it never comes back.\<close>

lemma evolve_run_new_lineage:
  assumes "persistence_inv (gate_of rec)" "lineage_known rec a" "k \<le> a" "\<not> lineage_known rec k"
    "evolve_run es rec a = (rs, rec', a')"
  shows "\<not> lineage_known rec' k"
  using assms
proof (induction es arbitrary: rec a rs)
  case (Cons re es)
  obtain room e where re: "re = (room, e)" by fastforce
  obtain r rec1 a1 where st: "evolve_record room e rec a = (r, rec1, a1)" by (metis prod_cases3)
  note known = evolve_record_known [OF Cons.prems(1,2) st]
  obtain rs1 where "evolve_run es rec1 a1 = (rs1, rec', a')"
    using Cons.prems(5) by (auto simp: re st split: prod.splits)
  then show ?case using Cons.IH [OF known(1,2)] known(3) known(4) [of k] Cons.prems(3,4) by simp
qed simp

text \<open>The lineage survives a run exactly when every step that changed the gate failed to replace it.\<close>

lemma evolve_run_lineage:
  assumes "persistence_inv (gate_of rec)" "lineage_known rec a" "evolve_run es rec a = (rs, rec', a')"
  shows "lineage_of rec' = lineage_of rec \<longleftrightarrow>
    (\<forall>k < length es. gate_after es rec a (Suc k) \<noteq> gate_after es rec a k \<longrightarrow> rs ! k = Inl Bad_alloc)"
  using assms
proof (induction es arbitrary: rec a rs)
  case (Cons re es)
  obtain room e where re: "re = (room, e)" by fastforce
  obtain r rec1 a1 where st: "evolve_record room e rec a = (r, rec1, a1)" by (metis prod_cases3)
  obtain rs1 where run: "evolve_run es rec1 a1 = (rs1, rec', a')" and rs: "rs = r # rs1"
    using Cons.prems(3) by (auto simp: re st split: prod.splits)
  note known = evolve_record_known [OF Cons.prems(1,2) st]
  note eq = evolve_record_eq [OF Cons.prems(1) st]
  have all: "(\<forall>k < length (re # es). gate_after (re # es) rec a (Suc k) \<noteq> gate_after (re # es) rec a k \<longrightarrow>
        rs ! k = Inl Bad_alloc) \<longleftrightarrow>
      (gate_of rec1 \<noteq> gate_of rec \<longrightarrow> r = Inl Bad_alloc) \<and>
      (\<forall>k < length es. gate_after es rec1 a1 (Suc k) \<noteq> gate_after es rec1 a1 k \<longrightarrow> rs1 ! k = Inl Bad_alloc)"
    unfolding re rs by (simp add: All_less_Suc2 gate_after_Suc [OF st])
  show ?case
  proof (cases "gate_of rec1 \<noteq> gate_of rec \<and> room")
    case True
    have "\<not> lineage_known rec' a"
      using evolve_run_new_lineage [OF known(1,2,3) known(4) run] True by simp
    then have "lineage_of rec' \<noteq> lineage_of rec" using Cons.prems(2) by (auto simp: lineage_known_def)
    then show ?thesis using True eq(3) unfolding all by simp
  next
    case False
    then have "lineage_of rec1 = lineage_of rec" "gate_of rec1 \<noteq> gate_of rec \<longrightarrow> r = Inl Bad_alloc"
      using eq(1,3) by auto
    then show ?thesis using Cons.IH [OF known(1,2) run] unfolding all by simp
  qed
qed simp

lemma evolve_run_results:
  assumes "persistence_inv (gate_of rec)" "lineage_known rec a" "evolve_run es rec a = (rs, rec', a')"
  shows "\<forall>k < length es. rs ! k =
    (if gate_after es rec a (Suc k) \<noteq> gate_after es rec a k \<and> \<not> fst (es ! k) then Inl Bad_alloc
     else Inr \<lparr>evolved_recommendation = recommendation (gate_after es rec a (Suc k)),
               completeStateChanged = (gate_after es rec a (Suc k) \<noteq> gate_after es rec a k)\<rparr>)"
  using assms
proof (induction es arbitrary: rec a rs)
  case (Cons re es)
  obtain room e where re: "re = (room, e)" by fastforce
  obtain r rec1 a1 where st: "evolve_record room e rec a = (r, rec1, a1)" by (metis prod_cases3)
  obtain rs1 where run: "evolve_run es rec1 a1 = (rs1, rec', a')" and rs: "rs = r # rs1"
    using Cons.prems(3) by (auto simp: re st split: prod.splits)
  note known = evolve_record_known [OF Cons.prems(1,2) st]
  show ?case using Cons.IH [OF known(1,2) run] evolve_record_eq(3) [OF Cons.prems(1) st]
    unfolding re rs length_Cons All_less_Suc2 gate_after_Suc [OF st] gate_after_0 nth_Cons_0 nth_Cons_Suc
      fst_conv by blast
qed simp

text \<open>The gates of a run depend on the evidence alone.\<close>

lemma evolve_run_gate:
  "gate_of (fst (snd (evolve_run es rec a))) = fold (\<lambda>(_, e) p. snd (observe e p)) es (gate_of rec)"
proof (induction es arbitrary: rec a)
  case (Cons re es)
  obtain room e where re: "re = (room, e)" by fastforce
  obtain r rec1 a1 where st: "evolve_record room e rec a = (r, rec1, a1)" by (metis prod_cases3)
  have "gate_of rec1 = snd (observe e (gate_of rec))"
    using st by (auto simp: evolve_record_def evolve_def fresh_lineage_def Let_def split_beta
        split: if_splits)
  then show ?case using Cons.IH [of rec1 a1] by (simp add: re st split_beta Let_def)
qed simp

lemma gate_after_fold:
  "gate_after es rec a k = fold (\<lambda>(_, e) p. snd (observe e p)) (take k es) (gate_of rec)"
  by (simp add: gate_after_def evolve_run_gate)

section \<open>Properties\<close>

text \<open>
  C30. The lineage of a record as a change stamp, with every allocation of a new lineage free to fail.
  After any sequence of evolutions it is the original one exactly when each evolution that changed
  the gate ended in \<open>std::bad_alloc\<close>; and an evolution ends so exactly when it changed the gate and its
  allocation failed, otherwise it reports truthfully whether the gate changed. So while memory lasts
  a gate that changed, even if it came back to the same value, is told apart; after a failed
  allocation it is not.
\<close>

theorem lineage_detects_every_change:
  assumes "persistence_inv (gate_of rec)" "lineage_known rec a" "evolve_run es rec a = (rs, rec', a')"
  shows "(lineage_of rec' = lineage_of rec \<longleftrightarrow>
      (\<forall>k < length es. gate_after es rec a (Suc k) \<noteq> gate_after es rec a k \<longrightarrow> rs ! k = Inl Bad_alloc)) \<and>
    (\<forall>k < length es. rs ! k =
      (if gate_after es rec a (Suc k) \<noteq> gate_after es rec a k \<and> \<not> fst (es ! k) then Inl Bad_alloc
       else Inr \<lparr>evolved_recommendation = recommendation (gate_after es rec a (Suc k)),
                 completeStateChanged = (gate_after es rec a (Suc k) \<noteq> gate_after es rec a k)\<rparr>))"
  using evolve_run_lineage [OF assms] evolve_run_results [OF assms] by blast

text \<open>
  At the witness a full sample and a neutral one take the gate away from its initial state and back.
  With memory the lineage changes; when the allocation of the first fails and the second is left
  out, the gate has changed under the old lineage.
\<close>

lemma record_gate_full:
  "snd (observe \<lparr>evidence = 1\<rparr> record_gate) =
     record_gate\<lparr>consecutiveSamples := 1, pendingDirection := P_SUPPORT\<rparr>"
  "snd (observe \<lparr>evidence = 0\<rparr> (record_gate\<lparr>consecutiveSamples := 1, pendingDirection := P_SUPPORT\<rparr>)) =
     record_gate"
proof -
  have d: "dec 5 1 = Fin (1 / 2)" by code_simp
  note gate = record_gate_def [unfolded d]
  show "snd (observe \<lparr>evidence = 1\<rparr> record_gate) =
      record_gate\<lparr>consecutiveSamples := 1, pendingDirection := P_SUPPORT\<rparr>"
    by (simp add: gate observe_def advancePending_def one_f64_def zero_f64_def Let_def)
  show "snd (observe \<lparr>evidence = 0\<rparr> (record_gate\<lparr>consecutiveSamples := 1, pendingDirection := P_SUPPORT\<rparr>)) =
      record_gate"
    by (simp add: gate observe_def clearPending_def zero_f64_def Let_def)
qed

theorem lineage_detects_every_change_witness:
  "(\<exists>rs rec' a'. evolve_run [(True, \<lparr>evidence = 1\<rparr>), (True, \<lparr>evidence = 0\<rparr>)]
       \<lparr>gate_of = record_gate, lineage_of = Lineage 0\<rparr> 1 = (rs, rec', a') \<and>
       gate_of rec' = record_gate \<and> lineage_of rec' \<noteq> Lineage 0) \<and>
   (\<exists>rs rec' a'. evolve_run [(False, \<lparr>evidence = 1\<rparr>)]
       \<lparr>gate_of = record_gate, lineage_of = Lineage 0\<rparr> 1 = (rs, rec', a') \<and>
       gate_of rec' \<noteq> record_gate \<and> lineage_of rec' = Lineage 0 \<and> rs = [Inl Bad_alloc])"
proof
  let ?rec = "\<lparr>gate_of = record_gate, lineage_of = Lineage 0\<rparr>"
  have pre: "persistence_inv (gate_of ?rec)" "lineage_known ?rec 1"
    by (simp_all add: record_gate_inv lineage_known_def)
  let ?es = "[(True, \<lparr>evidence = 1\<rparr>), (True, \<lparr>evidence = 0\<rparr>)]"
  obtain rs rec' a' where run: "evolve_run ?es ?rec 1 = (rs, rec', a')" by (metis prod_cases3)
  have g: "gate_after ?es ?rec 1 (Suc 0) \<noteq> gate_after ?es ?rec 1 0"
    by (simp add: gate_after_fold record_gate_full) (simp add: record_gate_def)
  note stamp = lineage_detects_every_change [OF pre run]
  have len: "0 < length ?es" by simp
  then have "rs ! 0 \<noteq> Inl Bad_alloc" using stamp by (auto dest!: spec [of _ 0])
  with g len have "\<not> (\<forall>k < length ?es. gate_after ?es ?rec 1 (Suc k) \<noteq> gate_after ?es ?rec 1 k \<longrightarrow>
      rs ! k = Inl Bad_alloc)" by blast
  with stamp have "lineage_of rec' \<noteq> Lineage 0" by simp
  moreover have "gate_of rec' = record_gate"
    using evolve_run_gate [of ?es ?rec 1] unfolding run by (simp add: record_gate_full)
  ultimately show "\<exists>rs rec' a'. evolve_run ?es ?rec 1 = (rs, rec', a') \<and>
      gate_of rec' = record_gate \<and> lineage_of rec' \<noteq> Lineage 0" using run by blast
next
  let ?rec = "\<lparr>gate_of = record_gate, lineage_of = Lineage 0\<rparr>" and ?es = "[(False, \<lparr>evidence = 1\<rparr>)]"
  have pre: "persistence_inv (gate_of ?rec)" "lineage_known ?rec 1"
    by (simp_all add: record_gate_inv lineage_known_def)
  obtain rs rec' a' where run: "evolve_run ?es ?rec 1 = (rs, rec', a')" by (metis prod_cases3)
  have gate: "gate_of rec' \<noteq> record_gate"
    using evolve_run_gate [of ?es ?rec 1] unfolding run by (simp add: record_gate_full) (simp add: record_gate_def)
  have "gate_after ?es ?rec 1 (Suc 0) = gate_of rec'" using run by (simp only: gate_after_def take_Suc_Cons take_0 fst_conv snd_conv)
  with gate have r: "rs ! 0 = Inl Bad_alloc"
    using lineage_detects_every_change [OF pre run] by simp
  have "lineage_of rec' = Lineage 0"
    using lineage_detects_every_change [OF pre run] r by simp
  moreover have "rs = [Inl Bad_alloc]" using r run by (auto split: prod.splits)
  ultimately show "\<exists>rs rec' a'. evolve_run ?es ?rec 1 = (rs, rec', a') \<and>
      gate_of rec' \<noteq> record_gate \<and> lineage_of rec' = Lineage 0 \<and> rs = [Inl Bad_alloc]"
    using run gate by blast
qed

end
