(* ===== verification/Evaluation.thy ===== *)
theory Evaluation
  imports Eligibility Persistence_Record
begin

text \<open>
  The evaluation pipeline of \<open>src/detail/production_transition_evaluation_internal.hpp\<close>: the values
  a backend hands out, the backend interface, the domain validators, the construction of requests
  and evidence, and the orchestrator that runs them in their fixed order. A backend method is an
  action: it may change the state behind the backend, and it may throw. Anything that happens
  between two calls (the live backend takes its lock anew in each of them) is part of the state
  change of the next call.
\<close>

section \<open>Actions\<close>

type_synonym ('s, 'a) action = "'s \<Rightarrow> 'a result \<times> 's"

definition areturn :: "'a \<Rightarrow> ('s, 'a) action" where
  "areturn x = (\<lambda>s. (Inr x, s))"

definition abind :: "('s, 'a) action \<Rightarrow> ('a \<Rightarrow> ('s, 'b) action) \<Rightarrow> ('s, 'b) action" where
  "abind m k = (\<lambda>s. case m s of (Inl x, t) \<Rightarrow> (Inl x, t) | (Inr a, t) \<Rightarrow> k a t)"

lemma areturn_eq [simp]: "areturn x s = (r, t) \<longleftrightarrow> r = Inr x \<and> t = s"
  by (auto simp: areturn_def)

lemma abind_eq_Inr [result_simps]:
  "abind m k s = (Inr y, u) \<longleftrightarrow> (\<exists>x t. m s = (Inr x, t) \<and> k x t = (Inr y, u))"
  by (auto simp: abind_def split: prod.splits sum.splits)

lemma abind_step: "m s = (Inr x, t) \<Longrightarrow> abind m k s = k x t"
  and abind_throw: "m s = (Inl x, t) \<Longrightarrow> abind m k s = (Inl x, t)"
  by (simp_all add: abind_def)

lemma abind_pair: "abind m k s = (case fst (m s) of Inl x \<Rightarrow> (Inl x, snd (m s)) | Inr a \<Rightarrow> k a (snd (m s)))"
  by (simp add: abind_def split_beta)

section \<open>Values a backend hands out\<close>

record captured_relationship =
  cap_source :: nat
  cap_target :: nat
  cap_generation :: u64
  cap_sourceIncarnation :: u64
  cap_targetIncarnation :: u64

datatype captured_state_version = CapturedVersion (captured_version_value: u64)

datatype resolved_transition_class = ResolvedClass (resolved_class_value: u64)

record transition_snapshot =
  snap_relationship :: captured_relationship
  snap_stateVersion :: captured_state_version
  snap_transitionClass :: resolved_transition_class
  snap_lineage :: u64
  snap_persistenceState :: persistence_state
  snap_persistenceLineage :: persistence_lineage

datatype resolution_status = resolved | absent | resolution_failed

record relationship_resolution =
  res_status :: resolution_status
  res_relationship :: "captured_relationship option"

datatype capture_status = complete | capture_failed

record snapshot_capture =
  capt_status :: capture_status
  capt_snapshot :: "transition_snapshot option"

record derived_direction =
  dir_direction :: requested_direction
  dir_lineage :: u64

datatype derivation_status = derived_no_request | derived | derivation_failed

record request_derivation =
  der_status :: derivation_status
  der_direction :: "derived_direction option"

datatype domain_outcome = satisfied | not_satisfied | validation_unavailable

datatype revalidation_outcome = revalidated | stale | revalidation_unavailable

record locator =
  loc_source :: nat
  loc_target :: nat

datatype transition_evaluation = Ev_no_request | Ev_not_eligible | Ev_eligible

text \<open>The protected factories: the only ways a backend can build its answers.\<close>

definition resolvedRelationship :: "nat \<Rightarrow> nat \<Rightarrow> u64 \<Rightarrow> u64 \<Rightarrow> u64 \<Rightarrow> relationship_resolution" where
  "resolvedRelationship s t g si ti =
    \<lparr>res_status = resolved, res_relationship = Some \<lparr>cap_source = s, cap_target = t,
       cap_generation = g, cap_sourceIncarnation = si, cap_targetIncarnation = ti\<rparr>\<rparr>"

definition relationshipAbsent :: relationship_resolution where
  "relationshipAbsent = \<lparr>res_status = absent, res_relationship = None\<rparr>"

definition relationshipResolutionFailed :: relationship_resolution where
  "relationshipResolutionFailed = \<lparr>res_status = resolution_failed, res_relationship = None\<rparr>"

definition completeSnapshot ::
  "captured_relationship \<Rightarrow> u64 \<Rightarrow> u64 \<Rightarrow> u64 \<Rightarrow> persistence_state \<Rightarrow> persistence_lineage \<Rightarrow>
     snapshot_capture" where
  "completeSnapshot rel version cls lin ps pl =
    \<lparr>capt_status = complete, capt_snapshot = Some \<lparr>snap_relationship = rel,
       snap_stateVersion = CapturedVersion version, snap_transitionClass = ResolvedClass cls,
       snap_lineage = lin, snap_persistenceState = ps, snap_persistenceLineage = pl\<rparr>\<rparr>"

definition snapshotCaptureFailed :: snapshot_capture where
  "snapshotCaptureFailed = \<lparr>capt_status = capture_failed, capt_snapshot = None\<rparr>"

definition noRequest :: request_derivation where
  "noRequest = \<lparr>der_status = derived_no_request, der_direction = None\<rparr>"

definition derivedRequest :: "transition_snapshot \<Rightarrow> requested_direction \<Rightarrow> request_derivation" where
  "derivedRequest snap d =
    \<lparr>der_status = derived, der_direction = Some \<lparr>dir_direction = d, dir_lineage = snap_lineage snap\<rparr>\<rparr>"

definition requestDerivationFailed :: request_derivation where
  "requestDerivationFailed = \<lparr>der_status = derivation_failed, der_direction = None\<rparr>"

section \<open>The backend interface\<close>

record 's backend =
  resolveCurrentRelationship :: "locator \<Rightarrow> ('s, relationship_resolution) action"
  captureSnapshot :: "captured_relationship \<Rightarrow> ('s, snapshot_capture) action"
  deriveDirection :: "transition_snapshot \<Rightarrow> ('s, request_derivation) action"
  validatePermission :: "transition_snapshot \<Rightarrow> derived_direction \<Rightarrow> ('s, domain_outcome) action"
  validateInvariant :: "transition_snapshot \<Rightarrow> derived_direction \<Rightarrow> ('s, domain_outcome) action"
  validateResilience :: "transition_snapshot \<Rightarrow> derived_direction \<Rightarrow> ('s, domain_outcome) action"
  validateFreshness :: "transition_snapshot \<Rightarrow> derived_direction \<Rightarrow> ('s, domain_outcome) action"
  revalidate :: "transition_snapshot \<Rightarrow> derived_direction \<Rightarrow> ('s, revalidation_outcome) action"

section \<open>Validators\<close>

record domain_validation =
  dv_satisfied :: bool
  dv_lineage :: u64

text \<open>The step the four domain validators share: unavailable is no result at all.\<close>

definition domain_validation_of ::
  "transition_snapshot \<Rightarrow> domain_outcome \<Rightarrow> domain_validation option" where
  "domain_validation_of snap outcome =
     (if outcome = validation_unavailable then None
      else Some \<lparr>dv_satisfied = (outcome = satisfied), dv_lineage = snap_lineage snap\<rparr>)"

definition permission_validator ::
  "'s backend \<Rightarrow> transition_snapshot \<Rightarrow> derived_direction \<Rightarrow> ('s, domain_validation option) action" where
  "permission_validator B snap d =
     abind (validatePermission B snap d) (\<lambda>out. areturn (domain_validation_of snap out))"

definition invariant_validator ::
  "'s backend \<Rightarrow> transition_snapshot \<Rightarrow> derived_direction \<Rightarrow> ('s, domain_validation option) action" where
  "invariant_validator B snap d =
     abind (validateInvariant B snap d) (\<lambda>out. areturn (domain_validation_of snap out))"

definition resilience_validator ::
  "'s backend \<Rightarrow> transition_snapshot \<Rightarrow> derived_direction \<Rightarrow> ('s, domain_validation option) action" where
  "resilience_validator B snap d =
     abind (validateResilience B snap d) (\<lambda>out. areturn (domain_validation_of snap out))"

definition freshness_validator ::
  "'s backend \<Rightarrow> transition_snapshot \<Rightarrow> derived_direction \<Rightarrow> ('s, domain_validation option) action" where
  "freshness_validator B snap d =
     abind (validateFreshness B snap d) (\<lambda>out. areturn (domain_validation_of snap out))"

record final_revalidation =
  fr_status :: revalidation_outcome
  fr_lineage :: "u64 option"

definition final_revalidation_validator ::
  "'s backend \<Rightarrow> transition_snapshot \<Rightarrow> derived_direction \<Rightarrow> ('s, final_revalidation) action" where
  "final_revalidation_validator B snap d =
     abind (revalidate B snap d) (\<lambda>out. areturn (case out of
         revalidated \<Rightarrow> \<lparr>fr_status = revalidated, fr_lineage = Some (snap_lineage snap)\<rparr>
       | stale \<Rightarrow> \<lparr>fr_status = stale, fr_lineage = None\<rparr>
       | revalidation_unavailable \<Rightarrow> \<lparr>fr_status = revalidation_unavailable, fr_lineage = None\<rparr>))"

section \<open>Construction of the request and its evidence\<close>

definition materializeRelationship :: "captured_relationship \<Rightarrow> relationship_identity" where
  "materializeRelationship c =
    \<lparr>relSourceNodeId = cap_source c, relTargetNodeId = cap_target c, generation = cap_generation c\<rparr>"

definition materializeRequest :: "transition_snapshot \<Rightarrow> derived_direction \<Rightarrow> request_binding" where
  "materializeRequest snap d =
    \<lparr>relationship = materializeRelationship (snap_relationship snap),
     direction = dir_direction d,
     transitionClass = TransitionClassId (resolved_class_value (snap_transitionClass snap)),
     stateVersion = StateVersion (captured_version_value (snap_stateVersion snap))\<rparr>"

definition materializePrerequisites ::
  "request_binding \<Rightarrow> domain_validation \<Rightarrow> domain_validation \<Rightarrow> domain_validation \<Rightarrow>
     domain_validation \<Rightarrow> prerequisite_set" where
  "materializePrerequisites request p i r f =
    \<lparr>pre_permission = Some \<lparr>permission_context = request, permission_satisfied = dv_satisfied p\<rparr>,
     pre_invariant = Some \<lparr>invariant_context = request, invariant_satisfied = dv_satisfied i\<rparr>,
     pre_resilience = Some \<lparr>resilience_context = request, resilience_satisfied = dv_satisfied r\<rparr>,
     pre_freshness = Some \<lparr>freshness_context = request, freshness_satisfied = dv_satisfied f\<rparr>,
     pre_revalidation = Some \<lparr>revalidation_context = request, revalidation_satisfied = True\<rparr>\<rparr>"

section \<open>The orchestrator\<close>

definition orchestrate_final ::
  "'s backend \<Rightarrow> transition_snapshot \<Rightarrow> derived_direction \<Rightarrow> domain_validation \<Rightarrow> domain_validation \<Rightarrow>
     domain_validation \<Rightarrow> domain_validation \<Rightarrow> ('s, transition_evaluation) action" where
  "orchestrate_final B snap d p i r f =
    (if dv_lineage p \<noteq> snap_lineage snap \<or> dv_lineage i \<noteq> snap_lineage snap \<or>
        dv_lineage r \<noteq> snap_lineage snap \<or> dv_lineage f \<noteq> snap_lineage snap
     then areturn Ev_not_eligible
     else abind (final_revalidation_validator B snap d) (\<lambda>fin.
       if fr_status fin \<noteq> revalidated \<or> fr_lineage fin \<noteq> Some (snap_lineage snap)
       then areturn Ev_not_eligible
       else let request = materializeRequest snap d;
                decision = eligibility_evaluate request (materializePrerequisites request p i r f)
            in areturn (if eligibility decision = eligible_for_authority_consideration
                        then Ev_eligible else Ev_not_eligible)))"

definition orchestrate_validation ::
  "'s backend \<Rightarrow> transition_snapshot \<Rightarrow> derived_direction \<Rightarrow> ('s, transition_evaluation) action" where
  "orchestrate_validation B snap d =
     abind (permission_validator B snap d) (\<lambda>p. case p of None \<Rightarrow> areturn Ev_not_eligible | Some p \<Rightarrow>
     abind (invariant_validator B snap d) (\<lambda>i. case i of None \<Rightarrow> areturn Ev_not_eligible | Some i \<Rightarrow>
     abind (resilience_validator B snap d) (\<lambda>r. case r of None \<Rightarrow> areturn Ev_not_eligible | Some r \<Rightarrow>
     abind (freshness_validator B snap d) (\<lambda>f. case f of None \<Rightarrow> areturn Ev_not_eligible | Some f \<Rightarrow>
     orchestrate_final B snap d p i r f))))"

definition orchestrate_derivation ::
  "'s backend \<Rightarrow> transition_snapshot \<Rightarrow> ('s, transition_evaluation) action" where
  "orchestrate_derivation B snap =
     abind (deriveDirection B snap) (\<lambda>der.
       if der_status der = derived_no_request then areturn Ev_no_request
       else case der_direction der of
           None \<Rightarrow> areturn Ev_not_eligible
         | Some d \<Rightarrow> if der_status der \<noteq> derived \<or> dir_lineage d \<noteq> snap_lineage snap
             then areturn Ev_not_eligible
             else orchestrate_validation B snap d)"

definition orchestrator_evaluate :: "'s backend \<Rightarrow> locator \<Rightarrow> ('s, transition_evaluation) action" where
  "orchestrator_evaluate B loc =
    (if loc_source loc = loc_target loc then areturn Ev_not_eligible
     else abind (resolveCurrentRelationship B loc) (\<lambda>res.
       if res_status res = absent then areturn Ev_no_request
       else case res_relationship res of
           None \<Rightarrow> areturn Ev_not_eligible
         | Some rel \<Rightarrow> if res_status res \<noteq> resolved then areturn Ev_not_eligible
             else abind (captureSnapshot B rel) (\<lambda>capt.
               case capt_snapshot capt of
                 None \<Rightarrow> areturn Ev_not_eligible
               | Some snap \<Rightarrow> if capt_status capt \<noteq> complete then areturn Ev_not_eligible
                   else orchestrate_derivation B snap)))"

end
