(* ===== verification/Evaluation_Laws.thy ===== *)
theory Evaluation_Laws
  imports Evaluation "HOL-Library.Sublist"
begin

text \<open>
  What the evaluation pipeline promises of any backend: it answers eligible exactly when the whole
  chain of backend answers is positive, it asks in the fixed order and about one snapshot, and it
  changes nothing beyond what the backend's own calls change.
\<close>

section \<open>The chain of positive answers\<close>

lemma abind_outcome_eligible:
  "abind (abind m (\<lambda>out. areturn (domain_validation_of snap out)))
     (\<lambda>x. case x of None \<Rightarrow> areturn Ev_not_eligible | Some v \<Rightarrow> k v) s = (Inr Ev_eligible, t) \<longleftrightarrow>
   (\<exists>out s1. m s = (Inr out, s1) \<and> out \<noteq> validation_unavailable \<and>
      k \<lparr>dv_satisfied = (out = satisfied), dv_lineage = snap_lineage snap\<rparr> s1 = (Inr Ev_eligible, t))"
  by (cases "m s"; cases "fst (m s)") (auto simp: abind_def areturn_def domain_validation_of_def)

lemmas validator_defs = permission_validator_def invariant_validator_def
  resilience_validator_def freshness_validator_def

lemma final_revalidation_validator_eq:
  "final_revalidation_validator B snap d = abind (revalidate B snap d) (\<lambda>out. areturn
     \<lparr>fr_status = out, fr_lineage = (if out = revalidated then Some (snap_lineage snap) else None)\<rparr>)"
  unfolding final_revalidation_validator_def
  by (rule arg_cong [where f = "abind _"]) (rule ext, simp split: revalidation_outcome.split)

lemma materialized_eligible:
  "eligibility (eligibility_evaluate request (materializePrerequisites request p i r f))
     = eligible_for_authority_consideration \<longleftrightarrow>
   dv_satisfied p \<and> dv_satisfied i \<and> dv_satisfied r \<and> dv_satisfied f"
  by (simp add: eligibility_evaluate_eligible_iff materializePrerequisites_def)

lemma orchestrate_final_eligible_iff:
  "orchestrate_final B snap d p i r f s = (Inr Ev_eligible, t) \<longleftrightarrow>
     dv_lineage p = snap_lineage snap \<and> dv_lineage i = snap_lineage snap \<and>
     dv_lineage r = snap_lineage snap \<and> dv_lineage f = snap_lineage snap \<and>
     dv_satisfied p \<and> dv_satisfied i \<and> dv_satisfied r \<and> dv_satisfied f \<and>
     revalidate B snap d s = (Inr revalidated, t)"
proof (cases "revalidate B snap d s")
  case (Pair x s1)
  show ?thesis
  proof (cases x)
    case (Inl e)
    then show ?thesis using Pair
      by (simp add: orchestrate_final_def final_revalidation_validator_eq abind_def)
  next
    case (Inr out)
    then show ?thesis using Pair
      by (auto simp: orchestrate_final_def final_revalidation_validator_eq Let_def
          materialized_eligible areturn_def abind_def)
  qed
qed

definition positive_validation ::
  "'s backend \<Rightarrow> transition_snapshot \<Rightarrow> derived_direction \<Rightarrow> 's \<Rightarrow> 's \<Rightarrow> bool" where
  "positive_validation B snap d s t \<longleftrightarrow>
     (\<exists>s1 s2 s3 s4.
        validatePermission B snap d s = (Inr satisfied, s1) \<and>
        validateInvariant B snap d s1 = (Inr satisfied, s2) \<and>
        validateResilience B snap d s2 = (Inr satisfied, s3) \<and>
        validateFreshness B snap d s3 = (Inr satisfied, s4) \<and>
        revalidate B snap d s4 = (Inr revalidated, t))"

definition positive_chain :: "'s backend \<Rightarrow> locator \<Rightarrow> 's \<Rightarrow> 's \<Rightarrow> bool" where
  "positive_chain B loc s t \<longleftrightarrow> loc_source loc \<noteq> loc_target loc \<and>
     (\<exists>rel snap d s1 s2 s3.
        resolveCurrentRelationship B loc s = (Inr \<lparr>res_status = resolved, res_relationship = Some rel\<rparr>, s1) \<and>
        captureSnapshot B rel s1 = (Inr \<lparr>capt_status = complete, capt_snapshot = Some snap\<rparr>, s2) \<and>
        deriveDirection B snap s2 = (Inr \<lparr>der_status = derived, der_direction = Some d\<rparr>, s3) \<and>
        dir_lineage d = snap_lineage snap \<and> positive_validation B snap d s3 t)"

lemma orchestrate_validation_eligible_iff:
  "orchestrate_validation B snap d s = (Inr Ev_eligible, t) \<longleftrightarrow> positive_validation B snap d s t"
proof -
  have ne: "satisfied \<noteq> validation_unavailable" by simp
  show ?thesis
    unfolding orchestrate_validation_def positive_validation_def validator_defs
      abind_outcome_eligible orchestrate_final_eligible_iff domain_validation.simps
    using ne by (intro iffI; elim exE conjE; hypsubst?; intro exI conjI; assumption?; (rule refl)?; simp)
qed

lemma derivation_positive:
  "(if der_status der = derived_no_request then areturn Ev_no_request
    else case der_direction der of None \<Rightarrow> areturn Ev_not_eligible
    | Some d \<Rightarrow> if der_status der \<noteq> derived \<or> dir_lineage d \<noteq> l
        then areturn Ev_not_eligible else k d) s = (Inr Ev_eligible, t) \<longleftrightarrow>
   (\<exists>d. der = \<lparr>der_status = derived, der_direction = Some d\<rparr> \<and> dir_lineage d = l \<and>
      k d s = (Inr Ev_eligible, t))"
  by (cases der; cases "der_direction der"; cases "der_status der") auto

lemma orchestrate_derivation_eligible_iff:
  "orchestrate_derivation B snap s = (Inr Ev_eligible, t) \<longleftrightarrow>
     (\<exists>d s1. deriveDirection B snap s = (Inr \<lparr>der_status = derived, der_direction = Some d\<rparr>, s1) \<and>
        dir_lineage d = snap_lineage snap \<and> positive_validation B snap d s1 t)"
  unfolding orchestrate_derivation_def abind_eq_Inr derivation_positive
    orchestrate_validation_eligible_iff
  by blast

lemma orchestrator_chain_iff:
  "orchestrator_evaluate B loc s = (Inr Ev_eligible, t) \<longleftrightarrow> positive_chain B loc s t"
proof -
  have capt: "(case capt_snapshot capt of None \<Rightarrow> areturn Ev_not_eligible
      | Some snap \<Rightarrow> if capt_status capt \<noteq> complete then areturn Ev_not_eligible
          else orchestrate_derivation B snap) s2 = (Inr Ev_eligible, t)
    \<longleftrightarrow> (\<exists>snap. capt = \<lparr>capt_status = complete, capt_snapshot = Some snap\<rparr> \<and>
          orchestrate_derivation B snap s2 = (Inr Ev_eligible, t))" for capt s2
    by (cases capt; cases "capt_snapshot capt"; cases "capt_status capt") auto
  have res: "(if res_status res = absent then areturn Ev_no_request
      else case res_relationship res of None \<Rightarrow> areturn Ev_not_eligible
      | Some rel \<Rightarrow> if res_status res \<noteq> resolved then areturn Ev_not_eligible else k rel) s1
        = (Inr Ev_eligible, t)
    \<longleftrightarrow> (\<exists>rel. res = \<lparr>res_status = resolved, res_relationship = Some rel\<rparr> \<and>
          k rel s1 = (Inr Ev_eligible, t))" for res s1 and k :: "captured_relationship \<Rightarrow> ('a, transition_evaluation) action"
    by (cases res; cases "res_relationship res"; cases "res_status res") auto
  show ?thesis
  proof (cases "loc_source loc = loc_target loc")
    case True
    then show ?thesis by (simp add: orchestrator_evaluate_def positive_chain_def)
  next
    case False
    then show ?thesis
      unfolding orchestrator_evaluate_def positive_chain_def if_not_P [OF False]
        abind_eq_Inr res capt orchestrate_derivation_eligible_iff
      by blast
  qed
qed

section \<open>The order of the calls\<close>

text \<open>A backend that logs each call before passing it on.\<close>

datatype backend_call =
    C_resolve locator
  | C_capture captured_relationship
  | C_derive transition_snapshot
  | C_permission transition_snapshot derived_direction
  | C_invariant transition_snapshot derived_direction
  | C_resilience transition_snapshot derived_direction
  | C_freshness transition_snapshot derived_direction
  | C_revalidate transition_snapshot derived_direction

definition logged :: "'c \<Rightarrow> ('s, 'a) action \<Rightarrow> ('s \<times> 'c list, 'a) action" where
  "logged c m = (\<lambda>(s, tr). (fst (m s), snd (m s), tr @ [c]))"

definition traced :: "'s backend \<Rightarrow> ('s \<times> backend_call list) backend" where
  "traced B =
    \<lparr>resolveCurrentRelationship = (\<lambda>loc. logged (C_resolve loc) (resolveCurrentRelationship B loc)),
     captureSnapshot = (\<lambda>rel. logged (C_capture rel) (captureSnapshot B rel)),
     deriveDirection = (\<lambda>snap. logged (C_derive snap) (deriveDirection B snap)),
     validatePermission = (\<lambda>snap d. logged (C_permission snap d) (validatePermission B snap d)),
     validateInvariant = (\<lambda>snap d. logged (C_invariant snap d) (validateInvariant B snap d)),
     validateResilience = (\<lambda>snap d. logged (C_resilience snap d) (validateResilience B snap d)),
     validateFreshness = (\<lambda>snap d. logged (C_freshness snap d) (validateFreshness B snap d)),
     revalidate = (\<lambda>snap d. logged (C_revalidate snap d) (revalidate B snap d))\<rparr>"

definition validation_calls :: "transition_snapshot \<Rightarrow> derived_direction \<Rightarrow> backend_call list" where
  "validation_calls snap d = [C_permission snap d, C_invariant snap d, C_resilience snap d,
     C_freshness snap d, C_revalidate snap d]"

definition pipeline ::
  "locator \<Rightarrow> captured_relationship \<Rightarrow> transition_snapshot \<Rightarrow> derived_direction \<Rightarrow> backend_call list" where
  "pipeline loc rel snap d = [C_resolve loc, C_capture rel, C_derive snap] @ validation_calls snap d"

text \<open>
  The logged action behaves like the plain one and logs a prefix of one of the lists \<open>S\<close>, all of
  it when the answer is eligible.
\<close>

definition traces ::
  "('s \<times> 'c list, transition_evaluation) action \<Rightarrow> ('s, transition_evaluation) action \<Rightarrow>
     'c list set \<Rightarrow> bool" where
  "traces m' m S \<longleftrightarrow> (\<forall>s tr. \<exists>cs \<in> S. \<exists>n. m' (s, tr) = (fst (m s), snd (m s), tr @ take n cs) \<and>
     (fst (m s) = Inr Ev_eligible \<longrightarrow> take n cs = cs))"

lemma traces_areturn: "x \<noteq> Ev_eligible \<Longrightarrow> S \<noteq> {} \<Longrightarrow> traces (areturn x) (areturn x) S"
  by (auto simp: traces_def areturn_def intro!: exI [of _ 0])

lemma traces_areturn_done: "traces (areturn x) (areturn x) {[]}"
  by (auto simp: traces_def areturn_def)

lemma traces_mono: "traces m' m S \<Longrightarrow> S \<subseteq> T \<Longrightarrow> traces m' m T"
  unfolding traces_def by (meson subset_iff)

lemma traces_abind:
  assumes k: "\<And>a. traces (k' a) (k a) S" and ne: "S \<noteq> {}"
  shows "traces (abind (logged c m) k') (abind m k) ((#) c ` S)"
  unfolding traces_def
proof (intro allI)
  fix s tr
  show "\<exists>cs \<in> (#) c ` S. \<exists>n. abind (logged c m) k' (s, tr) =
      (fst (abind m k s), snd (abind m k s), tr @ take n cs) \<and>
      (fst (abind m k s) = Inr Ev_eligible \<longrightarrow> take n cs = cs)"
  proof (cases "m s")
    case (Pair r t)
    show ?thesis
    proof (cases r)
      case (Inl x)
      obtain cs where "cs \<in> S" using ne by blast
      then show ?thesis using Pair Inl
        by (intro bexI [of _ "c # cs"] exI [of _ 1]) (auto simp: abind_def logged_def)
    next
      case (Inr a)
      obtain cs n where "cs \<in> S"
        "k' a (t, tr @ [c]) = (fst (k a t), snd (k a t), (tr @ [c]) @ take n cs)"
        "fst (k a t) = Inr Ev_eligible \<longrightarrow> take n cs = cs"
        using k [of a] unfolding traces_def by metis
      then show ?thesis using Pair Inr
        by (intro bexI [of _ "c # cs"] exI [of _ "Suc n"]) (auto simp: abind_def logged_def)
    qed
  qed
qed

lemma abind_assoc: "abind (abind m f) g = abind m (\<lambda>x. abind (f x) g)"
  by (auto simp: abind_def fun_eq_iff split: prod.splits sum.splits)

lemma abind_areturn: "abind (areturn x) k = k x"
  by (simp add: abind_def areturn_def)

lemma traces_abind_single:
  assumes "\<And>a. traces (k' a) (k a) {cs}"
  shows "traces (abind (logged c m) k') (abind m k) {c # cs}"
  using traces_abind [of k' k "{cs}" c m] assms by simp

lemma traces_final:
  "traces (orchestrate_final (traced B) snap d p i r f) (orchestrate_final B snap d p i r f)
     {[C_revalidate snap d]}"
proof -
  have rv: "revalidate (traced B) snap d = logged (C_revalidate snap d) (revalidate B snap d)"
    by (simp add: traced_def)
  show ?thesis
    unfolding orchestrate_final_def final_revalidation_validator_eq abind_assoc abind_areturn rv
    by (auto simp: Let_def intro!: traces_areturn traces_abind_single traces_areturn_done)
qed

lemma traces_validation:
  "traces (orchestrate_validation (traced B) snap d) (orchestrate_validation B snap d)
     {validation_calls snap d}"
proof -
  have step: "traces (abind (logged c m) (\<lambda>out. case domain_validation_of snap out of
        None \<Rightarrow> areturn Ev_not_eligible | Some v \<Rightarrow> k' v))
      (abind m (\<lambda>out. case domain_validation_of snap out of
        None \<Rightarrow> areturn Ev_not_eligible | Some v \<Rightarrow> k v)) {c # cs}"
    if "\<And>v. traces (k' v) (k v) {cs}"
    for c :: backend_call and m :: "('a, domain_outcome) action" and k k' cs
    using that by (intro traces_abind_single) (auto split: option.split intro!: traces_areturn)
  show ?thesis
    unfolding orchestrate_validation_def validator_defs abind_assoc abind_areturn validation_calls_def
    by (simp add: traced_def step traces_final [unfolded traced_def])
qed

lemma traces_derivation:
  "traces (orchestrate_derivation (traced B) snap) (orchestrate_derivation B snap)
     ((#) (C_derive snap) ` range (validation_calls snap))"
proof -
  have dd: "deriveDirection (traced B) snap = logged (C_derive snap) (deriveDirection B snap)"
    by (simp add: traced_def)
  have v: "traces (orchestrate_validation (traced B) snap d) (orchestrate_validation B snap d)
      (range (validation_calls snap))" for d
    by (rule traces_mono [OF traces_validation]) auto
  show ?thesis
    unfolding orchestrate_derivation_def dd
    by (auto split: option.split intro!: traces_abind traces_areturn v)
qed

lemma traces_orchestrator:
  "traces (orchestrator_evaluate (traced B) loc) (orchestrator_evaluate B loc)
     {pipeline loc rel snap d |rel snap d. True}"
proof -
  define S2 where "S2 = {C_derive snap # validation_calls snap d |snap d. True}"
  define S1 where "S1 = {C_capture rel # cs |rel cs. cs \<in> S2}"
  have ne: "S2 \<noteq> {}" "S1 \<noteq> {}" by (auto simp: S1_def S2_def)
  have cap: "traces (abind (captureSnapshot (traced B) rel) (\<lambda>capt. case capt_snapshot capt of
        None \<Rightarrow> areturn Ev_not_eligible
      | Some snap \<Rightarrow> if capt_status capt \<noteq> complete then areturn Ev_not_eligible
          else orchestrate_derivation (traced B) snap))
     (abind (captureSnapshot B rel) (\<lambda>capt. case capt_snapshot capt of
        None \<Rightarrow> areturn Ev_not_eligible
      | Some snap \<Rightarrow> if capt_status capt \<noteq> complete then areturn Ev_not_eligible
          else orchestrate_derivation B snap)) S1" for rel
  proof (rule traces_mono)
    have cs: "captureSnapshot (traced B) rel = logged (C_capture rel) (captureSnapshot B rel)"
      by (simp add: traced_def)
    have d: "traces (orchestrate_derivation (traced B) snap) (orchestrate_derivation B snap) S2" for snap
      by (rule traces_mono [OF traces_derivation]) (auto simp: S2_def)
    show "traces (abind (captureSnapshot (traced B) rel) (\<lambda>capt. case capt_snapshot capt of
        None \<Rightarrow> areturn Ev_not_eligible
      | Some snap \<Rightarrow> if capt_status capt \<noteq> complete then areturn Ev_not_eligible
          else orchestrate_derivation (traced B) snap))
     (abind (captureSnapshot B rel) (\<lambda>capt. case capt_snapshot capt of
        None \<Rightarrow> areturn Ev_not_eligible
      | Some snap \<Rightarrow> if capt_status capt \<noteq> complete then areturn Ev_not_eligible
          else orchestrate_derivation B snap)) ((#) (C_capture rel) ` S2)"
      unfolding cs using ne d
      by (intro traces_abind) (auto split: option.split intro: traces_areturn)
    show "(#) (C_capture rel) ` S2 \<subseteq> S1" by (auto simp: S1_def)
  qed
  have rs: "resolveCurrentRelationship (traced B) loc =
      logged (C_resolve loc) (resolveCurrentRelationship B loc)" by (simp add: traced_def)
  have sub: "(#) (C_resolve loc) ` S1 \<subseteq> {pipeline loc rel snap d |rel snap d. True}"
    by (auto simp: S1_def S2_def pipeline_def)
  show ?thesis
  proof (cases "loc_source loc = loc_target loc")
    case True
    then show ?thesis by (auto simp: orchestrator_evaluate_def intro!: traces_areturn)
  next
    case False
    have "traces (orchestrator_evaluate (traced B) loc) (orchestrator_evaluate B loc)
        ((#) (C_resolve loc) ` S1)"
      unfolding orchestrator_evaluate_def if_not_P [OF False] rs using ne cap
      by (intro traces_abind) (auto split: option.split intro: traces_areturn)
    then show ?thesis using sub by (rule traces_mono)
  qed
qed

section \<open>Evaluation adds no effects of its own\<close>

text \<open>
  A property of the backend's state that every call keeps, also when it throws, is kept by an
  evaluation.
\<close>

locale backend_frame =
  fixes B :: "'s backend" and P :: "'s \<Rightarrow> bool"
  assumes resolve_frame: "P s \<Longrightarrow> P (snd (resolveCurrentRelationship B loc s))"
    and capture_frame: "P s \<Longrightarrow> P (snd (captureSnapshot B rel s))"
    and derive_frame: "P s \<Longrightarrow> P (snd (deriveDirection B snap s))"
    and permission_frame: "P s \<Longrightarrow> P (snd (validatePermission B snap d s))"
    and invariant_frame: "P s \<Longrightarrow> P (snd (validateInvariant B snap d s))"
    and resilience_frame: "P s \<Longrightarrow> P (snd (validateResilience B snap d s))"
    and freshness_frame: "P s \<Longrightarrow> P (snd (validateFreshness B snap d s))"
    and revalidate_frame: "P s \<Longrightarrow> P (snd (revalidate B snap d s))"
begin

lemma abind_frame:
  assumes "P s" "\<And>s. P s \<Longrightarrow> P (snd (m s))" "\<And>a s. P s \<Longrightarrow> P (snd (k a s))"
  shows "P (snd (abind m k s))"
  using assms by (simp add: abind_pair split: sum.split)

lemma areturn_frame: "P s \<Longrightarrow> P (snd (areturn x s))"
  by (simp add: areturn_def)

lemmas call_frame = resolve_frame capture_frame derive_frame permission_frame invariant_frame
  resilience_frame freshness_frame revalidate_frame areturn_frame

lemma validator_frame:
  "P s \<Longrightarrow> P (snd (permission_validator B snap d s))"
  "P s \<Longrightarrow> P (snd (invariant_validator B snap d s))"
  "P s \<Longrightarrow> P (snd (resilience_validator B snap d s))"
  "P s \<Longrightarrow> P (snd (freshness_validator B snap d s))"
  "P s \<Longrightarrow> P (snd (final_revalidation_validator B snap d s))"
  unfolding permission_validator_def invariant_validator_def resilience_validator_def
    freshness_validator_def final_revalidation_validator_def
  by (rule abind_frame; simp add: call_frame)+

lemma orchestrate_final_frame: "P s \<Longrightarrow> P (snd (orchestrate_final B snap d p i r f s))"
  unfolding orchestrate_final_def
  by (auto intro!: abind_frame simp: validator_frame areturn_frame Let_def)

lemma orchestrate_validation_frame: "P s \<Longrightarrow> P (snd (orchestrate_validation B snap d s))"
  unfolding orchestrate_validation_def
  by (auto intro!: abind_frame simp: validator_frame areturn_frame orchestrate_final_frame
      split: option.split)

lemma orchestrate_derivation_frame: "P s \<Longrightarrow> P (snd (orchestrate_derivation B snap s))"
  unfolding orchestrate_derivation_def
  by (rule abind_frame; auto simp: derive_frame areturn_frame orchestrate_validation_frame
      split: option.split)

lemma orchestrator_frame: "P s \<Longrightarrow> P (snd (orchestrator_evaluate B loc s))"
  unfolding orchestrator_evaluate_def
  by (auto intro!: abind_frame simp: call_frame orchestrate_derivation_frame split: option.split)

end

text \<open>A backend that only reads.\<close>

locale read_only_backend =
  fixes B :: "'s backend"
  assumes read_only:
    "snd (resolveCurrentRelationship B loc s) = s"
    "snd (captureSnapshot B rel s) = s"
    "snd (deriveDirection B snap s) = s"
    "snd (validatePermission B snap d s) = s"
    "snd (validateInvariant B snap d s) = s"
    "snd (validateResilience B snap d s) = s"
    "snd (validateFreshness B snap d s) = s"
    "snd (revalidate B snap d s) = s"

sublocale read_only_backend \<subseteq> fixed: backend_frame B "\<lambda>s. s = s0" for s0
  by unfold_locales (simp_all add: read_only)

context read_only_backend
begin

lemma orchestrator_read_only: "snd (orchestrator_evaluate B loc s) = s"
  by (rule fixed.orchestrator_frame) (rule refl)

end

section \<open>Properties\<close>

text \<open>
  C15. The orchestrator answers eligible exactly when the endpoints differ and the backend resolves
  the relationship, captures a snapshot, derives a direction of the snapshot's lineage, and then
  satisfies permission, invariant, resilience, freshness and the final revalidation, in this order,
  each call seeing the state the previous one left. Every other answer, failure or exception is not
  eligible.
\<close>

theorem orchestrator_eligible_iff:
  "orchestrator_evaluate B loc s = (Inr Ev_eligible, t) \<longleftrightarrow> positive_chain B loc s t"
  by (rule orchestrator_chain_iff)

text \<open>
  C33. Whatever the backend answers or throws, the orchestrator asks it in one fixed order and stops
  early at most: the calls it makes are a prefix of resolve, capture, derive, permission, invariant,
  resilience, freshness, revalidate; all calls after the capture are about the one captured snapshot
  and direction; and it makes all eight when the answer is eligible.
\<close>

theorem orchestrator_call_order:
  "\<exists>rel snap d n r t.
     orchestrator_evaluate (traced B) loc (s, []) = (r, (t, take n (pipeline loc rel snap d))) \<and>
     orchestrator_evaluate B loc s = (r, t) \<and> (if r = Inr Ev_eligible then n = 8 else n \<le> 8)"
proof -
  obtain rel snap d n where
    run: "orchestrator_evaluate (traced B) loc (s, []) =
      (fst (orchestrator_evaluate B loc s), snd (orchestrator_evaluate B loc s),
       [] @ take n (pipeline loc rel snap d))"
    and all: "fst (orchestrator_evaluate B loc s) = Inr Ev_eligible \<longrightarrow>
      take n (pipeline loc rel snap d) = pipeline loc rel snap d"
    using traces_orchestrator [of B loc] unfolding traces_def by blast
  have len: "length (pipeline loc rel snap d) = 8" by (simp add: pipeline_def validation_calls_def)
  define k where "k = min n 8"
  have "take k (pipeline loc rel snap d) = take n (pipeline loc rel snap d)"
    using len by (simp add: k_def min_def)
  moreover have "if fst (orchestrator_evaluate B loc s) = Inr Ev_eligible then k = 8 else k \<le> 8"
  proof (cases "fst (orchestrator_evaluate B loc s) = Inr Ev_eligible")
    case True
    then have "length (take n (pipeline loc rel snap d)) = 8" using all len by simp
    then show ?thesis using True len by (simp add: k_def)
  qed (simp add: k_def)
  ultimately show ?thesis using run
    by (intro exI [of _ rel] exI [of _ snap] exI [of _ d] exI [of _ k]
        exI [of _ "fst (orchestrator_evaluate B loc s)"] exI [of _ "snd (orchestrator_evaluate B loc s)"])
      simp
qed

end
