(* ===== verification/Tokens.thy ===== *)
theory Tokens
  imports Soam_Prelude
begin

text \<open>
  \<open>nextMonotonicToken\<close> of \<open>src/detail/production_authority_internal.hpp\<close>: the lock-free counter
  behind authority domains and capability identities. \<open>next_token\<close> is one call that nothing
  interferes with; \<open>token_step\<close> is any number of threads in the compare-exchange loop, where a weak
  exchange may also fail spuriously.
\<close>

section \<open>One call\<close>

definition token_exhausted :: "u64 \<Rightarrow> bool" where
  "token_exhausted c \<longleftrightarrow> c = 0 \<or> c = - 1"

definition next_token :: "string \<Rightarrow> u64 \<Rightarrow> u64 result \<times> u64" where
  "next_token msg c = (if token_exhausted c then (Inl (Overflow_error msg), c) else (Inr c, c + 1))"

section \<open>Threads in the loop\<close>

text \<open>Where a thread stands: outside, in the loop with the value it holds in \<open>current\<close>, or done.\<close>

datatype token_pc = Outside | Trying u64 | Returned u64 | Threw

record token_world =
  counter :: u64
  threads :: "nat \<Rightarrow> token_pc"
  handed_out :: "u64 list"

inductive token_step :: "token_world \<Rightarrow> token_world \<Rightarrow> bool" where
  load: "threads w i = Outside \<Longrightarrow>
    token_step w (w\<lparr>threads := (threads w)(i := Trying (counter w))\<rparr>)"
| exhausted: "threads w i = Trying c \<Longrightarrow> token_exhausted c \<Longrightarrow>
    token_step w (w\<lparr>threads := (threads w)(i := Threw)\<rparr>)"
| exchange: "threads w i = Trying c \<Longrightarrow> \<not> token_exhausted c \<Longrightarrow> counter w = c \<Longrightarrow>
    token_step w (w\<lparr>counter := c + 1, threads := (threads w)(i := Returned c),
      handed_out := handed_out w @ [c]\<rparr>)"
| retry: "threads w i = Trying c \<Longrightarrow> \<not> token_exhausted c \<Longrightarrow>
    token_step w (w\<lparr>threads := (threads w)(i := Trying (counter w))\<rparr>)"
| leave: "threads w i = Returned c \<or> threads w i = Threw \<Longrightarrow>
    token_step w (w\<lparr>threads := (threads w)(i := Outside)\<rparr>)"

inductive token_reachable :: "token_world \<Rightarrow> bool" where
  token_start: "token_reachable \<lparr>counter = 1, threads = (\<lambda>_. Outside), handed_out = []\<rparr>"
| token_more: "token_reachable w \<Longrightarrow> token_step w w' \<Longrightarrow> token_reachable w'"

definition token_inv :: "token_world \<Rightarrow> bool" where
  "token_inv w \<longleftrightarrow> counter w \<noteq> 0 \<and> map unat (handed_out w) = [1..<unat (counter w)]"

lemma token_step_inv:
  assumes "token_step w w'" "token_inv w"
  shows "token_inv w'"
  using assms
proof (cases rule: token_step.cases)
  case (exchange i c)
  have u: "unat (c + 1) = Suc (unat c)"
    using exchange(3) by (intro unat_Suc_not_max) (simp add: token_exhausted_def)
  then have "c + 1 \<noteq> 0" by (metis Zero_not_Suc unat_0)
  moreover have "1 \<le> unat c" using exchange(3) by (simp add: token_exhausted_def Suc_le_eq unat_gt_0)
  ultimately show ?thesis using assms(2) exchange u by (simp add: token_inv_def)
qed (simp_all add: token_inv_def)

lemma token_reachable_inv: "token_reachable w \<Longrightarrow> token_inv w"
proof (induction rule: token_reachable.induct)
  case token_start
  then show ?case by (simp add: token_inv_def)
next
  case (token_more w w')
  then show ?case using token_step_inv by blast
qed

text \<open>The tokens that calls return one after the other.\<close>

fun token_run :: "nat \<Rightarrow> u64 \<Rightarrow> u64 list \<times> u64" where
  "token_run 0 c = ([], c)"
| "token_run (Suc n) c = (case next_token [] c of
     (Inl _, c') \<Rightarrow> ([], c')
   | (Inr t, c') \<Rightarrow> (let (ts, c'') = token_run n c' in (t # ts, c'')))"

lemma token_run_snoc:
  assumes "snd (token_run n c) = d" "length (fst (token_run n c)) = n" "\<not> token_exhausted d"
  shows "token_run (Suc n) c = (fst (token_run n c) @ [d], d + 1)"
  using assms
proof (induction n arbitrary: c)
  case 0
  then show ?case by (simp add: next_token_def)
next
  case (Suc n)
  have ne: "\<not> token_exhausted c"
    using Suc.prems(2) by (auto simp: next_token_def)
  have "token_run (Suc n) (c + 1) = (fst (token_run n (c + 1)) @ [d], d + 1)"
    using Suc.prems ne by (intro Suc.IH) (auto simp: next_token_def split_beta Let_def)
  moreover have "token_run (Suc m) c = (c # fst (token_run m (c + 1)), snd (token_run m (c + 1)))" for m
    using ne by (simp add: next_token_def split_beta Let_def)
  ultimately show ?case by simp
qed

text \<open>
  C21. The threads of the compare-exchange loop hand out exactly the tokens that the same number of
  uninterrupted calls would return, in the same order, and leave the counter where those calls
  leave it; so no token is ever handed out twice, and none is 0.
\<close>

theorem token_loop_linearizes:
  "token_reachable w \<Longrightarrow>
     token_run (length (handed_out w)) 1 = (handed_out w, counter w) \<and>
     distinct (handed_out w) \<and> 0 \<notin> set (handed_out w)"
proof -
  assume r: "token_reachable w"
  have run: "token_run (length (handed_out w)) 1 = (handed_out w, counter w)"
    using r
  proof (induction rule: token_reachable.induct)
    case (token_more w w')
    from token_more.hyps(2) token_more.IH show ?case
    proof (cases rule: token_step.cases)
      case (exchange i c)
      then show ?thesis using token_run_snoc [of "length (handed_out w)" 1 c] token_more.IH by simp
    qed simp_all
  qed simp
  have m: "map unat (handed_out w) = [1..<unat (counter w)]"
    using token_reachable_inv [OF r] by (simp add: token_inv_def)
  then have "distinct (map unat (handed_out w))" by simp
  then have d: "distinct (handed_out w)" by (simp add: distinct_map)
  have "unat (0::u64) \<notin> set (map unat (handed_out w))" unfolding m by simp
  then have "0 \<notin> set (handed_out w)" by force
  with run d show ?thesis by simp
qed

theorem token_loop_linearizes_witness:
  "\<exists>w. token_reachable w \<and> handed_out w = [1] \<and> token_run 1 1 = ([1], counter w)"
proof -
  define w where "w = \<lparr>counter = 2, threads = (\<lambda>_. Outside)(0 := Returned 1), handed_out = [1]\<rparr>"
  have "token_reachable \<lparr>counter = 1, threads = (\<lambda>_. Outside)(0 := Trying 1), handed_out = []\<rparr>"
    using token_more [OF token_start load [of _ 0]] by simp
  from token_more [OF this exchange [of _ 0 1]] have r: "token_reachable w"
    by (simp add: token_exhausted_def w_def)
  from token_loop_linearizes [OF r] r show ?thesis by (auto simp: w_def)
qed

text \<open>
  A token call fails exactly when the counter is at one of its two exhausted values, and then
  leaves it there, so that every later call fails as well; otherwise it returns the counter and
  advances it without wrapping.
\<close>

lemma next_token_spec:
  "(if token_exhausted c
    then \<exists>e. next_token msg c = (Inl e, c) \<and> next_token msg (snd (next_token msg c)) = (Inl e, c)
    else next_token msg c = (Inr c, c + 1) \<and> unat (c + 1) = Suc (unat c))"
  using unat_Suc_not_max [of c] by (auto simp: next_token_def token_exhausted_def)

end
