(* ===== verification/Authority.thy ===== *)
theory Authority
  imports Evaluation_Laws Tokens
begin

text \<open>
  Production authority: the types and the derivation context of
  \<open>include/production_authority_types.hpp\<close>, \<open>production_authority_context.hpp\<close> and
  \<open>production_authority_policy.hpp\<close>, the derivation policy of \<open>src/system_architecture.cpp\<close>, and
  the capability ledger and the live derivation of
  \<open>src/detail/production_authority_internal.hpp\<close>. The two process-wide counters are passed
  explicitly. \<open>room\<close> says whether the allocation made by an insertion succeeds.
\<close>

section \<open>Data\<close>

datatype authority_decision = denied | capability_issued

datatype authority_rejection =
    authority_none
  | eligibility_not_satisfied
  | authority_binding_mismatch
  | authority_stale_state
  | transition_class_mismatch
  | freshness_invalid
  | authority_revalidation_failed
  | authority_policy_denied

datatype commit_result =
    committed
  | stale_state
  | target_mismatch
  | capability_consumed
  | capability_invalid
  | transition_rejected

datatype lifecycle = issued | consumed | expired | invalidated

datatype authority_domain = Domain (domain_token: u64)

datatype capability_id = CapId (id_token: u64)

record execution_capability =
  capability_ident :: capability_id
  capability_domain :: authority_domain
  capability_binding :: request_binding
  capability_epoch :: u64

record authority_context =
  ctx_domain :: authority_domain
  ctx_binding :: request_binding
  authoritativeEpoch :: u64
  liveBindingCurrent :: bool
  stateCurrent :: bool
  transitionClassCurrent :: bool
  freshnessSatisfied :: bool
  revalidationSatisfied :: bool
  authorityPolicySatisfied :: bool

record derivation_result =
  decision :: authority_decision
  authority_rejectionReason :: authority_rejection
  derived_capability :: "execution_capability option"

section \<open>The derivation policy\<close>

text \<open>The value a result object starts with.\<close>

definition initial_result :: derivation_result where
  "initial_result = \<lparr>decision = denied, authority_rejectionReason = authority_policy_denied,
     derived_capability = None\<rparr>"

definition nextCapabilityId :: "u64 \<Rightarrow> capability_id result \<times> u64" where
  "nextCapabilityId c =
     (case next_token ''production capability identity space exhausted'' c of
        (Inl e, c') \<Rightarrow> (Inl e, c') | (Inr t, c') \<Rightarrow> (Inr (CapId t), c'))"

definition nextDomainIdentity :: "u64 \<Rightarrow> authority_domain result \<times> u64" where
  "nextDomainIdentity c =
     (case next_token ''authority domain identity space exhausted'' c of
        (Inl e, c') \<Rightarrow> (Inl e, c') | (Inr t, c') \<Rightarrow> (Inr (Domain t), c'))"

definition policy_derive ::
  "eligibility_decision \<Rightarrow> authority_context \<Rightarrow> u64 \<Rightarrow> derivation_result result \<times> u64" where
  "policy_derive elig ctx c =
    (let reject = (\<lambda>r. (Inr (initial_result\<lparr>authority_rejectionReason := r\<rparr>), c)) in
     if eligibility elig \<noteq> eligible_for_authority_consideration then reject eligibility_not_satisfied
     else if binding elig \<noteq> ctx_binding ctx \<or> \<not> liveBindingCurrent ctx
       then reject authority_binding_mismatch
     else if \<not> stateCurrent ctx then reject authority_stale_state
     else if \<not> transitionClassCurrent ctx then reject transition_class_mismatch
     else if \<not> freshnessSatisfied ctx then reject freshness_invalid
     else if \<not> revalidationSatisfied ctx then reject authority_revalidation_failed
     else if \<not> authorityPolicySatisfied ctx then reject authority_policy_denied
     else (case nextCapabilityId c of
         (Inl e, c') \<Rightarrow> (Inl e, c')
       | (Inr i, c') \<Rightarrow> (Inr \<lparr>decision = capability_issued, authority_rejectionReason = authority_none,
           derived_capability = Some \<lparr>capability_ident = i, capability_domain = ctx_domain ctx,
             capability_binding = binding elig, capability_epoch = authoritativeEpoch ctx\<rparr>\<rparr>, c')))"

section \<open>The ledger\<close>

record ledger_record =
  rec_binding :: request_binding
  rec_issuanceEpoch :: u64
  rec_state :: lifecycle

record authority_ledger =
  ledger_domain :: authority_domain
  ledger_records :: "u64 \<rightharpoonup> ledger_record"

definition new_ledger :: "authority_domain \<Rightarrow> authority_ledger" where
  "new_ledger d = \<lparr>ledger_domain = d, ledger_records = Map.empty\<rparr>"

definition registerIssued ::
  "bool \<Rightarrow> execution_capability \<Rightarrow> authority_ledger \<Rightarrow> unit result \<times> authority_ledger" where
  "registerIssued room cap led =
    (if capability_domain cap \<noteq> ledger_domain led
     then (Inl (Logic_error ''production capability authority domain mismatch''), led)
     else let key = id_token (capability_ident cap) in
       if ledger_records led key \<noteq> None
       then (Inl (Logic_error ''production capability identity already registered''), led)
       else if \<not> room then (Inl Bad_alloc, led)
       else (Inr (), led\<lparr>ledger_records := (ledger_records led)(key \<mapsto>
         \<lparr>rec_binding = capability_binding cap, rec_issuanceEpoch = capability_epoch cap,
          rec_state = issued\<rparr>)\<rparr>))"

text \<open>\<open>lockRecord\<close> hands out the record; \<open>setState\<close> overwrites its lifecycle state in place.\<close>

definition lockRecord :: "capability_id \<Rightarrow> authority_ledger \<Rightarrow> ledger_record option" where
  "lockRecord i led = ledger_records led (id_token i)"

definition setState :: "capability_id \<Rightarrow> lifecycle \<Rightarrow> authority_ledger \<Rightarrow> authority_ledger" where
  "setState i st led = (case ledger_records led (id_token i) of
      None \<Rightarrow> led
    | Some r \<Rightarrow> led\<lparr>ledger_records := (ledger_records led)(id_token i \<mapsto> r\<lparr>rec_state := st\<rparr>)\<rparr>)"

definition lifecycleState :: "capability_id \<Rightarrow> authority_ledger \<Rightarrow> lifecycle option" where
  "lifecycleState i led = map_option rec_state (ledger_records led (id_token i))"

definition ledger_size :: "authority_ledger \<Rightarrow> nat" where
  "ledger_size led = card (dom (ledger_records led))"

definition transitionFromIssued ::
  "capability_id \<Rightarrow> lifecycle \<Rightarrow> authority_ledger \<Rightarrow> bool \<times> authority_ledger" where
  "transitionFromIssued i terminal led = (case ledger_records led (id_token i) of
      None \<Rightarrow> (False, led)
    | Some r \<Rightarrow> if rec_state r \<noteq> issued then (False, led)
        else (True, led\<lparr>ledger_records := (ledger_records led)(id_token i \<mapsto> r\<lparr>rec_state := terminal\<rparr>)\<rparr>))"

definition markConsumed :: "capability_id \<Rightarrow> authority_ledger \<Rightarrow> bool \<times> authority_ledger" where
  "markConsumed i led = transitionFromIssued i consumed led"

definition markExpired :: "capability_id \<Rightarrow> authority_ledger \<Rightarrow> bool \<times> authority_ledger" where
  "markExpired i led = transitionFromIssued i expired led"

definition ledger_invalidate :: "capability_id \<Rightarrow> authority_ledger \<Rightarrow> bool \<times> authority_ledger" where
  "ledger_invalidate i led = transitionFromIssued i invalidated led"

text \<open>\<open>ProductionAuthorityLedgerAccess::registerIssued\<close>.\<close>

definition register_result ::
  "bool \<Rightarrow> derivation_result \<Rightarrow> authority_ledger \<Rightarrow> unit result \<times> authority_ledger" where
  "register_result room res led =
    (if decision res \<noteq> capability_issued then (Inr (), led)
     else case derived_capability res of None \<Rightarrow> (Inr (), led) | Some cap \<Rightarrow> registerIssued room cap led)"

section \<open>The live derivation\<close>

text \<open>
  What the live derivation finds out by asking the backend again: the five flags and the epoch of
  the context it builds. The defaults are those of the local variables.
\<close>

record live_findings =
  lf_liveBindingCurrent :: bool
  lf_stateCurrent :: bool
  lf_transitionClassCurrent :: bool
  lf_freshnessSatisfied :: bool
  lf_revalidationSatisfied :: bool
  lf_epoch :: u64

definition no_findings :: live_findings where
  "no_findings = \<lparr>lf_liveBindingCurrent = False, lf_stateCurrent = False,
     lf_transitionClassCurrent = False, lf_freshnessSatisfied = False,
     lf_revalidationSatisfied = False, lf_epoch = 0\<rparr>"

definition live_direction ::
  "'s backend \<Rightarrow> request_binding \<Rightarrow> transition_snapshot \<Rightarrow> live_findings \<Rightarrow> ('s, live_findings) action" where
  "live_direction B request snap lf =
     abind (deriveDirection B snap) (\<lambda>der.
       case der_direction der of
         None \<Rightarrow> areturn (lf\<lparr>lf_liveBindingCurrent := False\<rparr>)
       | Some d \<Rightarrow>
           if der_status der \<noteq> derived \<or> dir_lineage d \<noteq> snap_lineage snap \<or>
              dir_direction d \<noteq> direction request
           then areturn (lf\<lparr>lf_liveBindingCurrent := False\<rparr>)
           else abind (validateFreshness B snap d) (\<lambda>fresh.
             if fresh \<noteq> satisfied then areturn (lf\<lparr>lf_freshnessSatisfied := False\<rparr>)
             else abind (revalidate B snap d) (\<lambda>rv.
               areturn (lf\<lparr>lf_freshnessSatisfied := True,
                 lf_revalidationSatisfied := (rv = revalidated)\<rparr>))))"

definition live_snapshot ::
  "'s backend \<Rightarrow> request_binding \<Rightarrow> captured_relationship \<Rightarrow> live_findings \<Rightarrow> ('s, live_findings) action" where
  "live_snapshot B request rel lf =
     abind (captureSnapshot B rel) (\<lambda>capt.
       case capt_snapshot capt of
         None \<Rightarrow> areturn lf
       | Some snap \<Rightarrow> if capt_status capt \<noteq> complete then areturn lf
           else let sc = (captured_version_value (snap_stateVersion snap) = opaqueVersion (stateVersion request));
                    tc = (resolved_class_value (snap_transitionClass snap) = opaqueClassId (transitionClass request));
                    lf1 = lf\<lparr>lf_epoch := snap_lineage snap, lf_stateCurrent := sc,
                             lf_transitionClassCurrent := tc\<rparr>
                in if sc \<and> tc then live_direction B request snap lf1 else areturn lf1)"

definition live_findings_of ::
  "'s backend \<Rightarrow> eligibility_decision \<Rightarrow> ('s, live_findings) action" where
  "live_findings_of B elig =
    (if eligibility elig \<noteq> eligible_for_authority_consideration then areturn no_findings
     else let request = binding elig; requested = relationship request in
       abind (resolveCurrentRelationship B
         \<lparr>loc_source = relSourceNodeId requested, loc_target = relTargetNodeId requested\<rparr>) (\<lambda>res.
       case res_relationship res of
         None \<Rightarrow> areturn no_findings
       | Some rel \<Rightarrow> if res_status res \<noteq> resolved then areturn no_findings
           else let live = (cap_source rel = relSourceNodeId requested \<and>
                            cap_target rel = relTargetNodeId requested \<and>
                            cap_generation rel = generation requested);
                    lf = no_findings\<lparr>lf_liveBindingCurrent := live\<rparr>
                in if live then live_snapshot B request rel lf else areturn lf))"

definition live_context ::
  "authority_domain \<Rightarrow> request_binding \<Rightarrow> live_findings \<Rightarrow> bool \<Rightarrow> authority_context" where
  "live_context d request lf pol =
    \<lparr>ctx_domain = d, ctx_binding = request, authoritativeEpoch = lf_epoch lf,
     liveBindingCurrent = lf_liveBindingCurrent lf, stateCurrent = lf_stateCurrent lf,
     transitionClassCurrent = lf_transitionClassCurrent lf,
     freshnessSatisfied = lf_freshnessSatisfied lf,
     revalidationSatisfied = lf_revalidationSatisfied lf, authorityPolicySatisfied = pol\<rparr>"

text \<open>\<open>ProductionAuthorityLiveDerivation::evaluate\<close>; the state is the backend's, the ledger and the
  capability counter.\<close>

definition live_derivation ::
  "bool \<Rightarrow> 's backend \<Rightarrow> eligibility_decision \<Rightarrow> bool \<Rightarrow>
     ('s \<times> authority_ledger \<times> u64, derivation_result) action" where
  "live_derivation room B elig pol = (\<lambda>(s, led, c).
     case live_findings_of B elig s of
       (Inl e, s') \<Rightarrow> (Inl e, (s', led, c))
     | (Inr lf, s') \<Rightarrow>
         (case policy_derive elig (live_context (ledger_domain led) (binding elig) lf pol) c of
            (Inl e, c') \<Rightarrow> (Inl e, (s', led, c'))
          | (Inr res, c') \<Rightarrow>
              (case register_result room res led of
                 (Inl e, led') \<Rightarrow> (Inl e, (s', led', c'))
               | (Inr _, led') \<Rightarrow> (Inr res, (s', led', c')))))"

end
