(* ===== verification/Mesh_State.thy ===== *)
theory Mesh_State
  imports Bridge_Dynamics Authority
begin

text \<open>
  The state of a mesh and its topology operations (\<open>src/detail/spatial_adaptive_mesh_impl.hpp\<close>).
  Each public operation holds \<open>topologyMutex\<close> exclusively from its first access to the state to its
  end, so it is one step on the record \<open>mesh\<close>. Operations return the exception or value together
  with the state they leave, since some of them write before they throw. The unordered map of
  relationships is a partial map: nothing depends on its iteration order. Vectors are lists.
\<close>

section \<open>Data\<close>

record relationship_lifecycle =
  lc_sourceIncarnation :: u64
  lc_targetIncarnation :: u64
  lc_generation :: u64
  lc_lineage :: u64
  lc_persistence :: persistence_record

type_synonym edge_key = "nat \<times> nat"

record mesh =
  nodes :: "node list"
  nodeIncarnations :: "u64 list"
  productionRelationships :: "edge_key \<rightharpoonup> relationship_lifecycle"
  nextNodeIncarnation :: u64
  nextRelationshipGeneration :: u64
  nextLineage :: u64
  alpha :: f64
  workerLimit :: nat
  workerCount :: nat
  computedStates :: "f64 list"
  pendingBridgeCapacities :: "f64 list list"
  pendingBridgeStatuses :: "bridge_status list list"
  pendingBridgeChanged :: "bool list list"
  simulationBufferShapeDirty :: bool
  topologyValidationRequired :: bool
  authorityLedger :: authority_ledger
  lineageAllocations :: nat

text \<open>
  What the operations need of their surroundings: \<open>std::hypot\<close>, the number of hardware threads, and
  where memory runs out. \<open>scratch_room k\<close> is the \<open>k\<close>-th place of a call at which one of its local
  containers may allocate (a reservation or an insertion), before the mesh is touched.
  \<open>prepare_room k\<close> is the preparation of the \<open>k\<close>-th pair of a connection batch, \<open>reserve_room\<close> the
  reservations that follow it (in \<open>addNode\<close>: all its allocations), and \<open>emplace_room k\<close> the \<open>k\<close>-th
  insertion into the relationship map. \<open>buffer_room k\<close> is the \<open>k\<close>-th resizing of a simulation buffer,
  \<open>thread_failure k\<close> the exception that starting worker \<open>k\<close> throws.
\<close>

record platform =
  hypot_of :: "f64 \<Rightarrow> f64 \<Rightarrow> f64"
  hardware_concurrency :: nat
  scratch_room :: "nat \<Rightarrow> bool"
  prepare_room :: "nat \<Rightarrow> bool"
  reserve_room :: bool
  emplace_room :: "nat \<Rightarrow> bool"
  buffer_room :: "nat \<Rightarrow> bool"
  thread_failure :: "nat \<Rightarrow> exn option"

definition new_mesh :: "nat \<Rightarrow> authority_domain \<Rightarrow> mesh" where
  "new_mesh maxWorkers d =
    \<lparr>nodes = [], nodeIncarnations = [], productionRelationships = Map.empty,
     nextNodeIncarnation = 1, nextRelationshipGeneration = 1, nextLineage = 1,
     alpha = dec 15 2, workerLimit = maxWorkers, workerCount = 0,
     computedStates = [], pendingBridgeCapacities = [], pendingBridgeStatuses = [],
     pendingBridgeChanged = [], simulationBufferShapeDirty = True,
     topologyValidationRequired = True, authorityLedger = new_ledger d, lineageAllocations = 0\<rparr>"

text \<open>The places \<open>i, ..., j - 1\<close> at which a call may allocate.\<close>

definition scratch_guard :: "platform \<Rightarrow> nat \<Rightarrow> nat \<Rightarrow> unit result" where
  "scratch_guard P i j = guard_that (list_all (scratch_room P) [i ..< j]) Bad_alloc"

section \<open>Stability\<close>

definition max_degree :: "node list \<Rightarrow> nat" where
  "max_degree ns = fold max (map (\<lambda>n. length (bridges n)) ns) 0"

definition stability_alpha :: "node list \<Rightarrow> f64" where
  "stability_alpha ns =
    (if 0 < max_degree ns
     then let safeAlpha = 1 / f64_of_nat (max_degree ns) in std_min (dec 2 1) (safeAlpha * dec 8 1)
     else dec 15 2)"

definition enforceStabilityConditionUnlocked :: "mesh \<Rightarrow> mesh" where
  "enforceStabilityConditionUnlocked m = m\<lparr>alpha := stability_alpha (nodes m)\<rparr>"

definition enforceStabilityCondition :: "mesh \<Rightarrow> mesh" where
  "enforceStabilityCondition m =
     (enforceStabilityConditionUnlocked m)\<lparr>topologyValidationRequired := True\<rparr>"

section \<open>Adding nodes\<close>

definition addNode :: "platform \<Rightarrow> nat \<Rightarrow> vec3 \<Rightarrow> f64 \<Rightarrow> mesh \<Rightarrow> unit result \<times> mesh" where
  "addNode P i pos base m =
    (case rbind (vec3_validate pos) (\<lambda>_. requireFinite base ''baseline'') of
       Inl e \<Rightarrow> (Inl e, m)
     | Inr _ \<Rightarrow>
         if i \<noteq> length (nodes m)
         then (Inl (Invalid_argument ''node ID must match insertion index''), m)
         else if \<not> reserve_room P then (Inl Bad_alloc, m)
         else (case mk_node i pos base of
             Inl e \<Rightarrow> (Inl e, m)
           | Inr n \<Rightarrow> (Inr (), m\<lparr>nodes := nodes m @ [n],
               nodeIncarnations := nodeIncarnations m @ [nextNodeIncarnation m],
               nextNodeIncarnation := nextNodeIncarnation m + 1,
               simulationBufferShapeDirty := True, topologyValidationRequired := True\<rparr>)))"

section \<open>Connecting\<close>

definition validateNodeIndex :: "mesh \<Rightarrow> int \<Rightarrow> unit result" where
  "validateNodeIndex m i =
     guard_that (\<not> (i < 0 \<or> size_to_int (length (nodes m)) \<le> i))
       (Out_of_range ''node index is out of range'')"

record pending_edge =
  pe_key :: edge_key
  pe_bridge :: spatial_bridge
  pe_lifecycle :: relationship_lifecycle

definition fresh_bridge :: "int \<Rightarrow> f64 \<Rightarrow> f64 \<Rightarrow> spatial_bridge" where
  "fresh_bridge target d w = \<lparr>targetNodeId = target, distance = d, orientationWeight = w,
     capacity = 1, status = NORMAL\<rparr>"

text \<open>\<open>nodeIncarnations_.at(i)\<close>.\<close>

definition incarnation_at :: "mesh \<Rightarrow> nat \<Rightarrow> u64 result" where
  "incarnation_at m i = (if i < length (nodeIncarnations m) then Inr (nodeIncarnations m ! i)
     else Inl (Out_of_range ''vector''))"

definition fresh_record :: "nat \<Rightarrow> persistence_record" where
  "fresh_record a = \<lparr>gate_of = record_gate, lineage_of = Lineage a\<rparr>"

text \<open>
  The two directed edges of the pair \<open>(a, b)\<close>; \<open>g\<close>, \<open>l\<close> and \<open>al\<close> are the local generation and lineage
  counters and the allocation counter. The three geometric values are computed first.
\<close>

definition prepare_pair ::
  "platform \<Rightarrow> mesh \<Rightarrow> nat \<Rightarrow> u64 \<Rightarrow> u64 \<Rightarrow> nat \<Rightarrow> int \<Rightarrow> int \<Rightarrow> pending_edge list result" where
  "prepare_pair P m k g l al a b =
    (let s = nat a; t = nat b; ps = position (nodes m ! s); pt = position (nodes m ! t) in
     rbind (distanceTo (hypot_of P) ps pt) (\<lambda>d.
     rbind (orientationFactorTo (hypot_of P) ps pt) (\<lambda>fwd.
     rbind (orientationFactorTo (hypot_of P) pt ps) (\<lambda>rev.
     rbind (incarnation_at m s) (\<lambda>is.
     rbind (incarnation_at m t) (\<lambda>it.
     rbind (guard_that (prepare_room P k) Bad_alloc) (\<lambda>_.
     Inr [\<lparr>pe_key = (s, t), pe_bridge = fresh_bridge b d fwd,
            pe_lifecycle = \<lparr>lc_sourceIncarnation = is, lc_targetIncarnation = it,
              lc_generation = g, lc_lineage = l, lc_persistence = fresh_record al\<rparr>\<rparr>,
          \<lparr>pe_key = (t, s), pe_bridge = fresh_bridge a d rev,
            pe_lifecycle = \<lparr>lc_sourceIncarnation = it, lc_targetIncarnation = is,
              lc_generation = g + 1, lc_lineage = l + 1, lc_persistence = fresh_record (al + 1)\<rparr>\<rparr>])))))))"

fun prepare_pairs ::
  "platform \<Rightarrow> mesh \<Rightarrow> nat \<Rightarrow> u64 \<Rightarrow> u64 \<Rightarrow> nat \<Rightarrow> (int \<times> int) list \<Rightarrow> pending_edge list result" where
  "prepare_pairs P m k g l al [] = Inr []"
| "prepare_pairs P m k g l al ((a, b) # ps) =
     rbind (prepare_pair P m k g l al a b) (\<lambda>es.
     rbind (prepare_pairs P m (Suc k) (g + 2) (l + 2) (al + 2) ps) (\<lambda>rest. Inr (es @ rest)))"

definition erase_keys ::
  "edge_key list \<Rightarrow> (edge_key \<rightharpoonup> relationship_lifecycle) \<Rightarrow> (edge_key \<rightharpoonup> relationship_lifecycle)" where
  "erase_keys ks rel = fold (\<lambda>k r. r(k := None)) ks rel"

text \<open>The insertion loop with its handler: a failed insertion takes the earlier ones back.\<close>

fun emplace_edges ::
  "platform \<Rightarrow> nat \<Rightarrow> pending_edge list \<Rightarrow> edge_key list \<Rightarrow> (edge_key \<rightharpoonup> relationship_lifecycle) \<Rightarrow>
     unit result \<times> (edge_key \<rightharpoonup> relationship_lifecycle)" where
  "emplace_edges P k [] inserted rel = (Inr (), rel)"
| "emplace_edges P k (e # es) inserted rel =
     (if rel (pe_key e) \<noteq> None
      then (Inl (Logic_error ''relationship already exists during connection preparation''),
            erase_keys inserted rel)
      else if \<not> emplace_room P k then (Inl Bad_alloc, erase_keys inserted rel)
      else emplace_edges P (Suc k) es (inserted @ [pe_key e]) (rel(pe_key e \<mapsto> pe_lifecycle e)))"

definition push_bridge :: "pending_edge \<Rightarrow> node list \<Rightarrow> node list" where
  "push_bridge e ns = (let s = fst (pe_key e); n = ns ! s
     in ns[s := n\<lparr>bridges := bridges n @ [pe_bridge e]\<rparr>])"

definition connectPairsUnlocked ::
  "platform \<Rightarrow> (int \<times> int) list \<Rightarrow> mesh \<Rightarrow> unit result \<times> mesh" where
  "connectPairsUnlocked P pairs m =
    (case prepare_pairs P m 0 (nextRelationshipGeneration m) (nextLineage m) (lineageAllocations m) pairs of
       Inl e \<Rightarrow> (Inl e, m)
     | Inr pending \<Rightarrow>
         if \<not> reserve_room P then (Inl Bad_alloc, m)
         else (case emplace_edges P 0 pending [] (productionRelationships m) of
             (Inl e, rel) \<Rightarrow> (Inl e, m\<lparr>productionRelationships := rel\<rparr>)
           | (Inr _, rel) \<Rightarrow>
               let n = word_of_nat (length pending);
                   m1 = m\<lparr>productionRelationships := rel, nodes := fold push_bridge pending (nodes m),
                     nextRelationshipGeneration := nextRelationshipGeneration m + n,
                     nextLineage := nextLineage m + n,
                     lineageAllocations := lineageAllocations m + length pending\<rparr>
               in (Inr (), if pairs = [] then m1
                   else (enforceStabilityConditionUnlocked m1)
                     \<lparr>simulationBufferShapeDirty := True, topologyValidationRequired := True\<rparr>)))"

definition connected_to :: "mesh \<Rightarrow> nat \<Rightarrow> int \<Rightarrow> bool" where
  "connected_to m s t \<longleftrightarrow> list_ex (\<lambda>b. targetNodeId b = t) (bridges (nodes m ! s))"

text \<open>The pair is passed on in a vector of its own.\<close>

definition connectNodes :: "platform \<Rightarrow> int \<Rightarrow> int \<Rightarrow> mesh \<Rightarrow> unit result \<times> mesh" where
  "connectNodes P a b m =
    (case rbind (rbind (validateNodeIndex m a) (\<lambda>_.
          rbind (validateNodeIndex m b) (\<lambda>_.
          rbind (guard_that (a \<noteq> b) (Invalid_argument ''self-connections are not allowed'')) (\<lambda>_.
          guard_that (\<not> connected_to m (nat a) b) (Invalid_argument ''bridge pair already exists'')))))
          (\<lambda>_. scratch_guard P 0 1) of
       Inl e \<Rightarrow> (Inl e, m)
     | Inr _ \<Rightarrow> (case connectPairsUnlocked P [(a, b)] m of
           (Inl e, m1) \<Rightarrow> (Inl e, m1)
         | (Inr _, m1) \<Rightarrow> (Inr (), m1\<lparr>simulationBufferShapeDirty := True,
             topologyValidationRequired := True\<rparr>)))"

text \<open>
  The validation loop of a batch; \<open>seen\<close> is the set of pair keys inserted so far, reserved before the
  loop. Each insertion may allocate.
\<close>

fun validate_batch :: "platform \<Rightarrow> mesh \<Rightarrow> edge_key list \<Rightarrow> (int \<times> int) list \<Rightarrow> unit result" where
  "validate_batch P m seen [] = Inr ()"
| "validate_batch P m seen ((a, b) # cs) =
     rbind (validateNodeIndex m a) (\<lambda>_.
     rbind (validateNodeIndex m b) (\<lambda>_.
     rbind (guard_that (a \<noteq> b) (Invalid_argument ''self-connections are not allowed'')) (\<lambda>_.
     let first = nat (min a b); second = nat (max a b); k = Suc (length seen) in
     rbind (scratch_guard P k (Suc k)) (\<lambda>_.
     rbind (guard_that ((first, second) \<notin> set seen)
       (Invalid_argument ''duplicate bridge pair in batch'')) (\<lambda>_.
     rbind (guard_that (\<not> connected_to m first (size_to_int second))
       (Invalid_argument ''bridge pair already exists'')) (\<lambda>_.
     validate_batch P m ((first, second) # seen) cs))))))"

definition connectNodePairs :: "platform \<Rightarrow> (int \<times> int) list \<Rightarrow> mesh \<Rightarrow> unit result \<times> mesh" where
  "connectNodePairs P cs m =
    (case rbind (scratch_guard P 0 1) (\<lambda>_. validate_batch P m [] cs) of
       Inl e \<Rightarrow> (Inl e, m)
     | Inr _ \<Rightarrow> connectPairsUnlocked P cs m)"

section \<open>Proximity connections\<close>

definition in_index_range :: "nat \<Rightarrow> int \<Rightarrow> bool" where
  "in_index_range n t \<longleftrightarrow> 0 \<le> t \<and> t < size_to_int n"

definition directed_bridges :: "node list \<Rightarrow> (nat \<times> spatial_bridge) list" where
  "directed_bridges ns = concat (map (\<lambda>(i, n). map (Pair i) (bridges n)) (enumerate 0 ns))"

definition directed_edges :: "node list \<Rightarrow> edge_key list" where
  "directed_edges ns = map (\<lambda>(i, b). (i, nat (targetNodeId b)))
     (filter (\<lambda>(i, b). in_index_range (length ns) (targetNodeId b)) (directed_bridges ns))"

definition index_pairs :: "nat \<Rightarrow> (nat \<times> nat) list" where
  "index_pairs n = concat (map (\<lambda>i. map (Pair i) [Suc i ..< n]) [0 ..< n])"

text \<open>A new pair is appended to the connections, and both its directions to the set of edges.\<close>

fun collect_near ::
  "platform \<Rightarrow> mesh \<Rightarrow> f64 \<Rightarrow> nat \<Rightarrow> edge_key list \<Rightarrow> (nat \<times> nat) list \<Rightarrow> (int \<times> int) list result" where
  "collect_near P m radius k edges [] = Inr []"
| "collect_near P m radius k edges ((i, j) # ps) =
     rbind (distanceTo (hypot_of P) (position (nodes m ! i)) (position (nodes m ! j))) (\<lambda>d.
     if d \<le> radius \<and> (i, j) \<notin> set edges
     then rbind (scratch_guard P k (k + 3)) (\<lambda>_.
          rbind (collect_near P m radius (k + 3) ((j, i) # (i, j) # edges) ps)
            (\<lambda>cs. Inr ((size_to_int i, size_to_int j) # cs)))
     else collect_near P m radius k edges ps)"

text \<open>Before the search, the set of directed edges is reserved and filled.\<close>

definition autoConnectNearbyNodes :: "platform \<Rightarrow> f64 \<Rightarrow> mesh \<Rightarrow> unit result \<times> mesh" where
  "autoConnectNearbyNodes P radius m =
    (case rbind (requireFinite radius ''radius'') (\<lambda>_.
          rbind (guard_that (\<not> radius < 0) (Invalid_argument ''radius must not be negative'')) (\<lambda>_.
          let k = Suc (length (directed_edges (nodes m))) in
          rbind (scratch_guard P 0 k) (\<lambda>_.
          collect_near P m radius k (directed_edges (nodes m)) (index_pairs (length (nodes m)))))) of
       Inl e \<Rightarrow> (Inl e, m)
     | Inr cs \<Rightarrow> (case connectPairsUnlocked P cs m of
           (Inl e, m1) \<Rightarrow> (Inl e, m1)
         | (Inr _, m1) \<Rightarrow> (Inr (), (enforceStabilityConditionUnlocked m1)
             \<lparr>topologyValidationRequired := True\<rparr>)))"

section \<open>Pruning\<close>

definition pair_key :: "nat \<Rightarrow> nat \<Rightarrow> edge_key" where
  "pair_key s t = (if s < t then (s, t) else (t, s))"

text \<open>A bridge that the first two passes look at: its target is another node of the mesh.\<close>

definition proper_bridge :: "nat \<Rightarrow> nat \<times> spatial_bridge \<Rightarrow> bool" where
  "proper_bridge n = (\<lambda>(s, b). in_index_range n (targetNodeId b) \<and> targetNodeId b \<noteq> size_to_int s)"

definition proper_bridges :: "node list \<Rightarrow> (nat \<times> spatial_bridge) list" where
  "proper_bridges ns = filter (proper_bridge (length ns)) (directed_bridges ns)"

definition isolated_bridge :: "f64 \<Rightarrow> f64 \<Rightarrow> bridge_status \<Rightarrow> bool" where
  "isolated_bridge threshold c st \<longleftrightarrow> c < threshold \<or> st = ISOLATED"

definition first_bridges :: "node list \<Rightarrow> edge_key \<rightharpoonup> f64 \<times> bridge_status" where
  "first_bridges ns = map_of (map (\<lambda>(s, b). ((s, nat (targetNodeId b)), (capacity b, status b)))
     (proper_bridges ns))"

text \<open>The counterpart of a bridge is missing or isolated: the condition of the second pass.\<close>

definition weak_counterpart :: "f64 \<Rightarrow> node list \<Rightarrow> nat \<times> spatial_bridge \<Rightarrow> bool" where
  "weak_counterpart threshold ns = (\<lambda>(s, b).
     case first_bridges ns (nat (targetNodeId b), s) of
       None \<Rightarrow> True
     | Some (c, st) \<Rightarrow> isolated_bridge threshold c st)"

definition invalid_pairs :: "f64 \<Rightarrow> node list \<Rightarrow> edge_key list" where
  "invalid_pairs threshold ns = map (\<lambda>(s, b). pair_key s (nat (targetNodeId b)))
     (filter (\<lambda>(s, b). isolated_bridge threshold (capacity b) (status b) \<or>
        weak_counterpart threshold ns (s, b)) (proper_bridges ns))"

text \<open>
  The places where the two passes may allocate: two reservations; in the first pass one insertion
  per proper bridge and one more per isolated one; in the second one per weak counterpart.
\<close>

definition prune_allocations :: "f64 \<Rightarrow> node list \<Rightarrow> nat" where
  "prune_allocations threshold ns = 2 + length (proper_bridges ns) +
     length (filter (\<lambda>(s, b). isolated_bridge threshold (capacity b) (status b)) (proper_bridges ns)) +
     length (filter (weak_counterpart threshold ns) (proper_bridges ns))"

definition keep_bridge :: "nat \<Rightarrow> edge_key list \<Rightarrow> nat \<Rightarrow> spatial_bridge \<Rightarrow> bool" where
  "keep_bridge n invalid s b \<longleftrightarrow> in_index_range n (targetNodeId b) \<and>
     pair_key s (nat (targetNodeId b)) \<notin> set invalid"

definition prune_nodes :: "f64 \<Rightarrow> node list \<Rightarrow> node list" where
  "prune_nodes threshold ns = map (\<lambda>(s, n). n\<lparr>bridges :=
      filter (keep_bridge (length ns) (invalid_pairs threshold ns) s) (bridges n)\<rparr>) (enumerate 0 ns)"

definition discardAbsentProductionRelationshipsUnlocked :: "mesh \<Rightarrow> mesh" where
  "discardAbsentProductionRelationshipsUnlocked m =
     m\<lparr>productionRelationships := (\<lambda>(s, t).
        if s < length (nodes m) \<and> connected_to m s (size_to_int t)
        then productionRelationships m (s, t) else None)\<rparr>"

text \<open>Nothing of the mesh is written before the last of these places; what follows does not throw.\<close>

definition pruneIsolatedBridges :: "platform \<Rightarrow> f64 \<Rightarrow> mesh \<Rightarrow> unit result \<times> mesh" where
  "pruneIsolatedBridges P threshold m =
    (case rbind (requireFinite threshold ''minCapacityThreshold'') (\<lambda>_.
          rbind (guard_that (\<not> threshold < 0) (Invalid_argument ''minCapacityThreshold must not be negative'')) (\<lambda>_.
          scratch_guard P 0 (prune_allocations threshold (nodes m)))) of
       Inl e \<Rightarrow> (Inl e, m)
     | Inr _ \<Rightarrow>
         let ns = prune_nodes threshold (nodes m);
             changed = (map (\<lambda>n. length (bridges n)) ns \<noteq> map (\<lambda>n. length (bridges n)) (nodes m));
             m1 = enforceStabilityConditionUnlocked (m\<lparr>nodes := ns\<rparr>);
             m2 = (if changed
                   then (discardAbsentProductionRelationshipsUnlocked m1)\<lparr>simulationBufferShapeDirty := True\<rparr>
                   else m1)
         in (Inr (), m2\<lparr>topologyValidationRequired := True\<rparr>))"

section \<open>Shocks and getters\<close>

definition set_node :: "nat \<Rightarrow> node \<Rightarrow> mesh \<Rightarrow> mesh" where
  "set_node i n m = m\<lparr>nodes := (nodes m)[i := n]\<rparr>"

text \<open>The filtered state is stored before the health update, whose exception would leave it there.\<close>

definition injectExternalShock :: "int \<Rightarrow> f64 \<Rightarrow> mesh \<Rightarrow> unit result \<times> mesh" where
  "injectExternalShock target magnitude m =
    (case rbind (requireFinite magnitude ''shockMagnitude'') (\<lambda>_. validateNodeIndex m target) of
       Inl e \<Rightarrow> (Inl e, m)
     | Inr _ \<Rightarrow>
         let i = nat target; n = nodes m ! i
         in case applyLocalReflexFilter n (state n + magnitude) of
              Inl e \<Rightarrow> (Inl e, m)
            | Inr filtered \<Rightarrow>
                let n1 = n\<lparr>state := filtered\<rparr>
                in case updateHealth n1 of
                     Inl e \<Rightarrow> (Inl e, set_node i n1 m)
                   | Inr n2 \<Rightarrow> (Inr (), set_node i n2 m))"

definition node_at :: "mesh \<Rightarrow> nat \<Rightarrow> node result" where
  "node_at m i = (if i < length (nodes m) then Inr (nodes m ! i) else Inl (Out_of_range ''vector''))"

definition getNodeState :: "nat \<Rightarrow> mesh \<Rightarrow> f64 result" where
  "getNodeState i m = rbind (node_at m i) (\<lambda>n. Inr (state n))"

definition getNodeHealth :: "nat \<Rightarrow> mesh \<Rightarrow> f64 result" where
  "getNodeHealth i m = rbind (node_at m i) (\<lambda>n. Inr (healthIndex n))"

definition getNodeBridgesCount :: "nat \<Rightarrow> mesh \<Rightarrow> nat result" where
  "getNodeBridgesCount i m = rbind (node_at m i) (\<lambda>n. Inr (length (bridges n)))"

end
