(* ===== verification/Mesh_Connections.thy ===== *)
theory Mesh_Connections
  imports Mesh_State
begin

text \<open>
  How a batch of connections is prepared, inserted and published: the shape of the prepared edges,
  the rollback of a failed insertion, and the effect of publication on the bridges of each node.
\<close>

section \<open>Insertion and rollback\<close>

lemma erase_keys_eq: "erase_keys ks rel = rel |` (- set ks)"
proof (induction ks arbitrary: rel)
  case Nil
  then show ?case by (simp add: erase_keys_def)
next
  case (Cons k ks)
  have "erase_keys (k # ks) rel = erase_keys ks (rel(k := None))"
    by (simp only: erase_keys_def fold_Cons comp_def)
  also have "\<dots> = (rel(k := None)) |` (- set ks)" by (rule Cons.IH)
  also have "\<dots> = rel |` (- set (k # ks))" by (rule ext) (simp add: restrict_map_def)
  finally show ?case .
qed

lemma emplace_edges_Inl:
  "emplace_edges P k es ins rel = (Inl e, rel') \<Longrightarrow> rel' = erase_keys ins rel"
proof (induction P k es ins rel rule: emplace_edges.induct)
  case (2 P k x es ins rel)
  have "erase_keys (ins @ [pe_key x]) (rel(pe_key x \<mapsto> pe_lifecycle x)) = erase_keys ins rel"
    if "rel (pe_key x) = None"
    using that by (auto simp: erase_keys_eq restrict_map_def fun_eq_iff)
  then show ?case using 2 by (auto split: if_split_asm simp del: fun_upd_apply)
qed simp

lemma emplace_edges_Inr:
  "emplace_edges P k es ins rel = (Inr u, rel') \<Longrightarrow>
     rel' = rel ++ map_of (map (\<lambda>x. (pe_key x, pe_lifecycle x)) es) \<and>
     distinct (map pe_key es) \<and> pe_key ` set es \<inter> dom rel = {}"
proof (induction P k es ins rel rule: emplace_edges.induct)
  case (2 P k x es ins rel)
  then have x: "rel (pe_key x) = None"
    and ih: "rel' = rel(pe_key x \<mapsto> pe_lifecycle x) ++ map_of (map (\<lambda>x. (pe_key x, pe_lifecycle x)) es)"
      "distinct (map pe_key es)" "pe_key ` set es \<inter> dom (rel(pe_key x \<mapsto> pe_lifecycle x)) = {}"
    by (auto split: if_split_asm simp del: fun_upd_apply)
  have new: "pe_key x \<notin> pe_key ` set es" using ih(3) by auto
  then have "map_of (map (\<lambda>x. (pe_key x, pe_lifecycle x)) es) (pe_key x) = None"
    by (auto simp: map_of_eq_None_iff image_image)
  then have "rel(pe_key x \<mapsto> pe_lifecycle x) ++ map_of (map (\<lambda>x. (pe_key x, pe_lifecycle x)) es) =
      rel ++ map_of (map (\<lambda>x. (pe_key x, pe_lifecycle x)) (x # es))"
    by (auto simp: map_add_def fun_eq_iff split: option.split)
  then show ?case using ih x new by (simp add: domIff del: fun_upd_apply)
qed simp

lemma emplace_edges_room:
  assumes "distinct (map pe_key es)" "pe_key ` set es \<inter> dom rel = {}"
    "\<forall>i < length es. emplace_room P (k + i)"
  shows "\<exists>rel'. emplace_edges P k es ins rel = (Inr (), rel')"
  using assms
proof (induction es arbitrary: k ins rel)
  case (Cons x es)
  have "\<exists>rel'. emplace_edges P (Suc k) es (ins @ [pe_key x]) (rel(pe_key x \<mapsto> pe_lifecycle x)) = (Inr (), rel')"
  proof (rule Cons.IH)
    show "pe_key ` set es \<inter> dom (rel(pe_key x \<mapsto> pe_lifecycle x)) = {}"
      using Cons.prems(1,2) by (simp del: fun_upd_apply)
    show "distinct (map pe_key es)" using Cons.prems(1) by simp
    show "\<forall>i < length es. emplace_room P (Suc k + i)"
      using Cons.prems(3) by (metis Suc_mono add_Suc_shift length_Cons)
  qed
  moreover have "emplace_room P k" using Cons.prems(3) by (metis add_0_right length_greater_0_conv list.discI)
  moreover have "rel (pe_key x) = None" using Cons.prems(2) by auto
  ultimately show ?case by simp
qed simp

section \<open>Publication\<close>

lemma length_push_bridge [simp]: "length (push_bridge e ns) = length ns"
  by (simp add: push_bridge_def Let_def)

lemma length_push_bridges [simp]: "length (fold push_bridge es ns) = length ns"
  by (induction es arbitrary: ns) simp_all

lemma push_bridge_nth:
  "i < length ns \<Longrightarrow> push_bridge e ns ! i =
     (ns ! i)\<lparr>bridges := bridges (ns ! i) @ (if fst (pe_key e) = i then [pe_bridge e] else [])\<rparr>"
  by (simp add: push_bridge_def Let_def nth_list_update)

lemma push_bridges_nth:
  "i < length ns \<Longrightarrow> fold push_bridge es ns ! i =
     (ns ! i)\<lparr>bridges := bridges (ns ! i) @ map pe_bridge (filter (\<lambda>e. fst (pe_key e) = i) es)\<rparr>"
  by (induction es arbitrary: ns) (simp_all add: push_bridge_nth)

section \<open>Preparation\<close>

text \<open>What a prepared edge of a pair of valid nodes looks like.\<close>

definition edge_matches :: "mesh \<Rightarrow> pending_edge \<Rightarrow> bool" where
  "edge_matches m e \<longleftrightarrow> (case pe_key e of (s, t) \<Rightarrow>
     targetNodeId (pe_bridge e) = int t \<and> capacity (pe_bridge e) = 1 \<and> status (pe_bridge e) = NORMAL \<and>
     s < length (nodeIncarnations m) \<and> t < length (nodeIncarnations m) \<and>
     lc_sourceIncarnation (pe_lifecycle e) = nodeIncarnations m ! s \<and>
     lc_targetIncarnation (pe_lifecycle e) = nodeIncarnations m ! t)"

definition edge_geometry :: "platform \<Rightarrow> mesh \<Rightarrow> pending_edge \<Rightarrow> bool" where
  "edge_geometry P m e \<longleftrightarrow> (case pe_key e of (s, t) \<Rightarrow>
     (distanceTo (hypot_of P) (position (nodes m ! s)) (position (nodes m ! t)) = Inr (distance (pe_bridge e)) \<or>
      distanceTo (hypot_of P) (position (nodes m ! t)) (position (nodes m ! s)) = Inr (distance (pe_bridge e))) \<and>
     orientationFactorTo (hypot_of P) (position (nodes m ! s)) (position (nodes m ! t)) =
       Inr (orientationWeight (pe_bridge e)))"

definition pair_keys :: "int \<times> int \<Rightarrow> edge_key list" where
  "pair_keys = (\<lambda>(a, b). [(nat a, nat b), (nat b, nat a)])"

lemma prepare_pair_Inr:
  assumes "prepare_pair P m k g l al a b = Inr es" "0 \<le> a" "0 \<le> b"
  shows "map pe_key es = pair_keys (a, b) \<and> list_all (edge_matches m) es \<and> list_all (edge_geometry P m) es"
  using assms
  by (auto simp: prepare_pair_def result_simps Let_def pair_keys_def edge_matches_def
      edge_geometry_def fresh_bridge_def incarnation_at_def split: if_split_asm)

lemma prepare_pairs_Inr:
  assumes "prepare_pairs P m k g l al ps = Inr es" "\<forall>(a, b) \<in> set ps. 0 \<le> a \<and> 0 \<le> b"
  shows "map pe_key es = concat (map pair_keys ps) \<and> list_all (edge_matches m) es \<and>
    list_all (edge_geometry P m) es"
  using assms
proof (induction P m k g l al ps arbitrary: es rule: prepare_pairs.induct)
  case (2 P m k g l al a b ps)
  then obtain e1 e2 where e: "prepare_pair P m k g l al a b = Inr e1"
    "prepare_pairs P m (Suc k) (g + 2) (l + 2) (al + 2) ps = Inr e2" "es = e1 @ e2"
    by (auto simp: result_simps)
  show ?case using prepare_pair_Inr [OF e(1)] "2.IH" [OF e(2)] "2.prems"(2) e(3) by auto
qed simp

section \<open>The strong exception guarantee\<close>

lemma relationships_same: "rel = productionRelationships m \<Longrightarrow> m\<lparr>productionRelationships := rel\<rparr> = m"
  by simp

lemma emplace_edges_rollback: "emplace_edges P k es [] rel = (Inl e, rel') \<Longrightarrow> rel' = rel"
  using emplace_edges_Inl [of P k es "[]" rel e rel'] by (simp add: erase_keys_def)

lemma connectPairs_Inl: "connectPairsUnlocked P ps m = (Inl e, m') \<Longrightarrow> m' = m"
  by (auto intro!: relationships_same dest!: emplace_edges_rollback
      simp: connectPairsUnlocked_def Let_def split: sum.splits if_splits prod.splits)

lemma connectPairs_Inr:
  assumes "connectPairsUnlocked P ps m = (Inr u, m')" "\<forall>(a, b) \<in> set ps. 0 \<le> a \<and> 0 \<le> b"
  obtains es where "map pe_key es = concat (map pair_keys ps)" "list_all (edge_matches m) es"
    "list_all (edge_geometry P m) es" "distinct (map pe_key es)"
    "pe_key ` set es \<inter> dom (productionRelationships m) = {}"
    "nodes m' = fold push_bridge es (nodes m)"
    "productionRelationships m' = productionRelationships m ++ map_of (map (\<lambda>x. (pe_key x, pe_lifecycle x)) es)"
    "nodeIncarnations m' = nodeIncarnations m" "workerCount m' = workerCount m"
    "authorityLedger m' = authorityLedger m"
    "alpha m' = (if ps = [] then alpha m else stability_alpha (nodes m'))"
    "simulationBufferShapeDirty m' = (if ps = [] then simulationBufferShapeDirty m else True)"
    "computedStates m' = computedStates m" "pendingBridgeCapacities m' = pendingBridgeCapacities m"
    "pendingBridgeStatuses m' = pendingBridgeStatuses m" "pendingBridgeChanged m' = pendingBridgeChanged m"
    "topologyValidationRequired m' = (if ps = [] then topologyValidationRequired m else True)"
proof -
  obtain es rel where prep: "prepare_pairs P m 0 (nextRelationshipGeneration m) (nextLineage m)
      (lineageAllocations m) ps = Inr es"
    and emp: "emplace_edges P 0 es [] (productionRelationships m) = (Inr (), rel)"
    and m': "m' = (let n = word_of_nat (length es);
                   m1 = m\<lparr>productionRelationships := rel, nodes := fold push_bridge es (nodes m),
                     nextRelationshipGeneration := nextRelationshipGeneration m + n,
                     nextLineage := nextLineage m + n,
                     lineageAllocations := lineageAllocations m + length es\<rparr>
               in if ps = [] then m1
                   else (enforceStabilityConditionUnlocked m1)
                     \<lparr>simulationBufferShapeDirty := True, topologyValidationRequired := True\<rparr>)"
    using assms(1) unfolding connectPairsUnlocked_def
    by (auto simp: Let_def split: sum.splits if_splits prod.splits)
  note e = prepare_pairs_Inr [OF prep assms(2)] and r = emplace_edges_Inr [OF emp]
  show thesis
    by (rule that [of es]) (use e r in \<open>auto simp: m' Let_def enforceStabilityConditionUnlocked_def\<close>)
qed

text \<open>The public topology operations, as one datatype.\<close>

datatype topology_op =
    Op_addNode nat vec3 f64
  | Op_connectNodes int int
  | Op_connectNodePairs "(int \<times> int) list"
  | Op_autoConnect f64
  | Op_prune f64
  | Op_enforce

fun topology_apply :: "platform \<Rightarrow> topology_op \<Rightarrow> mesh \<Rightarrow> unit result \<times> mesh" where
  "topology_apply P (Op_addNode i p b) m = addNode P i p b m"
| "topology_apply P (Op_connectNodes a b) m = connectNodes P a b m"
| "topology_apply P (Op_connectNodePairs cs) m = connectNodePairs P cs m"
| "topology_apply P (Op_autoConnect r) m = autoConnectNearbyNodes P r m"
| "topology_apply P (Op_prune th) m = pruneIsolatedBridges P th m"
| "topology_apply P Op_enforce m = (Inr (), enforceStabilityCondition m)"

lemma topology_apply_Inl: "topology_apply P oper m = (Inl e, m') \<Longrightarrow> m' = m"
proof (cases oper)
  case (Op_addNode i p b)
  then show "topology_apply P oper m = (Inl e, m') \<Longrightarrow> m' = m"
    by (auto simp: addNode_def split: sum.splits if_splits)
next
  case (Op_connectNodes a b)
  then show "topology_apply P oper m = (Inl e, m') \<Longrightarrow> m' = m"
    using connectPairs_Inl by (auto simp: connectNodes_def split: sum.splits prod.splits)
next
  case (Op_connectNodePairs cs)
  then show "topology_apply P oper m = (Inl e, m') \<Longrightarrow> m' = m"
    using connectPairs_Inl by (auto simp: connectNodePairs_def split: sum.splits prod.splits)
next
  case (Op_autoConnect r)
  then show "topology_apply P oper m = (Inl e, m') \<Longrightarrow> m' = m"
    using connectPairs_Inl by (auto simp: autoConnectNearbyNodes_def split: sum.splits prod.splits)
next
  case (Op_prune th)
  then show "topology_apply P oper m = (Inl e, m') \<Longrightarrow> m' = m"
    by (auto simp: pruneIsolatedBridges_def Let_def split: sum.splits)
qed simp

end
