(* ===== verification/Mesh_Topology.thy ===== *)
theory Mesh_Topology
  imports Mesh_Connections
begin

text \<open>
  The invariant of a mesh and its preservation by the topology operations: well-formed nodes and
  bridges, symmetric duplicate-free adjacency, a relationship lifecycle for every directed edge and
  for nothing else, and the stability coefficient of the present degrees.
\<close>

section \<open>Well-formed meshes\<close>

definition targets_of :: "node \<Rightarrow> int list" where
  "targets_of n = map targetNodeId (bridges n)"

definition edges :: "node list \<Rightarrow> edge_key set" where
  "edges ns = {(i, j). i < length ns \<and> int j \<in> set (targets_of (ns ! i))}"

definition bridge_wf :: "nat \<Rightarrow> nat \<Rightarrow> spatial_bridge \<Rightarrow> bool" where
  "bridge_wf n i b \<longleftrightarrow> 0 \<le> targetNodeId b \<and> targetNodeId b < int n \<and> targetNodeId b \<noteq> int i \<and>
     bridge_ok b \<and> status_coherent b"

definition node_data_ok :: "node \<Rightarrow> bool" where
  "node_data_ok n \<longleftrightarrow> vec3_ok (position n) \<and> vec3_wf (position n) \<and> invariant_ok (invariant n) \<and>
     isfinite (state n) \<and> wf64 (state n) \<and> 0 \<le> healthIndex n \<and> healthIndex n \<le> 1"

definition node_wf :: "nat \<Rightarrow> nat \<Rightarrow> node \<Rightarrow> bool" where
  "node_wf n i nd \<longleftrightarrow> node_id nd = i \<and> node_data_ok nd \<and> distinct (targets_of nd) \<and>
     (\<forall>b \<in> set (bridges nd). bridge_wf n i b)"

definition nodes_ok :: "node list \<Rightarrow> bool" where
  "nodes_ok ns \<longleftrightarrow> length ns < 2 ^ 31 \<and> (\<forall>i < length ns. node_wf (length ns) i (ns ! i)) \<and>
     sym (edges ns)"

definition lifecycle_ok :: "mesh \<Rightarrow> edge_key \<Rightarrow> relationship_lifecycle \<Rightarrow> bool" where
  "lifecycle_ok m k lc \<longleftrightarrow> lc_sourceIncarnation lc = nodeIncarnations m ! fst k \<and>
     lc_targetIncarnation lc = nodeIncarnations m ! snd k"

text \<open>The buffers of the simulation have the shape of the mesh unless they are marked dirty.\<close>

definition buffers_match :: "mesh \<Rightarrow> bool" where
  "buffers_match m \<longleftrightarrow> length (computedStates m) = length (nodes m) \<and>
     map length (pendingBridgeCapacities m) = map (\<lambda>n. length (bridges n)) (nodes m) \<and>
     map length (pendingBridgeStatuses m) = map (\<lambda>n. length (bridges n)) (nodes m) \<and>
     map length (pendingBridgeChanged m) = map (\<lambda>n. length (bridges n)) (nodes m)"

definition mesh_ok :: "mesh \<Rightarrow> bool" where
  "mesh_ok m \<longleftrightarrow> nodes_ok (nodes m) \<and> length (nodeIncarnations m) = length (nodes m) \<and>
     dom (productionRelationships m) = edges (nodes m) \<and>
     (\<forall>k lc. productionRelationships m k = Some lc \<longrightarrow> lifecycle_ok m k lc) \<and>
     alpha m = stability_alpha (nodes m) \<and>
     (\<not> simulationBufferShapeDirty m \<longrightarrow> buffers_match m)"

lemma edges_iff: "(i, j) \<in> edges ns \<longleftrightarrow> i < length ns \<and> (\<exists>b \<in> set (bridges (ns ! i)). targetNodeId b = int j)"
  by (force simp: edges_def targets_of_def)

lemma nodes_okD:
  assumes "nodes_ok ns" "i < length ns"
  shows "node_wf (length ns) i (ns ! i)" "length ns < 2 ^ 31"
  using assms by (auto simp: nodes_ok_def)

lemma nodes_ok_bridge:
  "nodes_ok ns \<Longrightarrow> i < length ns \<Longrightarrow> b \<in> set (bridges (ns ! i)) \<Longrightarrow> bridge_wf (length ns) i b"
  using nodes_okD(1) [of ns i] by (simp add: node_wf_def)

lemma edges_range: "nodes_ok ns \<Longrightarrow> (i, j) \<in> edges ns \<Longrightarrow> i < length ns \<and> j < length ns \<and> i \<noteq> j"
  by (auto simp: edges_iff bridge_wf_def dest!: nodes_ok_bridge)

lemma mesh_ok_lifecycle: "mesh_ok m \<Longrightarrow> productionRelationships m k = Some lc \<Longrightarrow> lifecycle_ok m k lc"
  unfolding mesh_ok_def by blast

lemma edges_sym: "nodes_ok ns \<Longrightarrow> (i, j) \<in> edges ns \<longleftrightarrow> (j, i) \<in> edges ns"
  by (auto simp: nodes_ok_def dest: symD)

section \<open>The initial mesh and the stability coefficient\<close>

lemma max_degree_Nil [simp]: "max_degree [] = 0"
  by (simp add: max_degree_def)

lemma max_degree_snoc: "bridges n = [] \<Longrightarrow> max_degree (ns @ [n]) = max_degree ns"
  by (simp add: max_degree_def)

lemma stability_alpha_cong:
  "map (\<lambda>n. length (bridges n)) ns = map (\<lambda>n. length (bridges n)) ns' \<Longrightarrow>
     stability_alpha ns = stability_alpha ns'"
  by (simp add: stability_alpha_def max_degree_def)

lemma new_mesh_ok: "mesh_ok (new_mesh w d)"
  by (simp add: mesh_ok_def new_mesh_def nodes_ok_def edges_def stability_alpha_def sym_def)

section \<open>Adding a node\<close>

lemma mk_node_Inr:
  "mk_node i p b = Inr n \<longleftrightarrow> vec3_ok p \<and> isfinite b \<and>
     n = \<lparr>node_id = i, position = p, state = b, healthIndex = 1,
          invariant = \<lparr>baseline = b, maxEpsilon = dec 10 0\<rparr>, bridges = []\<rparr>"
  by (auto simp: mk_node_def result_simps)

lemma epsilon_ok: "isfinite (dec 10 0)" "0 < dec 10 0"
  by (simp_all add: dec_def zero_f64_def)

lemma addNode_Inr:
  "addNode P i p b m = (Inr u, m') \<longleftrightarrow> vec3_ok p \<and> isfinite b \<and> i = length (nodes m) \<and> reserve_room P \<and>
     m' = m\<lparr>nodes := nodes m @ [\<lparr>node_id = i, position = p, state = b, healthIndex = 1,
          invariant = \<lparr>baseline = b, maxEpsilon = dec 10 0\<rparr>, bridges = []\<rparr>],
        nodeIncarnations := nodeIncarnations m @ [nextNodeIncarnation m],
        nextNodeIncarnation := nextNodeIncarnation m + 1,
        simulationBufferShapeDirty := True, topologyValidationRequired := True\<rparr>"
proof -
  have "(rbind (vec3_validate p) (\<lambda>_. requireFinite b ''baseline'')) = Inr v \<longleftrightarrow> vec3_ok p \<and> isfinite b" for v
    by (auto simp: result_simps)
  moreover have "mk_node i p b = Inr \<lparr>node_id = i, position = p, state = b, healthIndex = 1,
          invariant = \<lparr>baseline = b, maxEpsilon = dec 10 0\<rparr>, bridges = []\<rparr>" if "vec3_ok p" "isfinite b"
    using that by (simp add: mk_node_Inr)
  ultimately show ?thesis
    unfolding addNode_def by (auto split: sum.splits)
qed

lemma bridge_wf_mono: "bridge_wf n i b \<Longrightarrow> n \<le> n' \<Longrightarrow> bridge_wf n' i b"
  by (auto simp: bridge_wf_def)

lemma edges_snoc: "bridges n = [] \<Longrightarrow> edges (ns @ [n]) = edges ns"
  by (auto simp: edges_def targets_of_def nth_append less_Suc_eq split: if_splits)

lemma addNode_ok:
  assumes ok: "mesh_ok m" and add: "addNode P i p b m = (Inr u, m')"
    and wf: "vec3_wf p" "wf64 b" and small: "Suc (length (nodes m)) < 2 ^ 31"
  shows "mesh_ok m'"
proof -
  define n where "n = \<lparr>node_id = i, position = p, state = b, healthIndex = 1,
          invariant = \<lparr>baseline = b, maxEpsilon = dec 10 0\<rparr>, bridges = []\<rparr>"
  have c: "vec3_ok p" "isfinite b" "i = length (nodes m)" and
    m': "m' = m\<lparr>nodes := nodes m @ [n], nodeIncarnations := nodeIncarnations m @ [nextNodeIncarnation m],
        nextNodeIncarnation := nextNodeIncarnation m + 1,
        simulationBufferShapeDirty := True, topologyValidationRequired := True\<rparr>"
    using add unfolding addNode_Inr n_def by auto
  have nok: "nodes_ok (nodes m)" using ok by (simp add: mesh_ok_def)
  have e: "edges (nodes m @ [n]) = edges (nodes m)"
    by (rule edges_snoc) (simp add: n_def)
  have "node_wf (length (nodes m @ [n])) k ((nodes m @ [n]) ! k)" if "k < length (nodes m @ [n])" for k
  proof (cases "k = length (nodes m)")
    case True
    then show ?thesis using c wf epsilon_ok
      by (simp add: n_def node_wf_def node_data_ok_def targets_of_def invariant_ok_def)
  next
    case False
    then show ?thesis using that nodes_okD(1) [OF nok, of k]
      by (auto simp: nth_append node_wf_def intro: bridge_wf_mono)
  qed
  then have "nodes_ok (nodes m @ [n])" using nok small e by (simp add: nodes_ok_def)
  moreover have "lifecycle_ok m' k lc" if "productionRelationships m k = Some lc" for k lc
  proof -
    have "k \<in> edges (nodes m)" using ok that by (auto simp: mesh_ok_def)
    then have "fst k < length (nodes m)" "snd k < length (nodes m)"
      using edges_range [OF nok, of "fst k" "snd k"] by auto
    moreover have "lifecycle_ok m k lc" by (rule mesh_ok_lifecycle [OF ok that])
    ultimately show ?thesis using ok by (simp add: lifecycle_ok_def m' nth_append mesh_ok_def)
  qed
  moreover have "stability_alpha (nodes m @ [n]) = stability_alpha (nodes m)"
    using max_degree_snoc [of n "nodes m"] by (simp add: stability_alpha_def n_def)
  ultimately show ?thesis using ok e by (simp add: mesh_ok_def m')
qed

section \<open>Connecting\<close>

definition valid_pairs :: "nat \<Rightarrow> (int \<times> int) list \<Rightarrow> bool" where
  "valid_pairs n ps \<longleftrightarrow> (\<forall>(a, b) \<in> set ps. 0 \<le> a \<and> a < int n \<and> 0 \<le> b \<and> b < int n \<and> a \<noteq> b)"

lemma pair_keys_props:
  assumes "valid_pairs n ps" "(i, j) \<in> set (concat (map pair_keys ps))"
  shows "i < n \<and> j < n \<and> i \<noteq> j \<and> (j, i) \<in> set (concat (map pair_keys ps))"
proof -
  obtain a b where ab: "(a, b) \<in> set ps" "(i, j) \<in> set (pair_keys (a, b))" using assms(2) by auto
  have r: "0 \<le> a" "a < int n" "0 \<le> b" "b < int n" "a \<noteq> b"
    using assms(1) ab(1) by (auto simp: valid_pairs_def)
  have "(j, i) \<in> set (pair_keys (a, b))" using ab(2) by (auto simp: pair_keys_def)
  then have "(j, i) \<in> set (concat (map pair_keys ps))" using ab(1) by auto
  moreover have "i < n \<and> j < n \<and> i \<noteq> j" using ab(2) r by (auto simp: pair_keys_def)
  ultimately show ?thesis by simp
qed

text \<open>The edges a batch adds, as node pairs.\<close>

definition batch_edges :: "(int \<times> int) list \<Rightarrow> edge_key set" where
  "batch_edges ps = set (concat (map pair_keys ps))"

text \<open>What holds of the prepared edges \<open>es\<close> of the batch \<open>ps\<close> when they are published.\<close>

definition publishable :: "platform \<Rightarrow> mesh \<Rightarrow> (int \<times> int) list \<Rightarrow> pending_edge list \<Rightarrow> bool" where
  "publishable P m ps es \<longleftrightarrow> nodes_ok (nodes m) \<and> map pe_key es = concat (map pair_keys ps) \<and>
     list_all (edge_matches m) es \<and> list_all (edge_geometry P m) es \<and> distinct (map pe_key es) \<and>
     pe_key ` set es \<inter> edges (nodes m) = {} \<and> valid_pairs (length (nodes m)) ps \<and>
     libm_hypot (hypot_of P)"

lemma batch_edges_keys: "publishable P m ps es \<Longrightarrow> batch_edges ps = pe_key ` set es"
  by (simp add: publishable_def batch_edges_def flip: set_map)

lemma batch_edges_range:
  "publishable P m ps es \<Longrightarrow> (i, j) \<in> batch_edges ps \<Longrightarrow>
     i < length (nodes m) \<and> j < length (nodes m) \<and> i \<noteq> j \<and> (j, i) \<in> batch_edges ps"
  unfolding batch_edges_def publishable_def by (rule pair_keys_props) auto

lemma pending_targets:
  "list_all (edge_matches m) es \<Longrightarrow>
     map targetNodeId (map pe_bridge (filter (\<lambda>e. fst (pe_key e) = i) es)) =
     map (int \<circ> snd) (filter (\<lambda>k. fst k = i) (map pe_key es))"
  by (induction es) (auto simp: edge_matches_def split: prod.splits)

lemma published_targets:
  assumes "publishable P m ps es" "i < length (nodes m)"
  shows "targets_of (fold push_bridge es (nodes m) ! i) =
    targets_of (nodes m ! i) @ map (int \<circ> snd) (filter (\<lambda>k. fst k = i) (map pe_key es))"
proof -
  have "list_all (edge_matches m) es" using assms(1) by (simp add: publishable_def)
  from pending_targets [OF this, of i] show ?thesis
    using assms(2) by (simp add: targets_of_def push_bridges_nth)
qed

lemma published_edges:
  assumes pub: "publishable P m ps es"
  shows "edges (fold push_bridge es (nodes m)) = edges (nodes m) \<union> batch_edges ps"
proof -
  have "(i, j) \<in> edges (fold push_bridge es (nodes m)) \<longleftrightarrow> (i, j) \<in> edges (nodes m) \<or> (i, j) \<in> batch_edges ps" for i j
  proof (cases "i < length (nodes m)")
    case True
    have "int j \<in> set (map (int \<circ> snd) (filter (\<lambda>k. fst k = i) (map pe_key es))) \<longleftrightarrow> (i, j) \<in> pe_key ` set es"
      by (force simp: image_iff)
    then show ?thesis using True published_targets [OF pub True] batch_edges_keys [OF pub]
      by (simp add: edges_def)
  next
    case False
    then show ?thesis using batch_edges_range [OF pub, of i j] by (auto simp: edges_def)
  qed
  then show ?thesis by auto
qed

lemma new_bridge_wf:
  assumes pub: "publishable P m ps es" and e: "e \<in> set es"
  shows "bridge_wf (length (nodes m)) (fst (pe_key e)) (pe_bridge e)"
proof -
  obtain i j where k: "pe_key e = (i, j)" by fastforce
  have "(i, j) \<in> batch_edges ps" unfolding batch_edges_keys [OF pub] using e k by force
  then have r: "i < length (nodes m)" "j < length (nodes m)" "i \<noteq> j" using batch_edges_range [OF pub] by auto
  have nok: "nodes_ok (nodes m)" and hyp: "libm_hypot (hypot_of P)"
    and em: "edge_matches m e" and eg: "edge_geometry P m e"
    using pub e by (auto simp: publishable_def list_all_iff)
  have wf: "vec3_wf (position (nodes m ! i))" "vec3_wf (position (nodes m ! j))"
    using nodes_okD(1) [OF nok r(1)] nodes_okD(1) [OF nok r(2)] by (simp_all add: node_wf_def node_data_ok_def)
  have d: "distanceTo (hypot_of P) (position (nodes m ! i)) (position (nodes m ! j)) = Inr (distance (pe_bridge e))"
    using eg k by (auto simp: edge_geometry_def intro: libm_hypot.distance_sym [OF hyp])
  have w: "orientationFactorTo (hypot_of P) (position (nodes m ! i)) (position (nodes m ! j)) =
       Inr (orientationWeight (pe_bridge e))" using eg k by (simp add: edge_geometry_def)
  have b: "pe_bridge e = fresh_bridge (int j) (distance (pe_bridge e)) (orientationWeight (pe_bridge e))"
    using em k by (cases "pe_bridge e") (simp add: edge_matches_def fresh_bridge_def)
  have "bridge_ok (fresh_bridge (int j) (distance (pe_bridge e)) (orientationWeight (pe_bridge e)))"
    unfolding fresh_bridge_def by (rule libm_hypot.fresh_bridge_ok [OF hyp d w wf])
  then have "bridge_ok (pe_bridge e)" using b by simp
  moreover have "status_coherent (pe_bridge e)"
    using em k dec_unit(2) [of 9 1] by (simp add: status_coherent_def edge_matches_def)
  ultimately show ?thesis using em k r by (simp add: bridge_wf_def edge_matches_def)
qed

lemma published_node_wf:
  assumes pub: "publishable P m ps es" and i: "i < length (nodes m)"
  shows "node_wf (length (nodes m)) i (fold push_bridge es (nodes m) ! i)"
proof -
  have nok: "nodes_ok (nodes m)" and d: "distinct (map pe_key es)"
    and dj: "pe_key ` set es \<inter> edges (nodes m) = {}" using pub unfolding publishable_def by blast+
  note old = nodes_okD(1) [OF nok i]
  have "distinct (filter (\<lambda>k. fst k = i) (map pe_key es))" using d by (rule distinct_filter)
  then have "distinct (map (int \<circ> snd) (filter (\<lambda>k. fst k = i) (map pe_key es)))"
    by (subst distinct_map) (auto simp: inj_on_def)
  moreover have "set (targets_of (nodes m ! i)) \<inter>
      set (map (int \<circ> snd) (filter (\<lambda>k. fst k = i) (map pe_key es))) = {}"
    using dj i by (force simp: edges_def)
  ultimately have "distinct (targets_of (fold push_bridge es (nodes m) ! i))"
    using old published_targets [OF pub i] by (simp add: node_wf_def)
  moreover have "\<forall>b \<in> set (bridges (fold push_bridge es (nodes m) ! i)). bridge_wf (length (nodes m)) i b"
    using old new_bridge_wf [OF pub] i by (auto simp: push_bridges_nth node_wf_def)
  ultimately show ?thesis using old i by (simp add: node_wf_def node_data_ok_def push_bridges_nth)
qed

lemma published_nodes_ok:
  assumes pub: "publishable P m ps es"
  shows "nodes_ok (fold push_bridge es (nodes m))"
proof -
  have nok: "nodes_ok (nodes m)" using pub by (simp add: publishable_def)
  have "sym (edges (fold push_bridge es (nodes m)))"
    unfolding published_edges [OF pub] using edges_sym [OF nok] batch_edges_range [OF pub]
    by (auto simp: sym_def)
  then show ?thesis using nok published_node_wf [OF pub] by (simp add: nodes_ok_def)
qed

lemma connectPairs_ok:
  assumes ok: "mesh_ok m" and conn: "connectPairsUnlocked P ps m = (Inr u, m')"
    and valid: "valid_pairs (length (nodes m)) ps" and hyp: "libm_hypot (hypot_of P)"
  shows "mesh_ok m'" "edges (nodes m') = edges (nodes m) \<union> batch_edges ps"
proof -
  have nok: "nodes_ok (nodes m)" and dom: "dom (productionRelationships m) = edges (nodes m)"
    using ok by (simp_all add: mesh_ok_def)
  have pos: "\<forall>(a, b) \<in> set ps. 0 \<le> a \<and> 0 \<le> b" using valid by (auto simp: valid_pairs_def)
  obtain es where keys: "map pe_key es = concat (map pair_keys ps)" and match: "list_all (edge_matches m) es"
    and geo: "list_all (edge_geometry P m) es" and dist: "distinct (map pe_key es)"
    and disj: "pe_key ` set es \<inter> dom (productionRelationships m) = {}"
    and ns: "nodes m' = fold push_bridge es (nodes m)"
    and rel: "productionRelationships m' = productionRelationships m ++ map_of (map (\<lambda>x. (pe_key x, pe_lifecycle x)) es)"
    and inc: "nodeIncarnations m' = nodeIncarnations m" and "workerCount m' = workerCount m"
    and "authorityLedger m' = authorityLedger m"
    and al: "alpha m' = (if ps = [] then alpha m else stability_alpha (nodes m'))"
    and dirty: "simulationBufferShapeDirty m' = (if ps = [] then simulationBufferShapeDirty m else True)"
    and buf: "computedStates m' = computedStates m" "pendingBridgeCapacities m' = pendingBridgeCapacities m"
      "pendingBridgeStatuses m' = pendingBridgeStatuses m" "pendingBridgeChanged m' = pendingBridgeChanged m"
    and "topologyValidationRequired m' = (if ps = [] then topologyValidationRequired m else True)"
    by (rule connectPairs_Inr [OF conn pos])
  have ctx: "publishable P m ps es"
    using nok keys match geo dist disj valid hyp by (simp add: publishable_def dom)
  show e: "edges (nodes m') = edges (nodes m) \<union> batch_edges ps"
    unfolding ns by (rule published_edges [OF ctx])
  have "nodes_ok (nodes m')" unfolding ns by (rule published_nodes_ok [OF ctx])
  moreover have "dom (productionRelationships m') = edges (nodes m')"
    unfolding rel e dom_map_add dom dom_map_of_conv_image_fst batch_edges_def keys [symmetric]
    by (simp add: image_image Un_commute)
  moreover have "lifecycle_ok m' k lc" if "productionRelationships m' k = Some lc" for k lc
  proof (cases "map_of (map (\<lambda>x. (pe_key x, pe_lifecycle x)) es) k")
    case None
    then have "productionRelationships m k = Some lc" using that by (simp add: rel map_add_def)
    then show ?thesis using mesh_ok_lifecycle [OF ok] by (simp add: lifecycle_ok_def inc)
  next
    case (Some lc')
    then have "lc' = lc" using that by (simp add: rel)
    then obtain x where "x \<in> set es" "pe_key x = k" "pe_lifecycle x = lc" using Some map_of_SomeD by force
    then have "edge_matches m x" using match by (auto simp: list_all_iff)
    then show ?thesis using \<open>pe_key x = k\<close> \<open>pe_lifecycle x = lc\<close>
      by (auto simp: edge_matches_def lifecycle_ok_def inc split: prod.splits)
  qed
  moreover have "alpha m' = stability_alpha (nodes m')"
    using al ok keys ns by (cases "ps = []") (auto simp: mesh_ok_def)
  moreover have "\<not> simulationBufferShapeDirty m' \<longrightarrow> buffers_match m'"
    using dirty ok keys ns buf by (cases "ps = []") (auto simp: mesh_ok_def buffers_match_def)
  ultimately show "mesh_ok m'" using ok ns inc by (simp add: mesh_ok_def)
qed

lemma validateNodeIndex_ok:
  assumes "mesh_ok m"
  shows "validateNodeIndex m a = Inr u \<longleftrightarrow> 0 \<le> a \<and> a < int (length (nodes m))"
  using assms by (auto simp: validateNodeIndex_def result_simps mesh_ok_def nodes_ok_def)

lemma flags_ok:
  "mesh_ok m \<Longrightarrow> mesh_ok (m\<lparr>topologyValidationRequired := v\<rparr>)"
  "mesh_ok m \<Longrightarrow> mesh_ok (m\<lparr>simulationBufferShapeDirty := True\<rparr>)"
  "mesh_ok m \<Longrightarrow> mesh_ok (enforceStabilityConditionUnlocked m)"
  by (simp_all add: mesh_ok_def lifecycle_ok_def buffers_match_def enforceStabilityConditionUnlocked_def)

end
