(* ===== verification/Mesh_Operations.thy ===== *)
theory Mesh_Operations
  imports Mesh_Topology
begin

text \<open>
  The topology operations of a mesh that satisfies the invariant: which pairs a batch may hold, the
  edges that connecting, proximity connection and pruning leave, and the exceptions they throw.
\<close>

section \<open>Batches of pairs\<close>

definition ordered_pair :: "int \<times> int \<Rightarrow> edge_key" where
  "ordered_pair = (\<lambda>(a, b). (nat (min a b), nat (max a b)))"

definition new_pairs :: "mesh \<Rightarrow> (int \<times> int) list \<Rightarrow> bool" where
  "new_pairs m ps \<longleftrightarrow> valid_pairs (length (nodes m)) ps \<and> distinct (map ordered_pair ps) \<and>
     batch_edges ps \<inter> edges (nodes m) = {}"

lemma batch_edges_simps [simp]:
  "batch_edges [] = {}"
  "batch_edges (p # ps) = set (pair_keys p) \<union> batch_edges ps"
  by (simp_all add: batch_edges_def)

lemma ordered_pair_range:
  "valid_pairs n ((a, b) # ps) \<Longrightarrow> fst (ordered_pair (a, b)) < n \<and> snd (ordered_pair (a, b)) < n"
  by (auto simp: valid_pairs_def ordered_pair_def min_def max_def)

lemma connected_to_edges:
  assumes "mesh_ok m" "s < length (nodes m)" "0 \<le> t"
  shows "connected_to m s t \<longleftrightarrow> (s, nat t) \<in> edges (nodes m)"
  using assms by (auto simp: connected_to_def edges_iff list_ex_iff)

lemma pair_edges_iff:
  assumes "mesh_ok m" "0 \<le> a" "0 \<le> b"
  shows "set (pair_keys (a, b)) \<inter> edges (nodes m) = {} \<longleftrightarrow> ordered_pair (a, b) \<notin> edges (nodes m)"
proof -
  have "nodes_ok (nodes m)" using assms(1) by (simp add: mesh_ok_def)
  from edges_sym [OF this, of "nat a" "nat b"] show ?thesis
    by (auto simp: pair_keys_def ordered_pair_def min_def max_def)
qed

text \<open>The allocations of the insertions of a batch all succeed.\<close>

definition batch_room :: "platform \<Rightarrow> nat \<Rightarrow> (int \<times> int) list \<Rightarrow> bool" where
  "batch_room P k ps \<longleftrightarrow> (\<forall>i < length ps. scratch_room P (Suc (k + i)))"

lemma scratch_guard_simps [simp]:
  "scratch_guard P i j = Inr u \<longleftrightarrow> (\<forall>k. i \<le> k \<longrightarrow> k < j \<longrightarrow> scratch_room P k)"
  "scratch_guard P i j = Inl e \<longleftrightarrow> e = Bad_alloc \<and> (\<exists>k. i \<le> k \<and> k < j \<and> \<not> scratch_room P k)"
  by (auto simp: scratch_guard_def guard_that_def list_all_iff)

lemma scratch_guard_Suc: "scratch_guard P k (Suc k) = guard_that (scratch_room P k) Bad_alloc"
  by (simp add: scratch_guard_def)

lemma scratch_guard_one [simp]: "(\<forall>i. k \<le> i \<longrightarrow> i < Suc k \<longrightarrow> Q i) \<longleftrightarrow> Q k"
  by (auto simp: le_less_Suc_eq)

lemma batch_room_Cons: "batch_room P k (p # ps) \<longleftrightarrow> scratch_room P (Suc k) \<and> batch_room P (Suc k) ps"
  by (simp add: batch_room_def All_less_Suc2)

lemma validate_batch_iff:
  assumes ok: "mesh_ok m"
  shows "validate_batch P m seen ps = Inr u \<longleftrightarrow>
    new_pairs m ps \<and> ordered_pair ` set ps \<inter> set seen = {} \<and> batch_room P (length seen) ps"
proof (induction ps arbitrary: seen)
  case Nil
  then show ?case by (simp add: new_pairs_def valid_pairs_def batch_room_def)
next
  case (Cons p ps)
  obtain a b where p: "p = (a, b)" by fastforce
  have nok: "nodes_ok (nodes m)" using ok by (simp add: mesh_ok_def)
  show ?case
  proof (cases "valid_pairs (length (nodes m)) [p]")
    case True
    then have r: "0 \<le> a" "a < int (length (nodes m))" "0 \<le> b" "b < int (length (nodes m))" "a \<noteq> b"
      by (simp_all add: valid_pairs_def p)
    have s: "nat (min a b) < length (nodes m)" "nat (max a b) < 2 ^ 31" "0 \<le> max a b"
      using r nok by (simp_all add: nodes_ok_def nat_less_iff max_def)
    have "size_to_int (nat (max a b)) = max a b" using s(2,3) by (simp only: size_to_int_small)
    then have c: "connected_to m (nat (min a b)) (size_to_int (nat (max a b))) \<longleftrightarrow> ordered_pair p \<in> edges (nodes m)"
      using connected_to_edges [OF ok s(1,3)] by (simp add: p ordered_pair_def)
    have v: "validate_batch P m seen (p # ps) = Inr u \<longleftrightarrow> scratch_room P (Suc (length seen)) \<and>
        ordered_pair p \<notin> set seen \<and> ordered_pair p \<notin> edges (nodes m) \<and>
        validate_batch P m (ordered_pair p # seen) ps = Inr u"
      using r c by (simp add: p result_simps validateNodeIndex_ok [OF ok] Let_def)
        (auto simp: ordered_pair_def)
    have "new_pairs m (p # ps) \<longleftrightarrow> ordered_pair p \<notin> edges (nodes m) \<and>
        ordered_pair p \<notin> ordered_pair ` set ps \<and> new_pairs m ps"
      using pair_edges_iff [OF ok r(1,3)] r
      by (auto simp: new_pairs_def valid_pairs_def p Int_Un_distrib2)
    then show ?thesis unfolding v Cons.IH by (auto simp: batch_room_Cons)
  next
    case False
    have "validate_batch P m seen (p # ps) \<noteq> Inr u"
      using False by (auto simp: p result_simps validateNodeIndex_ok [OF ok] valid_pairs_def)
    then show ?thesis using False by (auto simp: new_pairs_def valid_pairs_def)
  qed
qed

lemma pair_keys_ordered_pair:
  "k \<in> set (pair_keys p) \<Longrightarrow> ordered_pair p = (min (fst k) (snd k), max (fst k) (snd k))"
  by (cases p) (auto simp: pair_keys_def ordered_pair_def min_def max_def)

lemma pair_keys_ordered:
  "k \<in> set (pair_keys p) \<Longrightarrow> k \<in> set (pair_keys q) \<Longrightarrow> ordered_pair p = ordered_pair q"
  by (simp add: pair_keys_ordered_pair)

lemma distinct_pair_keys:
  assumes "valid_pairs n ps" "distinct (map ordered_pair ps)"
  shows "distinct (concat (map pair_keys ps))"
  using assms
proof (induction ps)
  case (Cons p ps)
  have "distinct (pair_keys p)" using Cons.prems(1) by (auto simp: pair_keys_def valid_pairs_def)
  moreover have "set (pair_keys p) \<inter> set (pair_keys q) = {}" if "q \<in> set ps" for q
  proof -
    have "ordered_pair p \<noteq> ordered_pair q" using Cons.prems(2) that by auto
    then show ?thesis using pair_keys_ordered by blast
  qed
  moreover have "distinct (concat (map pair_keys ps))"
    using Cons by (simp add: valid_pairs_def)
  ultimately show ?case by auto
qed simp

lemma connectNodes_validation:
  assumes ok: "mesh_ok m"
  shows "rbind (validateNodeIndex m a) (\<lambda>_.
          rbind (validateNodeIndex m b) (\<lambda>_.
          rbind (guard_that (a \<noteq> b) (Invalid_argument ''self-connections are not allowed'')) (\<lambda>_.
          guard_that (\<not> connected_to m (nat a) b) (Invalid_argument ''bridge pair already exists'')))) = Inr u
    \<longleftrightarrow> new_pairs m [(a, b)]"
proof -
  have "new_pairs m [(a, b)] \<longleftrightarrow> 0 \<le> a \<and> a < int (length (nodes m)) \<and> 0 \<le> b \<and>
      b < int (length (nodes m)) \<and> a \<noteq> b \<and> (nat a, nat b) \<notin> edges (nodes m)"
    using pair_edges_iff [OF ok, of a b] edges_sym [of "nodes m" "nat a" "nat b"] ok
    by (auto simp: new_pairs_def valid_pairs_def mesh_ok_def pair_keys_def)
  moreover have "0 \<le> a \<and> a < int (length (nodes m)) \<longrightarrow> nat a < length (nodes m)" by linarith
  ultimately show ?thesis using connected_to_edges [OF ok, of "nat a" b]
    by (auto simp: result_simps validateNodeIndex_ok [OF ok])
qed

section \<open>Results of the connecting operations\<close>

lemma connectNodes_Inr:
  assumes ok: "mesh_ok m" and run: "connectNodes P a b m = (Inr u, m')" and hyp: "libm_hypot (hypot_of P)"
  shows "new_pairs m [(a, b)]" "mesh_ok m'"
    "edges (nodes m') = edges (nodes m) \<union> {(nat a, nat b), (nat b, nat a)}"
proof -
  obtain v m1 where v: "rbind (validateNodeIndex m a) (\<lambda>_.
          rbind (validateNodeIndex m b) (\<lambda>_.
          rbind (guard_that (a \<noteq> b) (Invalid_argument ''self-connections are not allowed'')) (\<lambda>_.
          guard_that (\<not> connected_to m (nat a) b) (Invalid_argument ''bridge pair already exists'')))) = Inr v"
    and c: "connectPairsUnlocked P [(a, b)] m = (Inr (), m1)"
    and m': "m' = m1\<lparr>simulationBufferShapeDirty := True, topologyValidationRequired := True\<rparr>"
    using run unfolding connectNodes_def by (auto simp: rbind_eq_Inr_iff [where m = "rbind _ _"] split: sum.splits prod.splits)
  show new: "new_pairs m [(a, b)]" using v connectNodes_validation [OF ok] by blast
  then have "valid_pairs (length (nodes m)) [(a, b)]" by (simp add: new_pairs_def)
  note r = connectPairs_ok [OF ok c this hyp]
  show "mesh_ok m'" unfolding m' using flags_ok(1,2) r(1) by fastforce
  show "edges (nodes m') = edges (nodes m) \<union> {(nat a, nat b), (nat b, nat a)}"
    using r(2) by (simp add: m' pair_keys_def)
qed

lemma connectNodePairs_Inr:
  assumes ok: "mesh_ok m" and run: "connectNodePairs P ps m = (Inr u, m')" and hyp: "libm_hypot (hypot_of P)"
  shows "new_pairs m ps" "mesh_ok m'" "edges (nodes m') = edges (nodes m) \<union> batch_edges ps"
proof -
  have v: "validate_batch P m [] ps = Inr ()" and c: "connectPairsUnlocked P ps m = (Inr (), m')"
    using run by (auto simp: connectNodePairs_def result_simps split: sum.splits)
  show new: "new_pairs m ps" using v validate_batch_iff [OF ok] by fastforce
  then have "valid_pairs (length (nodes m)) ps" by (simp add: new_pairs_def)
  from connectPairs_ok [OF ok c this hyp]
  show "mesh_ok m'" "edges (nodes m') = edges (nodes m) \<union> batch_edges ps" .
qed

section \<open>Proximity\<close>

definition near :: "platform \<Rightarrow> mesh \<Rightarrow> f64 \<Rightarrow> nat \<Rightarrow> nat \<Rightarrow> bool" where
  "near P m r i j = (case distanceTo (hypot_of P) (position (nodes m ! i)) (position (nodes m ! j)) of
     Inl _ \<Rightarrow> False | Inr d \<Rightarrow> d \<le> r)"

lemma near_iff:
  "near P m r i j \<longleftrightarrow>
     (\<exists>d. distanceTo (hypot_of P) (position (nodes m ! i)) (position (nodes m ! j)) = Inr d \<and> d \<le> r)"
  by (simp add: near_def split: sum.splits)

lemma near_sym: "libm_hypot (hypot_of P) \<Longrightarrow> near P m r i j \<Longrightarrow> near P m r j i"
  unfolding near_iff using libm_hypot.distance_sym by blast

lemma collect_near_Inr:
  assumes "collect_near P m r k es ps = Inr cs" "distinct ps" "\<forall>(i, j) \<in> set ps. i < j \<and> j < 2 ^ 31"
  shows "cs = map (\<lambda>(i, j). (int i, int j)) (filter (\<lambda>(i, j). near P m r i j \<and> (i, j) \<notin> set es) ps)"
  using assms
proof (induction P m r k es ps arbitrary: cs rule: collect_near.induct)
  case (2 P m r k es i j ps)
  obtain d where d: "distanceTo (hypot_of P) (position (nodes m ! i)) (position (nodes m ! j)) = Inr d"
    using "2.prems"(1) by (auto simp: result_simps)
  have tl: "distinct ps" "\<forall>(i, j) \<in> set ps. i < j \<and> j < 2 ^ 31" and ij: "i < j" "j < 2 ^ 31" "(i, j) \<notin> set ps"
    using "2.prems"(2,3) by auto
  show ?case
  proof (cases "d \<le> r \<and> (i, j) \<notin> set es")
    case True
    then obtain cs' where cs': "collect_near P m r (k + 3) ((j, i) # (i, j) # es) ps = Inr cs'"
      "cs = (size_to_int i, size_to_int j) # cs'"
      using "2.prems"(1) by (auto simp: d result_simps)
    have "cs' = map (\<lambda>(i, j). (int i, int j))
        (filter (\<lambda>(h, l). near P m r h l \<and> (h, l) \<notin> set ((j, i) # (i, j) # es)) ps)"
      using "2.IH"(1) [OF True cs'(1) tl] .
    also have "filter (\<lambda>(h, l). near P m r h l \<and> (h, l) \<notin> set ((j, i) # (i, j) # es)) ps =
        filter (\<lambda>(h, l). near P m r h l \<and> (h, l) \<notin> set es) ps"
      using tl(2) ij by (intro filter_cong) auto
    finally show ?thesis using True ij cs'(2) d by (simp add: near_def)
  next
    case False
    then have "collect_near P m r k es ps = Inr cs"
      using "2.prems"(1) by (simp only: collect_near.simps d rbind_simps if_False)
    from "2.IH"(2) [OF False this tl] show ?thesis using False d by (auto simp: near_def)
  qed
qed simp

lemma set_index_pairs: "set (index_pairs n) = {(i, j). i < j \<and> j < n}"
  by (force simp: index_pairs_def)

lemma distinct_index_pairs: "distinct (index_pairs n)"
proof -
  have "distinct (concat (map (\<lambda>i. map (Pair i) [Suc i ..< n]) is))" if "distinct is" for "is"
    using that by (induction "is") (auto simp: distinct_map inj_on_def)
  then show ?thesis by (simp add: index_pairs_def)
qed

lemma set_directed_bridges:
  "(i, b) \<in> set (directed_bridges ns) \<longleftrightarrow> i < length ns \<and> b \<in> set (bridges (ns ! i))"
  by (force simp: directed_bridges_def in_set_enumerate_eq)

lemma set_directed_edges:
  assumes "nodes_ok ns"
  shows "set (directed_edges ns) = edges ns"
proof -
  have r: "in_index_range (length ns) (targetNodeId b) \<and> 0 \<le> targetNodeId b"
    if "i < length ns" "b \<in> set (bridges (ns ! i))" for i b
    using nodes_ok_bridge [OF assms that] nodes_okD(2) [OF assms that(1)]
    by (simp add: bridge_wf_def in_index_range_def)
  have "(i, j) \<in> set (directed_edges ns) \<longleftrightarrow> (i, j) \<in> edges ns" for i j
    using r by (force simp: directed_edges_def edges_iff set_directed_bridges image_iff)
  then show ?thesis by auto
qed

lemma autoConnect_pairs:
  assumes ok: "mesh_ok m" and col: "collect_near P m r k (directed_edges (nodes m)) (index_pairs (length (nodes m))) = Inr cs"
    and hyp: "libm_hypot (hypot_of P)"
  shows "new_pairs m cs"
    "(i, j) \<in> batch_edges cs \<longleftrightarrow> i < length (nodes m) \<and> j < length (nodes m) \<and> i \<noteq> j \<and>
       near P m r i j \<and> (i, j) \<notin> edges (nodes m)"
proof -
  have nok: "nodes_ok (nodes m)" using ok by (simp add: mesh_ok_def)
  define ps where "ps = filter (\<lambda>(i, j). near P m r i j \<and> (i, j) \<notin> edges (nodes m)) (index_pairs (length (nodes m)))"
  have ps: "(i, j) \<in> set ps \<longleftrightarrow> i < j \<and> j < length (nodes m) \<and> near P m r i j \<and> (i, j) \<notin> edges (nodes m)" for i j
    by (auto simp: ps_def set_index_pairs)
  have "\<forall>(i, j) \<in> set (index_pairs (length (nodes m))). i < j \<and> j < 2 ^ 31"
    using nok by (auto simp: set_index_pairs nodes_ok_def)
  from collect_near_Inr [OF col distinct_index_pairs this]
  have cs: "cs = map (\<lambda>(i, j). (int i, int j)) ps"
    by (simp add: ps_def set_directed_edges [OF nok])
  have b: "(i, j) \<in> batch_edges cs \<longleftrightarrow> (i, j) \<in> set ps \<or> (j, i) \<in> set ps" for i j
    by (force simp: batch_edges_def cs pair_keys_def)
  show iff: "(i, j) \<in> batch_edges cs \<longleftrightarrow> i < length (nodes m) \<and> j < length (nodes m) \<and> i \<noteq> j \<and>
       near P m r i j \<and> (i, j) \<notin> edges (nodes m)" for i j
    unfolding b ps using near_sym [OF hyp] edges_sym [OF nok] by (metis less_trans nat_neq_iff)
  have "map ordered_pair cs = ps"
    unfolding cs map_map by (rule map_idI) (auto simp: ps ordered_pair_def)
  moreover have "distinct ps" unfolding ps_def by (rule distinct_filter) (rule distinct_index_pairs)
  moreover have "valid_pairs (length (nodes m)) cs"
    by (auto simp: valid_pairs_def cs ps)
  ultimately show "new_pairs m cs" using iff by (auto simp: new_pairs_def)
qed

lemma autoConnect_Inr:
  assumes ok: "mesh_ok m" and run: "autoConnectNearbyNodes P r m = (Inr u, m')" and hyp: "libm_hypot (hypot_of P)"
  shows "mesh_ok m'"
    "(i, j) \<in> edges (nodes m') \<longleftrightarrow> (i, j) \<in> edges (nodes m) \<or>
       (i < length (nodes m) \<and> j < length (nodes m) \<and> i \<noteq> j \<and> near P m r i j)"
    "isfinite r" "0 \<le> r"
proof -
  obtain cs m1 k where col: "collect_near P m r k (directed_edges (nodes m)) (index_pairs (length (nodes m))) = Inr cs"
    and c: "connectPairsUnlocked P cs m = (Inr (), m1)" and r: "isfinite r" "\<not> r < 0"
    and m': "m' = (enforceStabilityConditionUnlocked m1)\<lparr>topologyValidationRequired := True\<rparr>"
    using run by (auto simp: autoConnectNearbyNodes_def result_simps Let_def split: sum.splits prod.splits)
  show "isfinite r" "0 \<le> r" using r f64_range_iff(2) by auto
  have new: "new_pairs m cs" by (rule autoConnect_pairs(1) [OF ok col hyp])
  then have "valid_pairs (length (nodes m)) cs" by (simp add: new_pairs_def)
  note e = connectPairs_ok [OF ok c this hyp]
  show "mesh_ok m'" unfolding m' by (intro flags_ok e)
  show "(i, j) \<in> edges (nodes m') \<longleftrightarrow> (i, j) \<in> edges (nodes m) \<or>
       (i < length (nodes m) \<and> j < length (nodes m) \<and> i \<noteq> j \<and> near P m r i j)"
    using e(2) autoConnect_pairs(2) [OF ok col hyp, of i j]
    by (auto simp: m' enforceStabilityConditionUnlocked_def)
qed

section \<open>Pruning\<close>

text \<open>A directed edge is strong when its bridge is neither below the threshold nor isolated.\<close>

definition strong_edge :: "f64 \<Rightarrow> node list \<Rightarrow> edge_key \<Rightarrow> bool" where
  "strong_edge th ns = (\<lambda>(i, j). \<exists>b \<in> set (bridges (ns ! i)). targetNodeId b = int j \<and>
     \<not> isolated_bridge th (capacity b) (status b))"

lemma bridge_unique:
  assumes "nodes_ok ns" "i < length ns" "b \<in> set (bridges (ns ! i))" "c \<in> set (bridges (ns ! i))"
    "targetNodeId b = targetNodeId c"
  shows "b = c"
proof -
  have "distinct (map targetNodeId (bridges (ns ! i)))"
    using nodes_okD(1) [OF assms(1,2)] by (simp add: node_wf_def targets_of_def)
  then have "inj_on targetNodeId (set (bridges (ns ! i)))" by (simp add: distinct_map)
  then show ?thesis using assms(3-5) by (auto dest: inj_onD)
qed

lemma strong_edge_iff:
  assumes "nodes_ok ns" "i < length ns" "b \<in> set (bridges (ns ! i))" "targetNodeId b = int j"
  shows "strong_edge th ns (i, j) \<longleftrightarrow> \<not> isolated_bridge th (capacity b) (status b)"
proof -
  have "c = b" if "c \<in> set (bridges (ns ! i))" "targetNodeId c = int j" for c
    using bridge_unique [OF assms(1,2) that(1) assms(3)] that(2) assms(4) by simp
  then show ?thesis unfolding strong_edge_def using assms(3,4) by blast
qed

lemma set_proper_bridges:
  assumes "nodes_ok ns"
  shows "(i, b) \<in> set (proper_bridges ns) \<longleftrightarrow> i < length ns \<and> b \<in> set (bridges (ns ! i))"
proof -
  have "proper_bridge (length ns) (i, b)" if "i < length ns" "b \<in> set (bridges (ns ! i))"
    using nodes_ok_bridge [OF assms that] nodes_okD(2) [OF assms that(1)] that(1)
    by (simp add: bridge_wf_def proper_bridge_def in_index_range_def)
  then show ?thesis by (auto simp: proper_bridges_def set_directed_bridges)
qed

lemma first_bridges_iff:
  assumes "nodes_ok ns" "(i, j) \<in> edges ns"
  shows "\<exists>c st. first_bridges ns (i, j) = Some (c, st) \<and>
    (isolated_bridge th c st \<longleftrightarrow> \<not> strong_edge th ns (i, j))"
proof -
  obtain b where b: "i < length ns" "b \<in> set (bridges (ns ! i))" "targetNodeId b = int j"
    using assms(2) by (auto simp: edges_iff)
  have "((i, j), (capacity b, status b)) \<in>
      set (map (\<lambda>(s, b). ((s, nat (targetNodeId b)), (capacity b, status b))) (proper_bridges ns))"
    using b set_proper_bridges [OF assms(1), of i b] by (force simp: image_iff)
  then obtain v where v: "first_bridges ns (i, j) = Some v"
    unfolding first_bridges_def by (meson weak_map_of_SomeI)
  then obtain s c where c: "(s, c) \<in> set (proper_bridges ns)" "i = s" "j = nat (targetNodeId c)"
    "v = (capacity c, status c)"
    unfolding first_bridges_def by (auto dest!: map_of_SomeD)
  then have "c \<in> set (bridges (ns ! i))" using set_proper_bridges [OF assms(1)] by auto
  moreover have "targetNodeId c = int j"
    using c(3) nodes_ok_bridge [OF assms(1) b(1) calculation] by (simp add: bridge_wf_def)
  ultimately show ?thesis using v c(4) strong_edge_iff [OF assms(1) b(1)] by auto
qed

lemma pair_key_eq: "pair_key i j = pair_key s t \<Longrightarrow> (s = i \<and> t = j) \<or> (s = j \<and> t = i)"
  by (auto simp: pair_key_def split: if_splits)

lemma pair_key_sym: "pair_key i j = pair_key j i"
  by (auto simp: pair_key_def)

lemma invalid_pairs_iff:
  assumes ok: "nodes_ok ns"
  shows "k \<in> set (invalid_pairs th ns) \<longleftrightarrow> (\<exists>i j. (i, j) \<in> edges ns \<and> k = pair_key i j \<and>
    (\<not> strong_edge th ns (i, j) \<or> \<not> strong_edge th ns (j, i)))"
proof -
  have entry: "isolated_bridge th (capacity b) (status b) \<or>
        (case first_bridges ns (nat (targetNodeId b), i) of None \<Rightarrow> True
         | Some (c, st) \<Rightarrow> isolated_bridge th c st) \<longleftrightarrow>
      \<not> strong_edge th ns (i, nat (targetNodeId b)) \<or> \<not> strong_edge th ns (nat (targetNodeId b), i)"
    if b: "i < length ns" "b \<in> set (bridges (ns ! i))" for i b
  proof -
    have t: "targetNodeId b = int (nat (targetNodeId b))"
      using nodes_ok_bridge [OF ok b] by (simp add: bridge_wf_def)
    then have "(nat (targetNodeId b), i) \<in> edges ns"
      using b edges_sym [OF ok] by (auto simp: edges_iff)
    from first_bridges_iff [OF ok this, of th] strong_edge_iff [OF ok b t, of th]
    show ?thesis by auto
  qed
  show ?thesis
  proof
    assume "k \<in> set (invalid_pairs th ns)"
    then obtain i b where b: "i < length ns" "b \<in> set (bridges (ns ! i))" "k = pair_key i (nat (targetNodeId b))"
      "isolated_bridge th (capacity b) (status b) \<or>
        (case first_bridges ns (nat (targetNodeId b), i) of None \<Rightarrow> True
         | Some (c, st) \<Rightarrow> isolated_bridge th c st)"
      using set_proper_bridges [OF ok] by (auto simp: invalid_pairs_def weak_counterpart_def)
    moreover have "(i, nat (targetNodeId b)) \<in> edges ns"
      using b nodes_ok_bridge [OF ok b(1,2)] by (auto simp: edges_iff bridge_wf_def)
    ultimately show "\<exists>i j. (i, j) \<in> edges ns \<and> k = pair_key i j \<and>
        (\<not> strong_edge th ns (i, j) \<or> \<not> strong_edge th ns (j, i))"
      using entry [OF b(1,2)] by blast
  next
    assume "\<exists>i j. (i, j) \<in> edges ns \<and> k = pair_key i j \<and>
        (\<not> strong_edge th ns (i, j) \<or> \<not> strong_edge th ns (j, i))"
    then obtain i b where b: "i < length ns" "b \<in> set (bridges (ns ! i))" "k = pair_key i (nat (targetNodeId b))"
      "\<not> strong_edge th ns (i, nat (targetNodeId b)) \<or> \<not> strong_edge th ns (nat (targetNodeId b), i)"
      by (auto simp: edges_iff)
    then show "k \<in> set (invalid_pairs th ns)"
      using entry [OF b(1,2)] set_proper_bridges [OF ok, of i b]
      by (auto simp: invalid_pairs_def weak_counterpart_def image_iff intro!: bexI [of _ "(i, b)"])
  qed
qed

lemma keep_bridge_iff:
  assumes ok: "nodes_ok ns" and b: "i < length ns" "b \<in> set (bridges (ns ! i))" "targetNodeId b = int j"
  shows "keep_bridge (length ns) (invalid_pairs th ns) i b \<longleftrightarrow>
    strong_edge th ns (i, j) \<and> strong_edge th ns (j, i)"
proof -
  have e: "(i, j) \<in> edges ns" "(j, i) \<in> edges ns" using b edges_sym [OF ok] by (auto simp: edges_iff)
  have "in_index_range (length ns) (targetNodeId b)"
    using nodes_ok_bridge [OF ok b(1,2)] nodes_okD(2) [OF ok b(1)] by (simp add: bridge_wf_def in_index_range_def)
  moreover have "pair_key i j \<in> set (invalid_pairs th ns) \<longleftrightarrow>
      \<not> (strong_edge th ns (i, j) \<and> strong_edge th ns (j, i))"
    unfolding invalid_pairs_iff [OF ok] using e pair_key_eq by (metis pair_key_sym)
  ultimately show ?thesis using b(3) by (simp add: keep_bridge_def)
qed

lemma length_prune_nodes [simp]: "length (prune_nodes th ns) = length ns"
  by (simp add: prune_nodes_def)

lemma prune_nodes_nth:
  "i < length ns \<Longrightarrow> prune_nodes th ns ! i =
     (ns ! i)\<lparr>bridges := filter (keep_bridge (length ns) (invalid_pairs th ns) i) (bridges (ns ! i))\<rparr>"
  by (simp add: prune_nodes_def nth_enumerate_eq)

lemma prune_nodes_edges:
  assumes ok: "nodes_ok ns"
  shows "edges (prune_nodes th ns) =
    {(i, j) \<in> edges ns. strong_edge th ns (i, j) \<and> strong_edge th ns (j, i)}"
proof -
  have "(i, j) \<in> edges (prune_nodes th ns) \<longleftrightarrow>
      (i, j) \<in> edges ns \<and> strong_edge th ns (i, j) \<and> strong_edge th ns (j, i)" for i j
    using keep_bridge_iff [OF ok, of i _ j th] by (auto simp: edges_iff prune_nodes_nth)
  then show ?thesis by auto
qed

lemma prune_nodes_ok:
  assumes ok: "nodes_ok ns"
  shows "nodes_ok (prune_nodes th ns)"
proof -
  have "node_wf (length ns) i (prune_nodes th ns ! i)" if i: "i < length ns" for i
    using nodes_okD(1) [OF ok i] i
    by (simp add: node_wf_def prune_nodes_nth targets_of_def node_data_ok_def distinct_map_filter)
  moreover have "sym (edges (prune_nodes th ns))"
    unfolding prune_nodes_edges [OF ok] using edges_sym [OF ok] by (auto simp: sym_def)
  ultimately show ?thesis using ok by (simp add: nodes_ok_def)
qed

lemma filter_length_id: "length (filter Q xs) = length xs \<Longrightarrow> filter Q xs = xs"
  by (metis filter_id_conv length_filter_less less_irrefl)

lemma prune_nodes_unchanged:
  assumes "map (\<lambda>n. length (bridges n)) (prune_nodes th ns) = map (\<lambda>n. length (bridges n)) ns"
  shows "prune_nodes th ns = ns"
proof (rule nth_equalityI)
  fix i assume i: "i < length (prune_nodes th ns)"
  have "length (bridges (prune_nodes th ns ! i)) = length (bridges (ns ! i))"
    using arg_cong [OF assms, of "\<lambda>l. l ! i"] i by simp
  then show "prune_nodes th ns ! i = ns ! i" using i by (simp add: prune_nodes_nth filter_length_id)
qed simp

lemma discard_relationships:
  assumes "nodes_ok (nodes m)" "\<And>s t. productionRelationships m (s, t) \<noteq> None \<Longrightarrow> t < length (nodes m)"
  shows "productionRelationships (discardAbsentProductionRelationshipsUnlocked m) k =
    (if k \<in> edges (nodes m) then productionRelationships m k else None)"
proof (cases k)
  case (Pair s t)
  have "connected_to m s (size_to_int t) \<longleftrightarrow> (s, t) \<in> edges (nodes m)"
    if "s < length (nodes m)" "t < length (nodes m)" using that assms(1)
    by (auto simp: connected_to_def edges_iff list_ex_iff nodes_ok_def)
  moreover have "productionRelationships m (s, t) = None" if "\<not> t < length (nodes m)"
    using that assms(2) by blast
  ultimately show ?thesis
    using Pair edges_range [OF assms(1), of s t]
    by (cases "t < length (nodes m)") (auto simp: discardAbsentProductionRelationshipsUnlocked_def)
qed

lemma prune_Inr:
  assumes ok: "mesh_ok m" and run: "pruneIsolatedBridges P th m = (Inr u, m')"
  shows "mesh_ok m'" "nodes m' = prune_nodes th (nodes m)"
    "edges (nodes m') = {(i, j) \<in> edges (nodes m). strong_edge th (nodes m) (i, j) \<and> strong_edge th (nodes m) (j, i)}"
    "productionRelationships m' = productionRelationships m |` edges (nodes m')"
    "isfinite th" "0 \<le> th"
proof -
  define ns where "ns = prune_nodes th (nodes m)"
  define changed where "changed \<longleftrightarrow> map (\<lambda>n. length (bridges n)) ns \<noteq> map (\<lambda>n. length (bridges n)) (nodes m)"
  define m1 where "m1 = enforceStabilityConditionUnlocked (m\<lparr>nodes := ns\<rparr>)"
  have th: "isfinite th" "\<not> th < 0"
    and m': "m' = (if changed
        then (discardAbsentProductionRelationshipsUnlocked m1)\<lparr>simulationBufferShapeDirty := True\<rparr>
        else m1)\<lparr>topologyValidationRequired := True\<rparr>"
    using run unfolding pruneIsolatedBridges_def Let_def ns_def [symmetric] m1_def [symmetric]
      changed_def [symmetric] by (auto simp: result_simps split: sum.splits)
  show "isfinite th" "0 \<le> th" using th f64_range_iff(2) by auto
  have nok: "nodes_ok (nodes m)" and dom: "dom (productionRelationships m) = edges (nodes m)"
    using ok by (simp_all add: mesh_ok_def)
  have m1: "nodes m1 = ns" "productionRelationships m1 = productionRelationships m"
    "alpha m1 = stability_alpha ns" "nodeIncarnations m1 = nodeIncarnations m"
    by (simp_all add: m1_def enforceStabilityConditionUnlocked_def)
  show n': "nodes m' = prune_nodes th (nodes m)"
    by (simp add: m' m1 ns_def discardAbsentProductionRelationshipsUnlocked_def)
  have nok': "nodes_ok ns" unfolding ns_def by (rule prune_nodes_ok [OF nok])
  show e': "edges (nodes m') = {(i, j) \<in> edges (nodes m). strong_edge th (nodes m) (i, j) \<and> strong_edge th (nodes m) (j, i)}"
    unfolding n' by (rule prune_nodes_edges [OF nok])
  have rng: "t < length (nodes m1)" if "productionRelationships m1 (s, t) \<noteq> None" for s t
    using that edges_range [OF nok, of s t] dom by (auto simp: m1 ns_def)
  have same: "ns = nodes m" if "\<not> changed"
    using that prune_nodes_unchanged unfolding changed_def ns_def by blast
  have rel: "productionRelationships m' k = (if k \<in> edges ns then productionRelationships m k else None)" for k
  proof (cases changed)
    case True
    then show ?thesis using discard_relationships [of m1 k] nok' rng by (simp add: m' m1)
  next
    case False
    then show ?thesis using same dom by (auto simp: m' m1 domIff)
  qed
  then show "productionRelationships m' = productionRelationships m |` edges (nodes m')"
    by (auto simp: n' ns_def restrict_map_def)
  have "dom (productionRelationships m') = dom (productionRelationships m) \<inter> edges ns"
    by (auto simp: rel split: if_splits)
  then have "dom (productionRelationships m') = edges (nodes m')"
    using e' dom unfolding n' ns_def [symmetric] by auto
  moreover have "lifecycle_ok m' k lc" if "productionRelationships m' k = Some lc" for k lc
  proof -
    have "productionRelationships m k = Some lc" using that by (simp add: rel split: if_splits)
    from mesh_ok_lifecycle [OF ok this] show ?thesis
      by (simp add: lifecycle_ok_def m' m1 discardAbsentProductionRelationshipsUnlocked_def)
  qed
  moreover have "\<not> simulationBufferShapeDirty m' \<longrightarrow> buffers_match m'"
  proof (cases changed)
    case True
    then show ?thesis by (simp add: m')
  next
    case False
    then show ?thesis using same ok
      by (simp add: m' m1 mesh_ok_def buffers_match_def m1_def enforceStabilityConditionUnlocked_def)
  qed
  moreover have "alpha m' = stability_alpha (nodes m')" "nodeIncarnations m' = nodeIncarnations m"
    by (simp_all add: m' m1 n' ns_def discardAbsentProductionRelationshipsUnlocked_def)
  ultimately show "mesh_ok m'" using nok' ok by (simp add: mesh_ok_def n' ns_def)
qed

section \<open>Updates of the values of nodes\<close>

text \<open>Replacing states, health indices, capacities and statuses keeps the invariant.\<close>

definition same_shape :: "node \<Rightarrow> node \<Rightarrow> bool" where
  "same_shape n n' \<longleftrightarrow> node_id n' = node_id n \<and> targets_of n' = targets_of n \<and> node_data_ok n' \<and>
     (\<forall>b \<in> set (bridges n'). bridge_ok b \<and> status_coherent b)"

lemma same_shape_node_wf:
  assumes "node_wf n i nd" "same_shape nd nd'"
  shows "node_wf n i nd'"
proof -
  have "bridge_wf n i b" if "b \<in> set (bridges nd')" for b
  proof -
    have "targetNodeId b \<in> set (targets_of nd')" using that by (simp add: targets_of_def)
    then have "targetNodeId b \<in> set (targets_of nd)" using assms(2) by (simp add: same_shape_def)
    then obtain c where "c \<in> set (bridges nd)" "targetNodeId c = targetNodeId b"
      by (auto simp: targets_of_def)
    then show ?thesis using assms that by (auto simp: node_wf_def bridge_wf_def same_shape_def)
  qed
  then show ?thesis using assms by (simp add: node_wf_def same_shape_def)
qed

lemma list_all2_shape_edges: "list_all2 same_shape ns ns' \<Longrightarrow> edges ns' = edges ns"
  by (auto simp: edges_def same_shape_def list_all2_conv_all_nth)

lemma list_all2_shape_lengths:
  "list_all2 same_shape ns ns' \<Longrightarrow>
     map (\<lambda>n. length (bridges n)) ns' = map (\<lambda>n. length (bridges n)) ns"
  by (induction rule: list_all2_induct) (auto simp: same_shape_def targets_of_def dest: map_eq_imp_length_eq)

lemma nodes_ok_shape:
  assumes "nodes_ok ns" "list_all2 same_shape ns ns'"
  shows "nodes_ok ns'"
  using assms list_all2_lengthD [OF assms(2)] list_all2_shape_edges [OF assms(2)]
  by (auto simp: nodes_ok_def list_all2_conv_all_nth intro: same_shape_node_wf)

lemma mesh_ok_shape:
  assumes "mesh_ok m" "list_all2 same_shape (nodes m) ns'"
  shows "mesh_ok (m\<lparr>nodes := ns'\<rparr>)"
  using assms nodes_ok_shape [of "nodes m" ns'] list_all2_lengthD [OF assms(2)]
    list_all2_shape_edges [OF assms(2)] list_all2_shape_lengths [OF assms(2)]
    stability_alpha_cong [of ns' "nodes m"]
  by (simp add: mesh_ok_def buffers_match_def lifecycle_ok_def)

lemma same_shape_refl: "node_wf n i nd \<Longrightarrow> same_shape nd nd"
  by (auto simp: node_wf_def same_shape_def bridge_wf_def)

lemma set_node_ok:
  assumes ok: "mesh_ok m" and sh: "same_shape (nodes m ! i) n" and i: "i < length (nodes m)"
  shows "mesh_ok (set_node i n m)"
proof -
  have "same_shape (nodes m ! k) (nodes m ! k)" if "k < length (nodes m)" for k
    using ok that nodes_okD(1) [of "nodes m" k] by (auto simp: mesh_ok_def intro: same_shape_refl)
  then have "list_all2 same_shape (nodes m) ((nodes m)[i := n])"
    using sh i by (auto simp: list_all2_conv_all_nth nth_list_update)
  then show ?thesis unfolding set_node_def by (rule mesh_ok_shape [OF ok])
qed

section \<open>Shocks\<close>

lemma reflex_filter_wf:
  assumes "applyLocalReflexFilter n raw = Inr v" "wf64 (state n)" "wf64 raw"
  shows "wf64 v"
  using assms by (auto simp: applyLocalReflexFilter_def result_simps Let_def split: if_splits)

lemma applyLocalReflexFilter_ok_iff:
  "isfinite (state n) \<Longrightarrow> (\<exists>v. applyLocalReflexFilter n raw = Inr v) \<longleftrightarrow> isfinite raw"
  by (auto simp: applyLocalReflexFilter_def result_simps Let_def)

text \<open>What a shock leaves in the node it hits.\<close>

lemma injectExternalShock_Inr:
  assumes ok: "mesh_ok m" and wf: "wf64 magnitude" and run: "injectExternalShock t magnitude m = (Inr u, m')"
  shows "mesh_ok m'"
    "\<exists>v. 0 \<le> t \<and> t < int (length (nodes m)) \<and>
       applyLocalReflexFilter (nodes m ! nat t) (state (nodes m ! nat t) + magnitude) = Inr v \<and>
       updateHealth ((nodes m ! nat t)\<lparr>state := v\<rparr>) = Inr (nodes m' ! nat t) \<and>
       m' = set_node (nat t) (nodes m' ! nat t) m"
proof -
  define n where "n = nodes m ! nat t"
  obtain v n2 where t: "0 \<le> t" "t < int (length (nodes m))"
    and v: "applyLocalReflexFilter n (state n + magnitude) = Inr v"
    and n2: "updateHealth (n\<lparr>state := v\<rparr>) = Inr n2" and m': "m' = set_node (nat t) n2 m"
    using run unfolding injectExternalShock_def Let_def n_def [symmetric]
    by (auto simp: result_simps validateNodeIndex_ok [OF ok] split: sum.splits)
  have i: "nat t < length (nodes m)" using t by linarith
  have nw: "node_wf (length (nodes m)) (nat t) n"
    using ok i nodes_okD(1) unfolding n_def mesh_ok_def by blast
  then have d: "node_data_ok n" by (simp add: node_wf_def)
  have fv: "isfinite v" "wf64 v"
    using reflex_filter_bound(1) [OF v] reflex_filter_wf [OF v] d wf by (simp_all add: node_data_ok_def)
  have n2': "n2 = n\<lparr>state := v, healthIndex := std_max 0 (1 - \<bar>v - baseline (invariant n)\<bar>
       / maxEpsilon (invariant n))\<rparr>" using n2 by (simp add: updateHealth_Inr_iff)
  have "same_shape n n2"
    using same_shape_refl [OF nw] fv d health_value_unit [of v "baseline (invariant n)" "maxEpsilon (invariant n)"]
    by (auto simp: same_shape_def n2' node_data_ok_def invariant_ok_def targets_of_def)
  then show "mesh_ok m'" unfolding m' n_def by (rule set_node_ok [OF ok _ i])
  show "\<exists>v. 0 \<le> t \<and> t < int (length (nodes m)) \<and>
       applyLocalReflexFilter (nodes m ! nat t) (state (nodes m ! nat t) + magnitude) = Inr v \<and>
       updateHealth ((nodes m ! nat t)\<lparr>state := v\<rparr>) = Inr (nodes m' ! nat t) \<and>
       m' = set_node (nat t) (nodes m' ! nat t) m"
    using t v n2 i unfolding n_def by (intro exI [of _ v]) (simp add: m' set_node_def)
qed

lemma injectExternalShock_Inl:
  assumes ok: "mesh_ok m" and wf: "wf64 magnitude" and run: "injectExternalShock t magnitude m = (Inl e, m')"
  shows "m' = m"
proof (rule ccontr)
  assume ne: "m' \<noteq> m"
  define n where "n = nodes m ! nat t"
  obtain v e' where t: "0 \<le> t" "t < int (length (nodes m))"
    and v: "applyLocalReflexFilter n (state n + magnitude) = Inr v"
    and e': "updateHealth (n\<lparr>state := v\<rparr>) = Inl e'"
    using run ne unfolding injectExternalShock_def Let_def n_def [symmetric]
    by (auto simp: result_simps validateNodeIndex_ok [OF ok] split: sum.splits)
  have "nat t < length (nodes m)" using t by linarith
  then have "node_data_ok n"
    using ok nodes_okD(1) unfolding n_def mesh_ok_def node_wf_def by blast
  then have "isfinite v" "invariant_ok (invariant n)"
    using reflex_filter_bound(1) [OF v] wf by (simp_all add: node_data_ok_def)
  then show False using e' by (simp add: updateHealth_def Let_def)
qed

section \<open>The internal consistency check of an insertion\<close>

lemma distanceTo_not_logic: "distanceTo hyp p q \<noteq> Inl (Logic_error s)"
  by (auto simp: distanceTo_def vec3_validate_def result_simps Let_def)

lemma orientation_not_logic: "orientationFactorTo hyp p q \<noteq> Inl (Logic_error s)"
  by (auto simp: orientationFactorTo_def result_simps distanceTo_not_logic)

lemma prepare_pair_not_logic: "prepare_pair P m k g l al a b \<noteq> Inl (Logic_error s)"
  by (auto simp: prepare_pair_def Let_def result_simps distanceTo_not_logic orientation_not_logic
      incarnation_at_def)

lemma prepare_pairs_not_logic: "prepare_pairs P m k g l al ps \<noteq> Inl (Logic_error s)"
  by (induction P m k g l al ps rule: prepare_pairs.induct)
    (auto simp: result_simps prepare_pair_not_logic)

lemma emplace_edges_not_logic:
  assumes "distinct (map pe_key es)" "pe_key ` set es \<inter> dom rel = {}"
  shows "fst (emplace_edges P k es ins rel) \<noteq> Inl (Logic_error s)"
  using assms
proof (induction es arbitrary: k ins rel)
  case (Cons x es)
  have "fst (emplace_edges P (Suc k) es (ins @ [pe_key x]) (rel(pe_key x \<mapsto> pe_lifecycle x)))
      \<noteq> Inl (Logic_error s)"
    using Cons.prems by (intro Cons.IH) (simp_all del: fun_upd_apply)
  moreover have "rel (pe_key x) = None" using Cons.prems(2) by auto
  ultimately show ?case by simp
qed simp

text \<open>The prepared keys of acceptable pairs are new and pairwise different.\<close>

lemma prepared_new:
  assumes ok: "mesh_ok m" and new: "new_pairs m ps" and prep: "prepare_pairs P m k g l al ps = Inr es"
  shows "distinct (map pe_key es)" "pe_key ` set es \<inter> dom (productionRelationships m) = {}"
proof -
  have "\<forall>(a, b) \<in> set ps. 0 \<le> a \<and> 0 \<le> b" using new by (auto simp: new_pairs_def valid_pairs_def)
  from prepare_pairs_Inr [OF prep this] have keys: "map pe_key es = concat (map pair_keys ps)" by simp
  show "distinct (map pe_key es)"
    unfolding keys using new distinct_pair_keys by (auto simp: new_pairs_def)
  show "pe_key ` set es \<inter> dom (productionRelationships m) = {}"
    using ok new keys by (simp add: new_pairs_def batch_edges_def mesh_ok_def flip: set_map)
qed

lemma connectPairs_not_logic:
  assumes ok: "mesh_ok m" and new: "new_pairs m ps"
  shows "fst (connectPairsUnlocked P ps m) \<noteq> Inl (Logic_error s)"
proof (cases "prepare_pairs P m 0 (nextRelationshipGeneration m) (nextLineage m) (lineageAllocations m) ps")
  case (Inl e)
  then show ?thesis using prepare_pairs_not_logic by (fastforce simp: connectPairsUnlocked_def)
next
  case (Inr es)
  have "fst (emplace_edges P 0 es [] (productionRelationships m)) \<noteq> Inl (Logic_error s)"
    by (rule emplace_edges_not_logic [OF prepared_new [OF ok new Inr]])
  then show ?thesis using Inr
    by (auto simp: connectPairsUnlocked_def Let_def split: sum.splits prod.splits)
qed

lemma validate_batch_not_logic: "validate_batch P m seen ps \<noteq> Inl (Logic_error s)"
  by (induction ps arbitrary: seen) (auto simp: result_simps validateNodeIndex_def Let_def)

lemma collect_near_not_logic: "collect_near P m r k es ps \<noteq> Inl (Logic_error s)"
  by (induction P m r k es ps rule: collect_near.induct)
    (auto simp: result_simps distanceTo_not_logic split: if_splits)

end
