(* ===== verification/Mesh_Laws.thy ===== *)
theory Mesh_Laws
  imports Mesh_Operations
begin

text \<open>
  What the topology operations promise: failures change nothing, the invariant holds after every
  operation, which edges an operation leaves, and how small the stability coefficient is.
\<close>

section \<open>Failures\<close>

text \<open> C4. Strong exception guarantee of the topology: when adding a node, connecting a pair or a batch,
  connecting nearby nodes or pruning throws, be it for its arguments or because an allocation fails,
  the mesh is the one before the call, including the relationship map whose insertions had begun.
  Memory may run out at any allocation of a call: of the containers with which a batch is validated,
  nearby pairs are collected or isolated bridges are found, of the preparation of each pair, of the
  reservations and of each insertion into the relationship map.
\<close>

theorem topology_failure_atomic:
  "case topology_apply P oper m of (Inl e, m') \<Rightarrow> m' = m | (Inr _, _) \<Rightarrow> True"
  using topology_apply_Inl by (auto split: prod.splits sum.splits)

text \<open>The internal consistency check of an insertion never fires on a well-formed mesh.\<close>

lemma topology_not_logic:
  assumes ok: "mesh_ok m" and hyp: "libm_hypot (hypot_of P)"
  shows "fst (topology_apply P oper m) \<noteq> Inl (Logic_error s)"
proof (cases oper)
  case (Op_addNode i p b)
  then show ?thesis
    by (auto simp: addNode_def mk_node_def vec3_validate_def result_simps split: sum.splits)
next
  case (Op_connectNodes a b)
  define v where "v = rbind (validateNodeIndex m a) (\<lambda>_.
          rbind (validateNodeIndex m b) (\<lambda>_.
          rbind (guard_that (a \<noteq> b) (Invalid_argument ''self-connections are not allowed'')) (\<lambda>_.
          guard_that (\<not> connected_to m (nat a) b) (Invalid_argument ''bridge pair already exists''))))"
  show ?thesis
  proof (cases "rbind v (\<lambda>_. scratch_guard P 0 1)")
    case (Inl e)
    then have "e \<noteq> Logic_error s" by (auto simp: v_def result_simps validateNodeIndex_def)
    then show ?thesis using Inl Op_connectNodes by (simp add: connectNodes_def v_def)
  next
    case (Inr u)
    then have "new_pairs m [(a, b)]"
      using connectNodes_validation [OF ok] unfolding v_def rbind_eq_Inr_iff [where m = "rbind _ _"] by blast
    note c = connectPairs_not_logic [OF ok this, of P s]
    show ?thesis using Inr Op_connectNodes c
      by (cases "connectPairsUnlocked P [(a, b)] m") (auto simp: connectNodes_def v_def split: sum.split)
  qed
next
  case (Op_connectNodePairs ps)
  show ?thesis
  proof (cases "rbind (scratch_guard P 0 1) (\<lambda>_. validate_batch P m [] ps)")
    case (Inl e)
    then have "e \<noteq> Logic_error s" using validate_batch_not_logic by (auto simp: result_simps)
    then show ?thesis using Inl Op_connectNodePairs by (simp add: connectNodePairs_def)
  next
    case (Inr u)
    then have "new_pairs m ps" using validate_batch_iff [OF ok] by (fastforce simp: result_simps)
    from connectPairs_not_logic [OF ok this] show ?thesis
      using Inr Op_connectNodePairs by (simp add: connectNodePairs_def)
  qed
next
  case (Op_autoConnect r)
  define v where "v = rbind (requireFinite r ''radius'') (\<lambda>_.
          rbind (guard_that (\<not> r < 0) (Invalid_argument ''radius must not be negative'')) (\<lambda>_.
          let k = Suc (length (directed_edges (nodes m))) in
          rbind (scratch_guard P 0 k) (\<lambda>_.
          collect_near P m r k (directed_edges (nodes m)) (index_pairs (length (nodes m))))))"
  show ?thesis
  proof (cases v)
    case (Inl e)
    then have "e \<noteq> Logic_error s" by (auto simp: v_def result_simps collect_near_not_logic Let_def)
    then show ?thesis using Inl Op_autoConnect by (simp add: autoConnectNearbyNodes_def v_def)
  next
    case (Inr cs)
    then have "new_pairs m cs" using autoConnect_pairs(1) [OF ok _ hyp] by (auto simp: v_def result_simps Let_def)
    note c = connectPairs_not_logic [OF ok this, of P s]
    show ?thesis using Inr Op_autoConnect c
      by (cases "connectPairsUnlocked P cs m") (auto simp: autoConnectNearbyNodes_def v_def split: sum.split)
  qed
next
  case (Op_prune th)
  then show ?thesis
    by (auto simp: pruneIsolatedBridges_def Let_def result_simps split: sum.splits)
qed simp

section \<open>Sequences of topology operations\<close>

text \<open>The arguments are doubles and the number of nodes stays below \<open>2 ^ 31\<close>.\<close>

definition topology_args_ok :: "mesh \<Rightarrow> topology_op \<Rightarrow> bool" where
  "topology_args_ok m oper = (case oper of
     Op_addNode i p b \<Rightarrow> vec3_wf p \<and> wf64 b \<and> Suc (length (nodes m)) < 2 ^ 31
   | _ \<Rightarrow> True)"

lemma topology_apply_ok:
  assumes ok: "mesh_ok m" and hyp: "libm_hypot (hypot_of P)" and args: "topology_args_ok m oper"
  shows "mesh_ok (snd (topology_apply P oper m))"
proof (cases "fst (topology_apply P oper m)")
  case (Inl e)
  then have "topology_apply P oper m = (Inl e, snd (topology_apply P oper m))" by (metis prod.collapse)
  from topology_apply_Inl [OF this] show ?thesis using ok by simp
next
  case (Inr u)
  then have run: "topology_apply P oper m = (Inr u, snd (topology_apply P oper m))" by (metis prod.collapse)
  show ?thesis
  proof (cases oper)
    case (Op_addNode i p b)
    then show ?thesis using args addNode_ok [OF ok run [unfolded Op_addNode topology_apply.simps]]
      by (simp add: topology_args_ok_def)
  next
    case (Op_connectNodes a b)
    then show ?thesis using connectNodes_Inr(2) [OF ok _ hyp] run by fastforce
  next
    case (Op_connectNodePairs ps)
    then show ?thesis using connectNodePairs_Inr(2) [OF ok _ hyp] run by fastforce
  next
    case (Op_autoConnect r)
    then show ?thesis using autoConnect_Inr(1) [OF ok _ hyp] run by fastforce
  next
    case (Op_prune th)
    then show ?thesis using prune_Inr(1) [OF ok, of P th] run by fastforce
  next
    case Op_enforce
    then show ?thesis using flags_ok(1) [OF flags_ok(3) [OF ok]] by (simp add: enforceStabilityCondition_def)
  qed
qed

section \<open>The stability coefficient\<close>

lemma rne_rel_upper: "1 / 2 ^ 40 \<le> x \<Longrightarrow> rne x \<le> x * (1 + p2 (- 53)) \<and> x * (1 - p2 (- 53)) \<le> rne x"
proof -
  assume x: "1 / 2 ^ 40 \<le> x"
  have "p2 (- 1022) \<le> p2 (- 40)" by (simp only: p2_le_iff)
  moreover have "p2 (- 40) = 1 / 2 ^ 40" by (simp add: power_int_minus)
  ultimately have "\<bar>rne x - x\<bar> \<le> p2 (- 53) * \<bar>x\<bar>" using x by (intro rne_rel_error_normal) linarith
  moreover have "0 < x" using x by (rule less_le_trans [rotated]) simp
  ultimately have "\<bar>rne x - x\<bar> \<le> x * p2 (- 53)" by (simp add: mult.commute)
  then have "rne x - x \<le> x * p2 (- 53)" "x - rne x \<le> x * p2 (- 53)" by linarith+
  then show ?thesis unfolding distrib_left right_diff_distrib by linarith
qed

lemma f64_of_nat_small: "n < 2 ^ 53 \<Longrightarrow> f64_of_nat n = Fin (of_nat n)"
  using rnd64_of_int [of "int n"] by (simp add: f64_of_nat_def)

lemma rounding_unit: "0 < p2 (- 53)" "p2 (- 53) \<le> 1 / 2 ^ 52" "p2 (- 53) * 3 \<le> 1 / 10 ^ 15"
proof -
  have "p2 (- 53) = 1 / 2 ^ 53" by (simp add: power_int_minus)
  then show "0 < p2 (- 53)" "p2 (- 53) \<le> 1 / 2 ^ 52" "p2 (- 53) * 3 \<le> 1 / 10 ^ 15" by simp_all
qed

text \<open>The rounded quotient \<open>0.8 / d\<close>, computed as the code computes it.\<close>

lemma safe_alpha_bound:
  assumes "1 \<le> d" "d \<le> 2 ^ 31"
  shows "\<exists>p. rnd64 (1 / d) * dec 8 1 = Fin p \<and> 0 < p \<and> p * d \<le> 4 / 5 + 1 / 10 ^ 15"
proof -
  define u where "u = p2 (- 53)"
  note u = rounding_unit [folded u_def]
  have u1: "u \<le> 1 / 1000" using u(2) by (rule order_trans) simp
  have id: "1 / 2 ^ 31 \<le> 1 / d" "1 / d \<le> 1" "0 < 1 / d" using assms by (simp_all add: field_simps)
  define s where "s = rne (1 / d)"
  have s: "s \<le> 1 / d * (1 + u)" "1 / d * (1 - u) \<le> s"
    using rne_rel_upper [of "1 / d"] id(1) unfolding s_def u_def by auto
  define c where "c = rne (4 / 5)"
  have c: "c \<le> 4 / 5 * (1 + u)" "4 / 5 * (1 - u) \<le> c"
    using rne_rel_upper [of "4 / 5"] unfolding c_def u_def by auto
  have "1 / 2 ^ 31 * (999 / 1000) \<le> 1 / d * (1 - u)" using id u1 by (intro mult_mono) auto
  moreover have "1 / 2 ^ 32 \<le> 1 / 2 ^ 31 * (999 / 1000 :: rat)" by simp
  ultimately have s_low: "1 / 2 ^ 32 \<le> s" using s(2) by linarith
  have "4 / 5 * (999 / 1000) \<le> 4 / 5 * (1 - u)" using u1 by (intro mult_left_mono) auto
  then have c_low: "1 / 2 \<le> c" using c(2) by linarith
  have "1 / 2 ^ 32 * (1 / 2) \<le> s * c" using s_low c_low by (intro mult_mono) auto
  then have sc: "1 / 2 ^ 40 \<le> s * c" by (rule order_trans [rotated]) simp
  define p where "p = rne (s * c)"
  have p: "p \<le> s * c * (1 + u)" "s * c * (1 - u) \<le> p"
    using rne_rel_upper [OF sc] unfolding p_def u_def by auto
  have "0 < s" using s_low by (rule less_le_trans [rotated]) simp
  moreover have "0 < c" using c_low by (rule less_le_trans [rotated]) simp
  ultimately have "s * c * (1 - u) > 0" using u1 by simp
  then have p0: "0 < p" using p(2) by linarith
  have "s * c * (1 + u) * d \<le> (1 / d * (1 + u)) * (4 / 5 * (1 + u)) * (1 + u) * d"
    using s(1) c(1) u(1) s_low c_low assms(1) by (intro mult_right_mono mult_mono) auto
  also have "\<dots> = 4 / 5 * ((1 + u) * (1 + u) * (1 + u))" using assms(1) by simp
  also have "\<dots> \<le> 4 / 5 * (1 + 15 / 4 * u)"
  proof -
    have "u * u \<le> 1 / 1000 * u" using u(1) u1 by (intro mult_right_mono) auto
    moreover have "u * (u * u) \<le> 1 / 1000 * (1 / 1000 * u)"
      using u(1) u1 calculation by (intro mult_mono) auto
    ultimately have "3 * u + 3 * (u * u) + u * (u * u) \<le> 15 / 4 * u" using u(1) by linarith
    moreover have "(1 + u) * (1 + u) * (1 + u) = 1 + (3 * u + 3 * (u * u) + u * (u * u))"
      by (simp add: algebra_simps)
    ultimately have "(1 + u) * (1 + u) * (1 + u) \<le> 1 + 15 / 4 * u" by (simp only: add_left_mono)
    then show ?thesis by (rule mult_left_mono) simp
  qed
  also have "\<dots> \<le> 4 / 5 + 1 / 10 ^ 15" using u(3) by simp
  finally have "s * c * (1 + u) * d \<le> 4 / 5 + 1 / 10 ^ 15" .
  moreover have "p * d \<le> s * c * (1 + u) * d" using p(1) assms(1) by (intro mult_right_mono) auto
  ultimately have pd: "p * d \<le> 4 / 5 + 1 / 10 ^ 15" by linarith
  have "s \<le> 2" "c \<le> 1" using s(1) c(1) id(2) u1 mult_mono [of "1 / d" 1 "1 + u" 2] u(1) by auto
  then have "s * c \<le> 2 * 1" using s_low c_low by (intro mult_mono) auto
  moreover have "0 \<le> s * c" using sc by (rule order_trans [rotated]) simp
  ultimately have "rnd64 (s * c) = Fin p" unfolding p_def by (intro rnd64_small) auto
  moreover have "rnd64 (1 / d) = Fin s" using rnd64_small [of "1 / d"] id by (simp add: s_def)
  moreover have "dec 8 1 = Fin c" using rnd64_small [of "4 / 5"] by (simp add: dec_def c_def)
  ultimately have "rnd64 (1 / d) * dec 8 1 = Fin p" by (simp only: fin_arith)
  then show ?thesis using p0 pd by blast
qed


lemma stability_alpha_bound:
  assumes "0 < max_degree ns" "max_degree ns < 2 ^ 31"
  shows "\<exists>a. stability_alpha ns = Fin a \<and> 0 < a \<and> Fin a \<le> dec 2 1 \<and>
    a * of_nat (max_degree ns) \<le> 4 / 5 + 1 / 10 ^ 15"
proof -
  define d :: rat where "d = of_nat (max_degree ns)"
  have d: "1 \<le> d" using assms(1) by (simp add: d_def Suc_leI)
  have "d \<le> of_nat (2 ^ 31)" unfolding d_def of_nat_le_iff using assms(2) by simp
  then have d2: "d \<le> 2 ^ 31" by simp
  obtain p where p: "rnd64 (1 / d) * dec 8 1 = Fin p" "0 < p" "p * d \<le> 4 / 5 + 1 / 10 ^ 15"
    using safe_alpha_bound [OF d d2] by blast
  obtain e where e: "dec 2 1 = Fin e" "0 < e"
    using dec_close [of 2 1 "1 / 5"] by auto
  have "f64_of_nat (max_degree ns) = Fin d"
    using assms(2) unfolding d_def by (intro f64_of_nat_small) simp
  then have "stability_alpha ns = std_min (Fin e) (Fin p)"
    using assms(1) d p(1) unfolding stability_alpha_def Let_def e(1) by (simp add: one_f64_def)
  also have "\<dots> = Fin (min e p)" by (simp add: std_min_def min_def)
  finally have "stability_alpha ns = Fin (min e p)" .
  moreover have "min e p * d \<le> p * d" using d by (intro mult_right_mono) auto
  ultimately show ?thesis using p e by (auto simp: d_def)
qed

lemma stability_alpha_isolated: "max_degree ns = 0 \<Longrightarrow> stability_alpha ns = dec 15 2"
  by (simp add: stability_alpha_def)

lemma distinct_in_range: "distinct xs \<Longrightarrow> \<forall>x \<in> set xs. 0 \<le> x \<and> x < int n \<Longrightarrow> length xs \<le> n"
proof -
  assume d: "distinct xs" and r: "\<forall>x \<in> set xs. 0 \<le> x \<and> x < int n"
  have "set xs \<subseteq> {0..<int n}" using r by auto
  then have "card (set xs) \<le> card {0..<int n}" by (intro card_mono) auto
  then show ?thesis using d by (simp add: distinct_card)
qed

text \<open>In a well-formed mesh no node has more bridges than there are nodes.\<close>

lemma degree_bound:
  assumes ok: "nodes_ok ns" and n: "n \<in> set ns"
  shows "length (bridges n) \<le> length ns"
proof -
  obtain i where i: "i < length ns" "n = ns ! i" using n by (auto simp: in_set_conv_nth)
  have "node_wf (length ns) i n" using nodes_okD(1) [OF ok i(1)] i(2) by simp
  then have "length (targets_of n) \<le> length ns"
    by (intro distinct_in_range) (auto simp: node_wf_def targets_of_def bridge_wf_def)
  then show ?thesis by (simp add: targets_of_def)
qed

lemma max_degree_bound: "nodes_ok ns \<Longrightarrow> max_degree ns \<le> length ns"
  using fold_max_in [of "map (\<lambda>n. length (bridges n)) ns" 0] degree_bound
  by (auto simp: max_degree_def)

lemma degree_le_max: "n \<in> set ns \<Longrightarrow> length (bridges n) \<le> max_degree ns"
  unfolding max_degree_def by (rule fold_max_ge) simp

text \<open>The coefficient of a well-formed mesh.\<close>

lemma mesh_alpha:
  assumes ok: "mesh_ok m"
  shows "\<exists>a. alpha m = Fin a \<and> 0 < a \<and> a \<le> 1 / 4 \<and>
    (\<forall>n \<in> set (nodes m). a * of_nat (length (bridges n)) \<le> 4 / 5 + 1 / 10 ^ 15)"
proof (cases "max_degree (nodes m) = 0")
  case True
  have "length (bridges n) = 0" if "n \<in> set (nodes m)" for n
    using degree_le_max [OF that] True by simp
  moreover obtain a where "dec 15 2 = Fin a" "0 < a" "a \<le> 1 / 4"
    using dec_close [of 15 2 "15 / 100"] by auto
  ultimately show ?thesis using ok stability_alpha_isolated [OF True] by (auto simp: mesh_ok_def)
next
  case False
  have "max_degree (nodes m) < 2 ^ 31"
    using ok max_degree_bound [of "nodes m"] by (auto simp: mesh_ok_def nodes_ok_def)
  then obtain a where a: "stability_alpha (nodes m) = Fin a" "0 < a" "Fin a \<le> dec 2 1"
    "a * of_nat (max_degree (nodes m)) \<le> 4 / 5 + 1 / 10 ^ 15"
    using stability_alpha_bound False by blast
  obtain e where e: "dec 2 1 = Fin e" "e \<le> 1 / 4"
    using dec_close [of 2 1 "1 / 5"] by auto
  have "a * of_nat (length (bridges n)) \<le> 4 / 5 + 1 / 10 ^ 15" if "n \<in> set (nodes m)" for n
  proof -
    have "a * of_nat (length (bridges n)) \<le> a * of_nat (max_degree (nodes m))"
      using degree_le_max [OF that] a(2) by (intro mult_left_mono) auto
    then show ?thesis using a(4) by linarith
  qed
  then show ?thesis using a e ok by (auto simp: mesh_ok_def)
qed

section \<open>When a batch is accepted\<close>

definition unlimited :: "platform \<Rightarrow> bool" where
  "unlimited P \<longleftrightarrow> (\<forall>k. scratch_room P k \<and> prepare_room P k \<and> emplace_room P k) \<and> reserve_room P"

definition pair_distance :: "platform \<Rightarrow> mesh \<Rightarrow> int \<times> int \<Rightarrow> f64 result" where
  "pair_distance P m = (\<lambda>(a, b). distanceTo (hypot_of P) (position (nodes m ! nat a)) (position (nodes m ! nat b)))"

lemma prepare_pair_iff:
  assumes hyp: "libm_hypot (hypot_of P)" and room: "prepare_room P k"
    and len: "length (nodeIncarnations m) = length (nodes m)"
    and r: "nat a < length (nodes m)" "nat b < length (nodes m)"
  shows "is_ok (prepare_pair P m k g l al a b) \<longleftrightarrow> is_ok (pair_distance P m (a, b))"
proof
  assume "is_ok (pair_distance P m (a, b))"
  then obtain d where d: "distanceTo (hypot_of P) (position (nodes m ! nat a)) (position (nodes m ! nat b)) = Inr d"
    by (auto simp: pair_distance_def is_ok_iff)
  note d' = libm_hypot.distance_sym [OF hyp d]
  show "is_ok (prepare_pair P m k g l al a b)"
    using room r len by (simp add: prepare_pair_def Let_def orientationFactorTo_def d d' incarnation_at_def)
qed (auto simp: prepare_pair_def pair_distance_def Let_def is_ok_iff result_simps)

lemma prepare_pairs_iff:
  assumes hyp: "libm_hypot (hypot_of P)" and room: "unlimited P"
    and len: "length (nodeIncarnations m) = length (nodes m)" and v: "valid_pairs (length (nodes m)) ps"
  shows "is_ok (prepare_pairs P m k g l al ps) \<longleftrightarrow> (\<forall>p \<in> set ps. is_ok (pair_distance P m p))"
  using v
proof (induction ps arbitrary: k g l al)
  case (Cons p ps)
  obtain a b where p: "p = (a, b)" by fastforce
  have r: "nat a < length (nodes m)" "nat b < length (nodes m)" "valid_pairs (length (nodes m)) ps"
    using Cons.prems by (auto simp: valid_pairs_def p)
  have "prepare_room P k" using room by (simp add: unlimited_def)
  note one = prepare_pair_iff [OF hyp this len r(1,2), of g l al]
  show ?case using one Cons.IH [OF r(3), of "Suc k" "g + 2" "l + 2" "al + 2"]
    by (auto simp: p is_ok_iff result_simps)
qed simp

lemma connectPairs_success:
  assumes ok: "mesh_ok m" and hyp: "libm_hypot (hypot_of P)" and room: "unlimited P" and new: "new_pairs m ps"
  shows "is_ok (fst (connectPairsUnlocked P ps m)) \<longleftrightarrow> (\<forall>p \<in> set ps. is_ok (pair_distance P m p))"
proof -
  have len: "length (nodeIncarnations m) = length (nodes m)" using ok by (simp add: mesh_ok_def)
  have v: "valid_pairs (length (nodes m)) ps" using new by (simp add: new_pairs_def)
  note iff = prepare_pairs_iff [OF hyp room len v, of 0 "nextRelationshipGeneration m" "nextLineage m" "lineageAllocations m"]
  show ?thesis
  proof (cases "prepare_pairs P m 0 (nextRelationshipGeneration m) (nextLineage m) (lineageAllocations m) ps")
    case (Inl e)
    then show ?thesis using iff by (simp add: connectPairsUnlocked_def)
  next
    case (Inr es)
    have "\<forall>i < length es. emplace_room P (0 + i)" using room by (simp add: unlimited_def)
    from emplace_edges_room [OF prepared_new [OF ok new Inr] this]
    obtain rel where "emplace_edges P 0 es [] (productionRelationships m) = (Inr (), rel)" by blast
    then show ?thesis using Inr iff room by (simp add: connectPairsUnlocked_def Let_def unlimited_def)
  qed
qed

lemma connectNodePairs_success:
  assumes ok: "mesh_ok m" and hyp: "libm_hypot (hypot_of P)" and room: "unlimited P"
  shows "is_ok (fst (connectNodePairs P ps m)) \<longleftrightarrow>
    new_pairs m ps \<and> (\<forall>p \<in> set ps. is_ok (pair_distance P m p))"
proof -
  have g: "scratch_guard P 0 1 = Inr ()" "batch_room P 0 ps"
    using room by (simp_all add: unlimited_def batch_room_def)
  note iff = validate_batch_iff [OF ok, of P "[]" ps "()"]
  show ?thesis
  proof (cases "validate_batch P m [] ps")
    case (Inl e)
    then have "\<not> new_pairs m ps" using iff g(2) by auto
    then show ?thesis using Inl unfolding connectNodePairs_def g(1) by simp
  next
    case (Inr u)
    then have "new_pairs m ps" using iff by simp
    then show ?thesis using Inr connectPairs_success [OF ok hyp room]
      unfolding connectNodePairs_def g(1) by simp
  qed
qed

lemma collect_near_success:
  assumes "\<forall>l. scratch_room P l"
  shows "is_ok (collect_near P m r k es ps) \<longleftrightarrow>
     (\<forall>(i, j) \<in> set ps. is_ok (distanceTo (hypot_of P) (position (nodes m ! i)) (position (nodes m ! j))))"
  using assms
proof (induction P m r k es ps rule: collect_near.induct)
  case (2 P m r k es i j ps)
  have g: "scratch_guard P k (k + 3) = Inr ()" using "2.prems" by simp
  show ?case
  proof (cases "distanceTo (hypot_of P) (position (nodes m ! i)) (position (nodes m ! j))")
    case (Inr d)
    show ?thesis
    proof (cases "d \<le> r \<and> (i, j) \<notin> set es")
      case True
      then show ?thesis using Inr "2.IH"(1) [OF True "2.prems"] "2.prems" by (auto simp: is_ok_iff result_simps)
    next
      case False
      then have "collect_near P m r k es ((i, j) # ps) = collect_near P m r k es ps"
        using Inr by (simp only: collect_near.simps rbind_simps if_False)
      then show ?thesis using Inr "2.IH"(2) [OF False "2.prems"] by simp
    qed
  qed simp
qed simp

lemma autoConnect_front:
  assumes "isfinite r" "0 \<le> r" "\<forall>l. scratch_room P l"
  shows "fst (autoConnectNearbyNodes P r m) =
    (case collect_near P m r (Suc (length (directed_edges (nodes m)))) (directed_edges (nodes m)) (index_pairs (length (nodes m))) of
       Inl e \<Rightarrow> Inl e
     | Inr cs \<Rightarrow> (case fst (connectPairsUnlocked P cs m) of Inl e \<Rightarrow> Inl e | Inr _ \<Rightarrow> Inr ()))"
proof -
  have g: "scratch_guard P 0 (Suc (length (directed_edges (nodes m)))) = Inr ()" using assms(3) by simp
  show ?thesis using assms(1,2) f64_range_iff(2) [of r]
    unfolding autoConnectNearbyNodes_def Let_def g rbind_simps
    by (auto split: sum.splits prod.splits)
qed

lemma autoConnect_success:
  assumes ok: "mesh_ok m" and hyp: "libm_hypot (hypot_of P)" and room: "unlimited P"
  shows "is_ok (fst (autoConnectNearbyNodes P r m)) \<longleftrightarrow> isfinite r \<and> 0 \<le> r \<and>
    (\<forall>(i, j) \<in> set (index_pairs (length (nodes m))).
       is_ok (distanceTo (hypot_of P) (position (nodes m ! i)) (position (nodes m ! j))))"
proof (cases "isfinite r \<and> 0 \<le> r")
  case True
  have scr: "\<forall>l. scratch_room P l" using room by (simp add: unlimited_def)
  define col where "col = collect_near P m r (Suc (length (directed_edges (nodes m)))) (directed_edges (nodes m)) (index_pairs (length (nodes m)))"
  have all: "is_ok col \<longleftrightarrow> (\<forall>(i, j) \<in> set (index_pairs (length (nodes m))).
       is_ok (distanceTo (hypot_of P) (position (nodes m ! i)) (position (nodes m ! j))))"
    unfolding col_def by (rule collect_near_success [OF scr])
  have "is_ok (fst (connectPairsUnlocked P cs m))" if cs: "col = Inr cs" for cs
  proof -
    note col = cs [unfolded col_def]
    have "is_ok (pair_distance P m (a, b))" if "(a, b) \<in> set cs" for a b
    proof -
      have "(nat a, nat b) \<in> batch_edges cs" using that by (force simp: batch_edges_def pair_keys_def)
      then have "near P m r (nat a) (nat b)" using autoConnect_pairs(2) [OF ok col hyp] by blast
      then show ?thesis by (auto simp: near_iff pair_distance_def)
    qed
    then show ?thesis
      using connectPairs_success [OF ok hyp room autoConnect_pairs(1) [OF ok col hyp]] by fast
  qed
  then have "is_ok (fst (autoConnectNearbyNodes P r m)) \<longleftrightarrow> is_ok col"
    using autoConnect_front [of r P m] True scr
    by (fastforce simp: col_def [symmetric] is_ok_iff split: sum.splits)
  then show ?thesis using True all by simp
next
  case False
  then show ?thesis using f64_range_iff(2) [of r]
    by (auto simp: autoConnectNearbyNodes_def requireFinite_def guard_that_def)
qed

section \<open>A mesh for the witnesses\<close>

definition roomy_platform :: platform where
  "roomy_platform = \<lparr>hypot_of = hypot_cr, hardware_concurrency = 4,
     scratch_room = (\<lambda>_. True), prepare_room = (\<lambda>_. True),
     reserve_room = True, emplace_room = (\<lambda>_. True), buffer_room = (\<lambda>_. True),
     thread_failure = (\<lambda>_. None)\<rparr>"

definition point :: "f64 \<Rightarrow> vec3" where
  "point x = \<lparr>vx = x, vy = 0, vz = 0\<rparr>"

text \<open>Two nodes one apart, then a third at distance three from the first.\<close>

definition three_nodes :: mesh where
  "three_nodes = snd (addNode roomy_platform 2 (point (Fin 3)) 0
     (snd (addNode roomy_platform 1 (point 1) 0
     (snd (addNode roomy_platform 0 (point 0) 0 (new_mesh 2 (Domain 1)))))))"

definition sample_node :: "nat \<Rightarrow> f64 \<Rightarrow> node" where
  "sample_node i x = \<lparr>node_id = i, position = point x, state = 0, healthIndex = 1,
     invariant = \<lparr>baseline = 0, maxEpsilon = dec 10 0\<rparr>, bridges = []\<rparr>"

lemma addNode_sample:
  "isfinite x \<Longrightarrow> addNode roomy_platform (length (nodes m)) (point x) 0 m =
     (Inr (), m\<lparr>nodes := nodes m @ [sample_node (length (nodes m)) x],
        nodeIncarnations := nodeIncarnations m @ [nextNodeIncarnation m],
        nextNodeIncarnation := nextNodeIncarnation m + 1,
        simulationBufferShapeDirty := True, topologyValidationRequired := True\<rparr>)"
  by (subst addNode_Inr) (simp add: vec3_ok_def point_def roomy_platform_def sample_node_def zero_f64_def)

lemma roomy [simp]: "unlimited roomy_platform" "libm_hypot (hypot_of roomy_platform)"
  by (simp_all add: roomy_platform_def unlimited_def hypot_cr.libm_hypot_axioms)

lemma wf64_small [simp]: "wf64 (Fin 2)" "wf64 (Fin 3)" "wf64 (Fin (- 1))" "wf64 (Fin (- 2))" "wf64 (Fin (- 3))"
  using wf64_rnd64 [of 2] wf64_rnd64 [of 3] wf64_rnd64 [of "- 1"] wf64_rnd64 [of "- 2"]
    wf64_rnd64 [of "- 3"] rnd64_of_int [of "- 1"] by (simp_all del: wf64_rnd64 wf64_simps)

lemma addNode_sample_ok:
  assumes "mesh_ok m" "vec3_wf (point x)" "isfinite x" "i = length (nodes m)" "i < 100"
  shows "mesh_ok (snd (addNode roomy_platform i (point x) 0 m))"
    "nodes (snd (addNode roomy_platform i (point x) 0 m)) = nodes m @ [sample_node i x]"
  using topology_apply_ok [OF assms(1) roomy(2), of "Op_addNode i (point x) 0"] assms
    addNode_sample [OF assms(3), of m] by (simp_all add: topology_args_ok_def)

lemma three_nodes: "mesh_ok three_nodes \<and> nodes three_nodes = [sample_node 0 0, sample_node 1 1, sample_node 2 (Fin 3)]"
proof -
  have f: "isfinite 0" "isfinite 1" "isfinite (Fin 3)" by (simp_all add: zero_f64_def one_f64_def)
  have w: "vec3_wf (point 0)" "vec3_wf (point 1)" "vec3_wf (point (Fin 3))"
    by (simp_all add: vec3_wf_def point_def del: wf64_simps(1))
  define m0 where "m0 = new_mesh 2 (Domain 1)"
  have m0: "mesh_ok m0" "nodes m0 = []" using new_mesh_ok by (simp_all add: m0_def new_mesh_def)
  define m1 where "m1 = snd (addNode roomy_platform 0 (point 0) 0 m0)"
  have m1: "mesh_ok m1" "nodes m1 = [sample_node 0 0]"
    using addNode_sample_ok [OF m0(1) w(1) f(1), of 0] by (simp_all add: m1_def m0)
  define m2 where "m2 = snd (addNode roomy_platform 1 (point 1) 0 m1)"
  have m2: "mesh_ok m2" "nodes m2 = [sample_node 0 0, sample_node 1 1]"
    using addNode_sample_ok [OF m1(1) w(2) f(2), of 1] by (simp_all add: m2_def m1)
  have "three_nodes = snd (addNode roomy_platform 2 (point (Fin 3)) 0 m2)"
    by (simp only: three_nodes_def m2_def m1_def m0_def)
  then show ?thesis using addNode_sample_ok [OF m2(1) w(3) f(3), of 2] by (simp add: m2)
qed

lemmas three_nodes_ok = three_nodes [THEN conjunct1]
lemmas nodes_three = three_nodes [THEN conjunct2]

lemma point_distance:
  assumes "wf64 (Fin (a - b))"
  shows "distanceTo (hypot_of roomy_platform) (point (Fin a)) (point (Fin b)) = Inr (Fin \<bar>a - b\<bar>)"
proof -
  have "wf64 (Fin \<bar>a - b\<bar>)" using wf64_abs [OF assms] by simp
  then have h: "hypot_cr (Fin (a - b)) (Fin 0) = Fin \<bar>a - b\<bar>" "hypot_cr (Fin \<bar>a - b\<bar>) (Fin 0) = Fin \<bar>a - b\<bar>"
    by (intro hypot_cr_exact; simp)+
  show ?thesis using assms
    by (simp add: distanceTo_Inr_iff vec3_ok_def point_def zero_f64_def fin_arith h roomy_platform_def del: hypot_cr.simps)
qed

lemma sample_distances [simp]:
  "distanceTo (hypot_of roomy_platform) (point 0) (point 1) = Inr (Fin 1)"
  "distanceTo (hypot_of roomy_platform) (point 0) (point (Fin 3)) = Inr (Fin 3)"
  "distanceTo (hypot_of roomy_platform) (point 1) (point (Fin 3)) = Inr (Fin 2)"
  using point_distance [of 0 1] point_distance [of 0 3] point_distance [of 1 3] wf64_small
  by (simp_all add: zero_f64_def one_f64_def del: wf64_simps)

lemma sample_node_simps [simp]: "position (sample_node i x) = point x" "bridges (sample_node i x) = []"
  by (simp_all add: sample_node_def)

lemma three_simps [simp]:
  "length (nodes three_nodes) = 3" "nodes three_nodes ! 0 = sample_node 0 0"
  "nodes three_nodes ! Suc 0 = sample_node 1 1" "nodes three_nodes ! 2 = sample_node 2 (Fin 3)"
  by (simp_all add: nodes_three)

lemma edges_three [simp]: "edges (nodes three_nodes) = {}"
  by (auto simp: nodes_three edges_def targets_of_def less_Suc_eq nth_Cons')

section \<open>The promises of the operations\<close>

text \<open> C8. A batch is accepted exactly when all its pairs are new: indices in range, no self-connection, no
  pair twice in either order, none already connected, and every distance computable; a rejected batch
  leaves the mesh as it was, an accepted one adds exactly both directions of every pair.
\<close>

theorem batch_connection_exact:
  assumes "mesh_ok m" and "libm_hypot (hypot_of P)" and "unlimited P"
  shows "case connectNodePairs P ps m of
      (Inl e, m') \<Rightarrow> m' = m \<and> \<not> (new_pairs m ps \<and> list_all (\<lambda>p. is_ok (pair_distance P m p)) ps)
    | (Inr _, m') \<Rightarrow> new_pairs m ps \<and> list_all (\<lambda>p. is_ok (pair_distance P m p)) ps \<and>
        edges (nodes m') = edges (nodes m) \<union> batch_edges ps \<and> mesh_ok m'"
proof (cases "connectNodePairs P ps m")
  case (Pair r m')
  note iff = connectNodePairs_success [OF assms, of ps]
  show ?thesis
  proof (cases r)
    case (Inl e)
    have "m' = m" using topology_apply_Inl [of P "Op_connectNodePairs ps" m e m'] Pair Inl by simp
    then show ?thesis using iff Pair Inl by (simp add: list_all_iff)
  next
    case (Inr u)
    show ?thesis using iff Pair Inr connectNodePairs_Inr [OF assms(1) Pair [unfolded Inr] assms(2)]
      by (simp add: list_all_iff)
  qed
qed

definition connected_mesh :: mesh where
  "connected_mesh = snd (connectNodePairs roomy_platform [(0, 1)] three_nodes)"

lemma first_pair_new: "new_pairs three_nodes [(0, 1)]"
  by (simp add: new_pairs_def valid_pairs_def)

theorem batch_connection_exact_witness:
  "is_ok (fst (connectNodePairs roomy_platform [(0, 1)] three_nodes)) \<and>
   edges (nodes connected_mesh) = {(0, 1), (1, 0)}"
  using batch_connection_exact [OF three_nodes_ok roomy(2,1), of "[(0, 1)]"] first_pair_new
  by (auto simp: connected_mesh_def pair_distance_def pair_keys_def is_ok_iff split: prod.splits sum.splits)

text \<open> C16. Proximity connection links exactly the pairs of different nodes whose computed distance is at
  most the radius and that are not linked yet, and it keeps every existing edge; it is refused
  exactly for a radius that is not finite or negative, or when a distance cannot be computed.
\<close>

theorem proximity_connects_exactly:
  assumes "mesh_ok m" and "libm_hypot (hypot_of P)" and "unlimited P"
  shows "case autoConnectNearbyNodes P r m of
      (Inl e, m') \<Rightarrow> m' = m \<and> \<not> (isfinite r \<and> 0 \<le> r \<and>
        list_all (\<lambda>(i, j). is_ok (pair_distance P m (int i, int j))) (index_pairs (length (nodes m))))
    | (Inr _, m') \<Rightarrow> isfinite r \<and> 0 \<le> r \<and> mesh_ok m' \<and> (\<forall>i j. (i, j) \<in> edges (nodes m') \<longleftrightarrow>
        (i, j) \<in> edges (nodes m) \<or>
        (i < length (nodes m) \<and> j < length (nodes m) \<and> i \<noteq> j \<and> near P m r i j))"
proof (cases "autoConnectNearbyNodes P r m")
  case (Pair res m')
  note iff = autoConnect_success [OF assms, of r]
  show ?thesis
  proof (cases res)
    case (Inl e)
    have "m' = m" using topology_apply_Inl [of P "Op_autoConnect r" m e m'] Pair Inl by simp
    then show ?thesis using iff Pair Inl by (auto simp: list_all_iff pair_distance_def)
  next
    case (Inr u)
    show ?thesis using Pair Inr autoConnect_Inr [OF assms(1) Pair [unfolded Inr] assms(2)] by simp
  qed
qed

lemma near_three:
  "near roomy_platform three_nodes (Fin 2) 0 1" "near roomy_platform three_nodes (Fin 2) 1 2"
  "\<not> near roomy_platform three_nodes (Fin 2) 0 2"
  by (simp_all add: near_def)

theorem proximity_connects_exactly_witness:
  "is_ok (fst (autoConnectNearbyNodes roomy_platform (Fin 2) three_nodes)) \<and>
   (1, 2) \<in> edges (nodes (snd (autoConnectNearbyNodes roomy_platform (Fin 2) three_nodes))) \<and>
   (0, 2) \<notin> edges (nodes (snd (autoConnectNearbyNodes roomy_platform (Fin 2) three_nodes)))"
proof -
  have p: "index_pairs 3 = [(0, 1), (0, 2), (1, 2)]" by code_simp
  have z: "0 \<le> Fin 2" "isfinite (Fin 2)" by (simp_all add: zero_f64_def)
  show ?thesis
    using proximity_connects_exactly [OF three_nodes_ok roomy(2,1), of "Fin 2"] near_three p z
    by (auto simp: pair_distance_def is_ok_iff split: prod.splits sum.splits)
qed

text \<open> C17. Pruning refuses a threshold that is not finite or is negative, and it throws \<open>std::bad_alloc\<close> when
  one of the allocations of its two passes fails, without a change; otherwise a link survives exactly
  when neither of its directions is isolated or below the threshold, the bridges that survive and
  everything else in the nodes keep their values, and the relationship lifecycles that survive are
  those of the surviving edges.
\<close>

theorem pruning_exact:
  assumes "mesh_ok m"
  shows "case pruneIsolatedBridges P th m of
      (Inl e, m') \<Rightarrow> m' = m \<and> (\<not> (isfinite th \<and> 0 \<le> th) \<or>
        e = Bad_alloc \<and> (\<exists>k < prune_allocations th (nodes m). \<not> scratch_room P k))
    | (Inr _, m') \<Rightarrow> isfinite th \<and> 0 \<le> th \<and> mesh_ok m' \<and>
        edges (nodes m') = {(i, j) \<in> edges (nodes m).
          strong_edge th (nodes m) (i, j) \<and> strong_edge th (nodes m) (j, i)} \<and>
        productionRelationships m' = productionRelationships m |` edges (nodes m') \<and>
        nodes m' = map (\<lambda>(i, n). n\<lparr>bridges := filter (\<lambda>b. (i, nat (targetNodeId b)) \<in> edges (nodes m'))
          (bridges n)\<rparr>) (enumerate 0 (nodes m))"
proof (cases "pruneIsolatedBridges P th m")
  case (Pair r m')
  show ?thesis
  proof (cases r)
    case (Inl e)
    have "m' = m" using topology_apply_Inl [of P "Op_prune th" m e m'] Pair Inl by simp
    moreover have "\<not> (isfinite th \<and> 0 \<le> th) \<or>
        e = Bad_alloc \<and> (\<exists>k < prune_allocations th (nodes m). \<not> scratch_room P k)"
      using Pair Inl f64_range_iff(2) [of th]
      by (auto simp: pruneIsolatedBridges_def result_simps Let_def split: sum.splits)
    ultimately show ?thesis using Pair Inl by simp
  next
    case (Inr u)
    note run = prune_Inr [OF assms Pair [unfolded Inr]]
    have nok: "nodes_ok (nodes m)" using assms by (simp add: mesh_ok_def)
    have "filter (keep_bridge (length (nodes m)) (invalid_pairs th (nodes m)) i) (bridges (nodes m ! i)) =
        filter (\<lambda>b. (i, nat (targetNodeId b)) \<in> edges (nodes m')) (bridges (nodes m ! i))"
      if i: "i < length (nodes m)" for i
    proof (rule filter_cong [OF refl])
      fix b assume b: "b \<in> set (bridges (nodes m ! i))"
      then have t: "targetNodeId b = int (nat (targetNodeId b))"
        using nodes_ok_bridge [OF nok i b] by (simp add: bridge_wf_def)
      then have "(i, nat (targetNodeId b)) \<in> edges (nodes m)" using i b by (auto simp: edges_iff)
      then show "keep_bridge (length (nodes m)) (invalid_pairs th (nodes m)) i b \<longleftrightarrow>
          (i, nat (targetNodeId b)) \<in> edges (nodes m')"
        using keep_bridge_iff [OF nok i b t] run(3) by auto
    qed
    then have "nodes m' = map (\<lambda>(i, n). n\<lparr>bridges := filter (\<lambda>b. (i, nat (targetNodeId b)) \<in> edges (nodes m'))
          (bridges n)\<rparr>) (enumerate 0 (nodes m))"
      unfolding run(2) prune_nodes_def by (intro map_cong) (auto simp: in_set_enumerate_eq)
    then show ?thesis using Pair Inr run by simp
  qed
qed

lemma connected_mesh_ok: "mesh_ok connected_mesh"
  using topology_apply_ok [OF three_nodes_ok roomy(2), of "Op_connectNodePairs [(0, 1)]"]
  by (simp add: connected_mesh_def topology_args_ok_def)

lemma connected_mesh_edges: "edges (nodes connected_mesh) = {(0, 1), (1, 0)}"
proof -
  have "is_ok (fst (connectNodePairs roomy_platform [(0, 1)] three_nodes))"
    using connectNodePairs_success [OF three_nodes_ok roomy(2,1), of "[(0, 1)]"] first_pair_new
    by (simp add: pair_distance_def)
  then have "connectNodePairs roomy_platform [(0, 1)] three_nodes = (Inr (), connected_mesh)"
    by (auto simp: connected_mesh_def is_ok_iff intro: prod_eqI)
  from connectNodePairs_Inr(3) [OF three_nodes_ok this roomy(2)] show ?thesis
    by (auto simp: pair_keys_def)
qed

theorem pruning_exact_witness:
  "edges (nodes (snd (pruneIsolatedBridges roomy_platform (Fin 2) connected_mesh))) = {}"
proof -
  have z: "0 \<le> Fin 2" "isfinite (Fin 2)" by (simp_all add: zero_f64_def)
  have weak: "\<not> strong_edge (Fin 2) (nodes connected_mesh) (i, j)" if "i < length (nodes connected_mesh)" for i j
  proof -
    have "capacity b < Fin 2" if "b \<in> set (bridges (nodes connected_mesh ! i))" for b
    proof -
      have "nodes_ok (nodes connected_mesh)" using connected_mesh_ok by (simp add: mesh_ok_def)
      from nodes_ok_bridge [OF this \<open>i < _\<close> that] have "capacity b \<le> 1"
        by (simp add: bridge_wf_def bridge_ok_def)
      then show ?thesis by (cases "capacity b") (auto simp: one_f64_def)
    qed
    then show ?thesis by (auto simp: strong_edge_def isolated_bridge_def)
  qed
  have "0 < length (nodes connected_mesh)" "1 < length (nodes connected_mesh)"
    using connected_mesh_edges by (auto simp: edges_def set_eq_iff)
  then show ?thesis
    using pruning_exact [OF connected_mesh_ok, where P = roomy_platform and th = "Fin 2"] z weak connected_mesh_edges
    by (auto simp: roomy_platform_def split: prod.splits sum.splits)
qed

text \<open> C36. Connecting one pair is connecting the batch of that pair: same result, same exception, same
  mesh, although the two operations check in different orders and look at different endpoints. They
  can differ only when one of the two containers that they build before changing anything cannot be
  allocated; the one that fails then throws \<open>std::bad_alloc\<close> and leaves the mesh alone.
\<close>

theorem connect_is_singleton_batch:
  assumes ok: "mesh_ok m"
  shows "connectNodes P a b m = connectNodePairs P [(a, b)] m \<or>
    \<not> (scratch_room P 0 \<and> scratch_room P 1) \<and>
    (connectNodes P a b m = (Inl Bad_alloc, m) \<or> connectNodePairs P [(a, b)] m = (Inl Bad_alloc, m))"
proof (cases "scratch_room P 0")
  case False
  then have g: "scratch_guard P 0 1 = Inl Bad_alloc" by simp
  have "connectNodePairs P [(a, b)] m = (Inl Bad_alloc, m)" unfolding connectNodePairs_def g by simp
  then show ?thesis using False by simp
next
  case room: True
  then have g: "scratch_guard P 0 1 = Inr ()" by simp
  define v where "v = rbind (validateNodeIndex m a) (\<lambda>_.
          rbind (validateNodeIndex m b) (\<lambda>_.
          rbind (guard_that (a \<noteq> b) (Invalid_argument ''self-connections are not allowed'')) (\<lambda>_.
          guard_that (\<not> connected_to m (nat a) b) (Invalid_argument ''bridge pair already exists''))))"
  have vu: "rbind v (\<lambda>_. Inr ()) = v" by (cases v) simp_all
  have "validate_batch P m [] [(a, b)] = v \<or>
      \<not> scratch_room P 1 \<and> validate_batch P m [] [(a, b)] = Inl Bad_alloc"
  proof (cases "validateNodeIndex m a = Inr () \<and> validateNodeIndex m b = Inr () \<and> a \<noteq> b")
    case True
    then have r: "0 \<le> a" "a < int (length (nodes m))" "0 \<le> b" "b < int (length (nodes m))" "a \<noteq> b"
      by (simp_all add: validateNodeIndex_ok [OF ok])
    show ?thesis
    proof (cases "scratch_room P 1")
      case True
      then have "batch_room P 0 [(a, b)]" by (simp add: batch_room_def)
      then have "is_ok (validate_batch P m [] [(a, b)]) \<longleftrightarrow> is_ok v"
        unfolding is_ok_iff v_def using validate_batch_iff [OF ok, of P "[]" "[(a, b)]"]
          connectNodes_validation [OF ok, of a b] by simp
      then show ?thesis using \<open>validateNodeIndex m a = _ \<and> _\<close> True
        by (auto simp: v_def Let_def guard_that_def scratch_guard_Suc split: if_splits)
    next
      case False
      then show ?thesis using \<open>validateNodeIndex m a = _ \<and> _\<close>
        by (simp add: Let_def scratch_guard_Suc)
    qed
  next
    case False
    then show ?thesis
      by (cases "validateNodeIndex m a"; cases "validateNodeIndex m b") (auto simp: v_def)
  qed
  then show ?thesis
    unfolding connectNodes_def connectNodePairs_def g v_def [symmetric] vu rbind_simps
    by (auto simp: connectPairsUnlocked_def Let_def split: sum.splits prod.splits)
qed

theorem connect_is_singleton_batch_witness:
  "connectNodes roomy_platform 2 0 three_nodes = connectNodePairs roomy_platform [(2, 0)] three_nodes"
  using connect_is_singleton_batch [OF three_nodes_ok, of roomy_platform 2 0]
  by (simp add: roomy_platform_def)

text \<open> C18. Stability: in a well-formed mesh the diffusion coefficient is a positive double of at most 1/4,
  and its exact product with the number of bridges of any node exceeds 4/5 by at most 1e-15, the
  rounding of the three operations that compute it.
\<close>

theorem stability_condition:
  assumes "mesh_ok m"
  shows "0 < val (alpha m) \<and> val (alpha m) \<le> 1 / 4 \<and> isfinite (alpha m) \<and>
    list_all (\<lambda>n. val (alpha m) * of_nat (length (bridges n)) \<le> 4 / 5 + 1 / 10 ^ 15) (nodes m)"
  using mesh_alpha [OF assms] by (auto simp: list_all_iff)

theorem stability_condition_witness:
  "0 < val (alpha connected_mesh) \<and> val (alpha connected_mesh) \<le> 1 / 4"
  using stability_condition [OF connected_mesh_ok] by blast

end
