(* ===== verification/Authority_Laws.thy ===== *)
theory Authority_Laws
  imports Authority
begin

text \<open>
  What the authority layer promises: the derivation policy grants a capability exactly when every
  condition holds and names the first that does not; a live derivation registers what it grants;
  a capability leaves the issued state at most once, stated as the contract \<open>one_shot\<close> that the
  ledger's operations meet; and over the life of a ledger no identity is issued twice.
\<close>

section \<open>The derivation policy\<close>

definition derivation_precedence ::
  "eligibility_decision \<Rightarrow> authority_context \<Rightarrow> (bool \<times> authority_rejection) list" where
  "derivation_precedence elig ctx =
    [(eligibility elig = eligible_for_authority_consideration, eligibility_not_satisfied),
     (binding elig = ctx_binding ctx \<and> liveBindingCurrent ctx, authority_binding_mismatch),
     (stateCurrent ctx, authority_stale_state),
     (transitionClassCurrent ctx, transition_class_mismatch),
     (freshnessSatisfied ctx, freshness_invalid),
     (revalidationSatisfied ctx, authority_revalidation_failed),
     (authorityPolicySatisfied ctx, authority_policy_denied)]"

lemma nextCapabilityId_eq:
  "nextCapabilityId c = (if token_exhausted c
     then (Inl (Overflow_error ''production capability identity space exhausted''), c)
     else (Inr (CapId c), c + 1))"
  by (simp add: nextCapabilityId_def next_token_def)

lemma policy_derive_eq:
  "policy_derive elig ctx c =
    (case first_failure (derivation_precedence elig ctx) of
       Some r \<Rightarrow> (Inr \<lparr>decision = denied, authority_rejectionReason = r, derived_capability = None\<rparr>, c)
     | None \<Rightarrow> if token_exhausted c
         then (Inl (Overflow_error ''production capability identity space exhausted''), c)
         else (Inr \<lparr>decision = capability_issued, authority_rejectionReason = authority_none,
           derived_capability = Some \<lparr>capability_ident = CapId c, capability_domain = ctx_domain ctx,
             capability_binding = binding elig, capability_epoch = authoritativeEpoch ctx\<rparr>\<rparr>, c + 1))"
  by (simp add: policy_derive_def derivation_precedence_def initial_result_def nextCapabilityId_eq)

lemma derivation_precedence_None:
  "first_failure (derivation_precedence elig ctx) = None \<longleftrightarrow>
     eligibility elig = eligible_for_authority_consideration \<and> binding elig = ctx_binding ctx \<and>
     liveBindingCurrent ctx \<and> stateCurrent ctx \<and> transitionClassCurrent ctx \<and>
     freshnessSatisfied ctx \<and> revalidationSatisfied ctx \<and> authorityPolicySatisfied ctx"
  by (auto simp: derivation_precedence_def)

section \<open>One-shot objects\<close>

text \<open>
  A system whose steps may win an object \<open>k\<close>: only an issued object can be won, winning retires it,
  and a retired object stays as it is.
\<close>

definition retired :: "lifecycle option \<Rightarrow> bool" where
  "retired st \<longleftrightarrow> st \<noteq> None \<and> st \<noteq> Some issued"

locale one_shot =
  fixes step :: "'e \<Rightarrow> 's \<Rightarrow> 'r \<times> 's"
    and status_of :: "'s \<Rightarrow> 'k \<Rightarrow> lifecycle option"
    and winner :: "'e \<Rightarrow> 'r \<Rightarrow> 'k option"
  assumes winner_issued: "winner e (fst (step e s)) = Some k \<Longrightarrow> status_of s k = Some issued"
    and winner_retired: "winner e (fst (step e s)) = Some k \<Longrightarrow> retired (status_of (snd (step e s)) k)"
    and retired_stable: "retired (status_of s k) \<Longrightarrow> status_of (snd (step e s)) k = status_of s k"
begin

fun winners :: "'e list \<Rightarrow> 's \<Rightarrow> 'k list" where
  "winners [] s = []"
| "winners (e # es) s = (case winner e (fst (step e s)) of
     None \<Rightarrow> winners es (snd (step e s)) | Some k \<Rightarrow> k # winners es (snd (step e s)))"

fun final :: "'e list \<Rightarrow> 's \<Rightarrow> 's" where
  "final [] s = s"
| "final (e # es) s = final es (snd (step e s))"

lemma retired_not_won: "retired (status_of s k) \<Longrightarrow> k \<notin> set (winners es s)"
proof (induction es arbitrary: s)
  case (Cons e es)
  have "winner e (fst (step e s)) \<noteq> Some k"
    using winner_issued [of e s k] Cons.prems by (auto simp: retired_def)
  moreover have "k \<notin> set (winners es (snd (step e s)))"
    using Cons retired_stable by simp
  ultimately show ?case by (auto split: option.split)
qed simp

lemma winners_distinct: "distinct (winners es s)"
proof (induction es arbitrary: s)
  case (Cons e es)
  then show ?case
    using winner_retired [of e s] retired_not_won by (auto split: option.split)
qed simp

lemma retired_final: "retired (status_of s k) \<Longrightarrow> status_of (final es s) k = status_of s k"
  by (induction es arbitrary: s) (simp_all add: retired_stable)

lemma won_retired_final: "k \<in> set (winners es s) \<Longrightarrow> retired (status_of (final es s) k)"
proof (induction es arbitrary: s)
  case (Cons e es)
  show ?case
  proof (cases "winner e (fst (step e s)) = Some k")
    case True
    then show ?thesis using winner_retired [of e s k] retired_final by simp
  next
    case False
    then show ?thesis using Cons by (auto split: option.splits)
  qed
qed simp

end

section \<open>The ledger is one-shot\<close>

datatype ledger_op =
    Op_register bool execution_capability
  | Op_consume capability_id
  | Op_expire capability_id
  | Op_invalidate capability_id

datatype ledger_answer = Registered "unit result" | Changed bool

fun ledger_step :: "ledger_op \<Rightarrow> authority_ledger \<Rightarrow> ledger_answer \<times> authority_ledger" where
  "ledger_step (Op_register room cap) led = map_prod Registered id (registerIssued room cap led)"
| "ledger_step (Op_consume i) led = map_prod Changed id (markConsumed i led)"
| "ledger_step (Op_expire i) led = map_prod Changed id (markExpired i led)"
| "ledger_step (Op_invalidate i) led = map_prod Changed id (ledger_invalidate i led)"

fun ledger_winner :: "ledger_op \<Rightarrow> ledger_answer \<Rightarrow> capability_id option" where
  "ledger_winner (Op_register _ _) _ = None"
| "ledger_winner (Op_consume i) a = (if a = Changed True then Some i else None)"
| "ledger_winner (Op_expire i) a = (if a = Changed True then Some i else None)"
| "ledger_winner (Op_invalidate i) a = (if a = Changed True then Some i else None)"

lemma lifecycleState_upd:
  "lifecycleState i (led\<lparr>ledger_records := (ledger_records led)(id_token j \<mapsto> r)\<rparr>) =
     (if i = j then Some (rec_state r) else lifecycleState i led)"
  by (auto simp: lifecycleState_def intro: capability_id.expand)

lemma transitionFromIssued_eq:
  "fst (transitionFromIssued i st led) \<longleftrightarrow> lifecycleState i led = Some issued"
  "lifecycleState j (snd (transitionFromIssued i st led)) =
     (if j = i \<and> lifecycleState i led = Some issued then Some st else lifecycleState j led)"
  by (auto simp: transitionFromIssued_def lifecycleState_upd lifecycleState_def
      split: option.splits intro: capability_id.expand)

lemma registerIssued_state:
  "lifecycleState j (snd (registerIssued room cap led)) =
     (if fst (registerIssued room cap led) = Inr () \<and> j = capability_ident cap
      then Some issued else lifecycleState j led)"
  by (auto simp: registerIssued_def lifecycleState_upd Let_def)

lemma registerIssued_Inr_iff:
  "fst (registerIssued room cap led) = Inr u \<longleftrightarrow>
     room \<and> capability_domain cap = ledger_domain led \<and> lifecycleState (capability_ident cap) led = None"
  by (auto simp: registerIssued_def lifecycleState_def Let_def)

interpretation ledger: one_shot ledger_step "\<lambda>led i. lifecycleState i led" ledger_winner
proof
  fix e :: ledger_op and led i
  show "lifecycleState i led = Some issued" if "ledger_winner e (fst (ledger_step e led)) = Some i"
    using that by (cases e) (auto simp: markConsumed_def markExpired_def ledger_invalidate_def
      transitionFromIssued_eq split: if_splits)
  show "retired (lifecycleState i (snd (ledger_step e led)))"
    if "ledger_winner e (fst (ledger_step e led)) = Some i"
    using that by (cases e) (auto simp: markConsumed_def markExpired_def ledger_invalidate_def
      transitionFromIssued_eq retired_def split: if_splits)
  show "lifecycleState i (snd (ledger_step e led)) = lifecycleState i led"
    if "retired (lifecycleState i led)"
    using that registerIssued_Inr_iff
    by (cases e) (auto simp: markConsumed_def markExpired_def ledger_invalidate_def
      transitionFromIssued_eq registerIssued_state retired_def)
qed

text \<open>The identities whose lifecycle a sequence of ledger operations ended, in order.\<close>

fun ledger_retired_ids :: "ledger_op list \<Rightarrow> authority_ledger \<Rightarrow> capability_id list" where
  "ledger_retired_ids [] led = []"
| "ledger_retired_ids (e # es) led =
     (let (a, led') = ledger_step e led in
      (case ledger_winner e a of None \<Rightarrow> ledger_retired_ids es led'
       | Some i \<Rightarrow> i # ledger_retired_ids es led'))"

fun ledger_run :: "ledger_op list \<Rightarrow> authority_ledger \<Rightarrow> authority_ledger" where
  "ledger_run [] led = led"
| "ledger_run (e # es) led = ledger_run es (snd (ledger_step e led))"

lemma ledger_retired_ids_eq: "ledger_retired_ids es led = ledger.winners es led"
  by (induction es arbitrary: led) (auto simp: split_beta Let_def split: option.splits)

lemma ledger_run_eq: "ledger_run es led = ledger.final es led"
  by (induction es arbitrary: led) simp_all

text \<open>
  C14. However consuming, expiring, invalidating and registering are mixed, each capability identity
  leaves the issued state at most once; from then on its lifecycle state never changes again, so it
  cannot be registered anew either.
\<close>

theorem ledger_single_use:
  "distinct (ledger_retired_ids ops led) \<and>
   set (ledger_retired_ids ops led) \<subseteq>
     {i. retired (lifecycleState i (ledger_run ops led)) \<and>
         lifecycleState i (ledger_run later (ledger_run ops led)) = lifecycleState i (ledger_run ops led)}"
  using ledger.winners_distinct [of ops led] ledger.won_retired_final [of _ ops led]
    ledger.retired_final [where s = "ledger.final ops led" and es = later]
  by (auto simp: ledger_retired_ids_eq ledger_run_eq)

section \<open>The live derivation\<close>

text \<open>The answers a backend has to give for a capability to be issued.\<close>

definition live_chain :: "'s backend \<Rightarrow> request_binding \<Rightarrow> 's \<Rightarrow> 's \<Rightarrow> u64 \<Rightarrow> bool" where
  "live_chain B request s t epoch \<longleftrightarrow>
     (\<exists>rel snap d s1 s2 s3 s4.
        resolveCurrentRelationship B \<lparr>loc_source = relSourceNodeId (relationship request),
            loc_target = relTargetNodeId (relationship request)\<rparr> s
          = (Inr \<lparr>res_status = resolved, res_relationship = Some rel\<rparr>, s1) \<and>
        materializeRelationship rel = relationship request \<and>
        captureSnapshot B rel s1 = (Inr \<lparr>capt_status = complete, capt_snapshot = Some snap\<rparr>, s2) \<and>
        StateVersion (captured_version_value (snap_stateVersion snap)) = stateVersion request \<and>
        TransitionClassId (resolved_class_value (snap_transitionClass snap)) = transitionClass request \<and>
        deriveDirection B snap s2 = (Inr \<lparr>der_status = derived, der_direction = Some d\<rparr>, s3) \<and>
        dir_lineage d = snap_lineage snap \<and> dir_direction d = direction request \<and>
        validateFreshness B snap d s3 = (Inr satisfied, s4) \<and>
        revalidate B snap d s4 = (Inr revalidated, t) \<and>
        epoch = snap_lineage snap)"

definition all_found :: "u64 \<Rightarrow> live_findings" where
  "all_found epoch = \<lparr>lf_liveBindingCurrent = True, lf_stateCurrent = True,
     lf_transitionClassCurrent = True, lf_freshnessSatisfied = True,
     lf_revalidationSatisfied = True, lf_epoch = epoch\<rparr>"

lemma live_direction_all:
  assumes "lf = no_findings\<lparr>lf_liveBindingCurrent := True, lf_epoch := e0, lf_stateCurrent := True,
    lf_transitionClassCurrent := True\<rparr>"
  shows "live_direction B request snap lf s = (Inr (all_found e), t) \<longleftrightarrow> e = e0 \<and>
    (\<exists>d s1 s2. deriveDirection B snap s = (Inr \<lparr>der_status = derived, der_direction = Some d\<rparr>, s1) \<and>
       dir_lineage d = snap_lineage snap \<and> dir_direction d = direction request \<and>
       validateFreshness B snap d s1 = (Inr satisfied, s2) \<and>
       revalidate B snap d s2 = (Inr revalidated, t))"
proof -
  have fresh: "abind (validateFreshness B snap d) (\<lambda>fresh.
        if fresh \<noteq> satisfied then areturn (lf\<lparr>lf_freshnessSatisfied := False\<rparr>)
        else abind (revalidate B snap d) (\<lambda>rv. areturn (lf\<lparr>lf_freshnessSatisfied := True,
                 lf_revalidationSatisfied := (rv = revalidated)\<rparr>))) s1 = (Inr (all_found e), t) \<longleftrightarrow>
     e = e0 \<and> (\<exists>s2. validateFreshness B snap d s1 = (Inr satisfied, s2) \<and>
       revalidate B snap d s2 = (Inr revalidated, t))" for d s1
    by (cases "validateFreshness B snap d s1"; cases "fst (validateFreshness B snap d s1)")
      (auto simp: abind_def areturn_def all_found_def assms no_findings_def split: prod.splits sum.splits)
  have der: "(case der_direction der of None \<Rightarrow> areturn (lf\<lparr>lf_liveBindingCurrent := False\<rparr>)
       | Some d \<Rightarrow> if der_status der \<noteq> derived \<or> dir_lineage d \<noteq> snap_lineage snap \<or>
              dir_direction d \<noteq> direction request
           then areturn (lf\<lparr>lf_liveBindingCurrent := False\<rparr>) else k d) s1 = (Inr (all_found e), t) \<longleftrightarrow>
     (\<exists>d. der = \<lparr>der_status = derived, der_direction = Some d\<rparr> \<and> dir_lineage d = snap_lineage snap \<and>
        dir_direction d = direction request \<and> k d s1 = (Inr (all_found e), t))"
    for der s1 and k :: "derived_direction \<Rightarrow> ('a, live_findings) action"
  proof -
    have ne: "lf\<lparr>lf_liveBindingCurrent := False\<rparr> \<noteq> all_found e"
      by (simp add: all_found_def assms no_findings_def)
    then show ?thesis by (cases der; cases "der_direction der") auto
  qed
  show ?thesis unfolding live_direction_def abind_eq_Inr [where m = "deriveDirection B snap"] der fresh
    by blast
qed

lemma live_snapshot_all:
  "live_snapshot B request rel (no_findings\<lparr>lf_liveBindingCurrent := True\<rparr>) s = (Inr (all_found e), t) \<longleftrightarrow>
    (\<exists>snap d s2 s3 s4.
        captureSnapshot B rel s = (Inr \<lparr>capt_status = complete, capt_snapshot = Some snap\<rparr>, s2) \<and>
        StateVersion (captured_version_value (snap_stateVersion snap)) = stateVersion request \<and>
        TransitionClassId (resolved_class_value (snap_transitionClass snap)) = transitionClass request \<and>
        deriveDirection B snap s2 = (Inr \<lparr>der_status = derived, der_direction = Some d\<rparr>, s3) \<and>
        dir_lineage d = snap_lineage snap \<and> dir_direction d = direction request \<and>
        validateFreshness B snap d s3 = (Inr satisfied, s4) \<and>
        revalidate B snap d s4 = (Inr revalidated, t) \<and> e = snap_lineage snap)"
proof -
  have sc: "StateVersion v = sv \<longleftrightarrow> v = opaqueVersion sv" "TransitionClassId w = tc \<longleftrightarrow> w = opaqueClassId tc"
    for v sv w tc by (cases sv; auto) (cases tc; auto)
  have capt: "(case capt_snapshot capt of None \<Rightarrow> areturn lf
       | Some snap \<Rightarrow> if capt_status capt \<noteq> complete then areturn lf
           else let a = P snap; b = Q snap;
                    lf1 = lf\<lparr>lf_epoch := snap_lineage snap, lf_stateCurrent := a,
                             lf_transitionClassCurrent := b\<rparr>
                in if a \<and> b then k snap lf1 else areturn lf1) s1 = (Inr (all_found e), t) \<longleftrightarrow>
     (\<exists>snap. capt = \<lparr>capt_status = complete, capt_snapshot = Some snap\<rparr> \<and> P snap \<and> Q snap \<and>
        k snap (lf\<lparr>lf_epoch := snap_lineage snap, lf_stateCurrent := True,
          lf_transitionClassCurrent := True\<rparr>) s1 = (Inr (all_found e), t))"
    if "lf = no_findings\<lparr>lf_liveBindingCurrent := True\<rparr>"
    for lf capt P Q s1 and k :: "transition_snapshot \<Rightarrow> live_findings \<Rightarrow> ('a, live_findings) action"
    using that by (cases capt; cases "capt_snapshot capt") (auto simp: all_found_def no_findings_def Let_def)
  show ?thesis
    unfolding live_snapshot_def abind_eq_Inr capt [OF refl] sc
    by (simp add: live_direction_all) blast
qed

lemma live_findings_all:
  "live_findings_of B elig s = (Inr (all_found e), t) \<longleftrightarrow>
     eligibility elig = eligible_for_authority_consideration \<and> live_chain B (binding elig) s t e"
proof (cases "eligibility elig = eligible_for_authority_consideration")
  case True
  have live: "materializeRelationship rel = r \<longleftrightarrow> cap_source rel = relSourceNodeId r \<and>
      cap_target rel = relTargetNodeId r \<and> cap_generation rel = generation r" for rel r
    by (cases r) (auto simp: materializeRelationship_def)
  have res: "(case res_relationship res of None \<Rightarrow> areturn no_findings
       | Some rel \<Rightarrow> if res_status res \<noteq> resolved then areturn no_findings
           else let live = L rel; lf = no_findings\<lparr>lf_liveBindingCurrent := live\<rparr>
                in if live then k rel lf else areturn lf) s1 = (Inr (all_found e), t) \<longleftrightarrow>
     (\<exists>rel. res = \<lparr>res_status = resolved, res_relationship = Some rel\<rparr> \<and> L rel \<and>
        k rel (no_findings\<lparr>lf_liveBindingCurrent := True\<rparr>) s1 = (Inr (all_found e), t))"
    for res L s1 and k :: "captured_relationship \<Rightarrow> live_findings \<Rightarrow> ('a, live_findings) action"
    by (cases res; cases "res_relationship res") (auto simp: all_found_def no_findings_def Let_def)
  have "live_findings_of B elig s = (Inr (all_found e), t) \<longleftrightarrow> live_chain B (binding elig) s t e"
    unfolding live_findings_of_def live_chain_def if_not_P [OF not_not [THEN iffD2, OF True]]
      Let_def [of "binding elig"] Let_def [of "relationship (binding elig)"]
      abind_eq_Inr res live_snapshot_all live
    by blast
  then show ?thesis using True by simp
next
  case False
  then show ?thesis by (simp add: live_findings_of_def no_findings_def all_found_def)
qed

definition issued_capability ::
  "authority_ledger \<Rightarrow> request_binding \<Rightarrow> u64 \<Rightarrow> u64 \<Rightarrow> execution_capability" where
  "issued_capability led request c epoch =
    \<lparr>capability_ident = CapId c, capability_domain = ledger_domain led,
     capability_binding = request, capability_epoch = epoch\<rparr>"

abbreviation granted :: "execution_capability \<Rightarrow> derivation_result" where
  "granted cap \<equiv> \<lparr>decision = capability_issued, authority_rejectionReason = authority_none,
     derived_capability = Some cap\<rparr>"

lemma live_policy_issues:
  "policy_derive elig (live_context d (binding elig) lf pol) c = (Inr res, c') \<and>
     decision res = capability_issued \<longleftrightarrow>
   eligibility elig = eligible_for_authority_consideration \<and> lf = all_found (lf_epoch lf) \<and> pol \<and>
   \<not> token_exhausted c \<and> c' = c + 1 \<and>
   res = granted \<lparr>capability_ident = CapId c, capability_domain = d,
     capability_binding = binding elig, capability_epoch = lf_epoch lf\<rparr>"
  using derivation_precedence_None [of elig "live_context d (binding elig) lf pol"]
  by (cases lf; cases "first_failure (derivation_precedence elig (live_context d (binding elig) lf pol))")
    (auto simp: policy_derive_eq live_context_def all_found_def)

lemma register_granted:
  "register_result room (granted cap) led = registerIssued room cap led"
  by (simp add: register_result_def)

lemma live_derivation_Inr:
  "live_derivation room B elig pol (s, led, c) = (Inr res, (t, led', c')) \<longleftrightarrow>
    (\<exists>lf. live_findings_of B elig s = (Inr lf, t) \<and>
       policy_derive elig (live_context (ledger_domain led) (binding elig) lf pol) c = (Inr res, c') \<and>
       register_result room res led = (Inr (), led'))"
  by (auto simp: live_derivation_def split: prod.splits sum.splits)

text \<open>
  C20. A live derivation issues a capability exactly when the decision is eligible, the caller's
  policy allows it, an identity and memory are left, and every answer of the backend, asked again,
  matches the request; it is then the capability for that request in the ledger's domain, issued at
  the snapshot's lineage, and it is what the ledger registers.
\<close>

theorem live_derivation_issues_iff:
  "live_derivation room B elig pol (s, led, c) = (Inr res, (t, led', c')) \<and>
     decision res = capability_issued \<longleftrightarrow>
   eligibility elig = eligible_for_authority_consideration \<and> pol \<and> \<not> token_exhausted c \<and> room \<and>
   lifecycleState (CapId c) led = None \<and> c' = c + 1 \<and>
   (\<exists>epoch. live_chain B (binding elig) s t epoch \<and>
      res = granted (issued_capability led (binding elig) c epoch) \<and>
      led' = led\<lparr>ledger_records := (ledger_records led)(c \<mapsto>
        \<lparr>rec_binding = binding elig, rec_issuanceEpoch = epoch, rec_state = issued\<rparr>)\<rparr>)"
    (is "?L \<longleftrightarrow> ?R")
proof -
  have reg: "registerIssued room (issued_capability led r c epoch) led = (Inr (), led') \<longleftrightarrow>
      room \<and> lifecycleState (CapId c) led = None \<and>
      led' = led\<lparr>ledger_records := (ledger_records led)(c \<mapsto>
        \<lparr>rec_binding = r, rec_issuanceEpoch = epoch, rec_state = issued\<rparr>)\<rparr>" for r epoch
    by (auto simp: registerIssued_def issued_capability_def lifecycleState_def Let_def)
  have "?L \<longleftrightarrow> (\<exists>lf. live_findings_of B elig s = (Inr lf, t) \<and>
      (policy_derive elig (live_context (ledger_domain led) (binding elig) lf pol) c = (Inr res, c') \<and>
       decision res = capability_issued) \<and> register_result room res led = (Inr (), led'))"
    unfolding live_derivation_Inr by blast
  also have "\<dots> \<longleftrightarrow> (\<exists>epoch. live_findings_of B elig s = (Inr (all_found epoch), t) \<and>
      eligibility elig = eligible_for_authority_consideration \<and> pol \<and> \<not> token_exhausted c \<and>
      c' = c + 1 \<and> res = granted (issued_capability led (binding elig) c epoch) \<and>
      registerIssued room (issued_capability led (binding elig) c epoch) led = (Inr (), led'))"
    unfolding live_policy_issues issued_capability_def
    by (auto simp: register_granted) (auto simp: all_found_def register_granted)
  also have "\<dots> \<longleftrightarrow> ?R" unfolding live_findings_all reg by blast
  finally show ?thesis .
qed

lemma registerIssued_Inl: "registerIssued room cap led = (Inl e, led') \<Longrightarrow> led' = led"
  by (auto simp: registerIssued_def Let_def split: if_splits)

text \<open>
  Nothing is registered unless a capability is returned: a denial or an exception, from the
  backend, from the identity counter or from the registration itself, leaves the ledger as it was.
\<close>

lemma live_derivation_fail_closed:
  "(case live_derivation room B elig pol (s, led, c) of
      (Inr res, (_, led', _)) \<Rightarrow>
        led' = (if decision res = capability_issued then led' else led) \<and>
        (derived_capability res = None) = (decision res = denied)
    | (Inl _, (_, led', _)) \<Rightarrow> led' = led)"
proof -
  have "(derived_capability res = None) = (decision res = denied) \<and>
      (decision res \<noteq> capability_issued \<longrightarrow> derived_capability res = None)"
    if "policy_derive elig ctx c = (Inr res, c')" for ctx res c'
    using that by (auto simp: policy_derive_eq split: option.splits if_splits)
  moreover have "led' = led" if "register_result room res led = (Inl e, led')" for res e led'
    using that registerIssued_Inl by (auto simp: register_result_def split: if_splits option.splits)
  moreover have "led' = led" if "register_result room res led = (Inr u, led')"
    "decision res \<noteq> capability_issued" for res u led'
    using that by (simp add: register_result_def)
  ultimately show ?thesis
    by (auto simp: live_derivation_def split: prod.splits sum.splits) blast+
qed

section \<open>One ledger over time\<close>

text \<open>
  What can happen to a ledger and to the process-wide identity counter: a live derivation, an identity
  taken by another ledger, the end of a capability's life, and any change of what the backend reads.
  A step also returns the capability it issued, if any.
\<close>

datatype 's authority_event =
    Ev_derive bool eligibility_decision bool
  | Ev_identity_elsewhere
  | Ev_consume capability_id
  | Ev_expire capability_id
  | Ev_invalidate capability_id
  | Ev_backend 's

fun capability_of :: "derivation_result result \<Rightarrow> execution_capability list" where
  "capability_of (Inl _) = []"
| "capability_of (Inr res) = (case derived_capability res of None \<Rightarrow> [] | Some cap \<Rightarrow> [cap])"

fun authority_step ::
  "'s backend \<Rightarrow> 's authority_event \<Rightarrow> 's \<times> authority_ledger \<times> u64 \<Rightarrow>
     execution_capability list \<times> ('s \<times> authority_ledger \<times> u64)" where
  "authority_step B (Ev_derive room elig pol) st =
     (let (r, st') = live_derivation room B elig pol st in (capability_of r, st'))"
| "authority_step B Ev_identity_elsewhere (s, led, c) = ([], (s, led, snd (nextCapabilityId c)))"
| "authority_step B (Ev_consume i) (s, led, c) = ([], (s, snd (markConsumed i led), c))"
| "authority_step B (Ev_expire i) (s, led, c) = ([], (s, snd (markExpired i led), c))"
| "authority_step B (Ev_invalidate i) (s, led, c) = ([], (s, snd (ledger_invalidate i led), c))"
| "authority_step B (Ev_backend s') (s, led, c) = ([], (s', led, c))"

fun authority_run ::
  "'s backend \<Rightarrow> 's authority_event list \<Rightarrow> 's \<times> authority_ledger \<times> u64 \<Rightarrow>
     execution_capability list \<times> ('s \<times> authority_ledger \<times> u64)" where
  "authority_run B [] st = ([], st)"
| "authority_run B (e # es) st =
     (let (caps, st1) = authority_step B e st; (caps', st2) = authority_run B es st1 in (caps @ caps', st2))"

abbreviation cap_token :: "execution_capability \<Rightarrow> u64" where
  "cap_token cap \<equiv> id_token (capability_ident cap)"

text \<open>What the ledger says a capability was issued for, whatever became of it since.\<close>

definition issued_for :: "authority_ledger \<Rightarrow> u64 \<rightharpoonup> request_binding \<times> u64" where
  "issued_for led key = map_option (\<lambda>r. (rec_binding r, rec_issuanceEpoch r)) (ledger_records led key)"

definition granted_for :: "execution_capability list \<Rightarrow> u64 \<rightharpoonup> request_binding \<times> u64" where
  "granted_for caps = map_of (map (\<lambda>cap. (cap_token cap, capability_binding cap, capability_epoch cap)) caps)"

lemma not_exhausted_less: "\<not> token_exhausted c \<Longrightarrow> c < c + 1"
  using unat_Suc_not_max [of c] by (simp add: token_exhausted_def word_less_nat_alt)

lemma policy_outcome:
  assumes "policy_derive elig ctx c = (r, c')"
  obtains (exhausts) "r = Inl (Overflow_error ''production capability identity space exhausted'')"
      "token_exhausted c" "c' = c"
  | (rejects) res where "r = Inr res" "decision res = denied" "derived_capability res = None" "c' = c"
  | (issues) "r = Inr (granted \<lparr>capability_ident = CapId c, capability_domain = ctx_domain ctx,
        capability_binding = binding elig, capability_epoch = authoritativeEpoch ctx\<rparr>)"
      "\<not> token_exhausted c" "c' = c + 1"
proof (cases "first_failure (derivation_precedence elig ctx)")
  case (Some x)
  then have "r = Inr \<lparr>decision = denied, authority_rejectionReason = x, derived_capability = None\<rparr>" "c' = c"
    using assms by (simp_all add: policy_derive_eq)
  then show thesis
    by (intro rejects [of "\<lparr>decision = denied, authority_rejectionReason = x, derived_capability = None\<rparr>"])
      simp_all
next
  case None
  show thesis
  proof (cases "token_exhausted c")
    case True
    then show thesis using assms None by (intro exhausts) (simp_all add: policy_derive_eq)
  next
    case False
    then show thesis using assms None by (intro issues) (simp_all add: policy_derive_eq)
  qed
qed

text \<open>One live derivation either leaves the ledger alone or adds exactly what it grants.\<close>

lemma live_derivation_eq:
  "live_findings_of B elig s = (Inl e, t) \<Longrightarrow>
     live_derivation room B elig pol (s, led, c) = (Inl e, (t, led, c))"
  "live_findings_of B elig s = (Inr lf, t) \<Longrightarrow>
     policy_derive elig (live_context (ledger_domain led) (binding elig) lf pol) c = (Inl e, c') \<Longrightarrow>
     live_derivation room B elig pol (s, led, c) = (Inl e, (t, led, c'))"
  "live_findings_of B elig s = (Inr lf, t) \<Longrightarrow>
     policy_derive elig (live_context (ledger_domain led) (binding elig) lf pol) c = (Inr res, c') \<Longrightarrow>
     live_derivation room B elig pol (s, led, c) =
       (case register_result room res led of
          (Inl e, led') \<Rightarrow> (Inl e, (t, led', c')) | (Inr _, led') \<Rightarrow> (Inr res, (t, led', c')))"
  by (simp_all add: live_derivation_def)

text \<open>Its outcomes: it throws, denies, fails to register a new capability, or issues it.\<close>

lemma live_derivation_cases:
  assumes "live_derivation room B elig pol (s, led, c) = (r, (t, led', c'))"
  obtains (threw) e where "r = Inl e" "led' = led" "c' = c" "fst (live_findings_of B elig s) = Inl e \<or>
      e = Overflow_error ''production capability identity space exhausted'' \<and> token_exhausted c"
  | (denies) res where "r = Inr res" "derived_capability res = None" "led' = led" "c' = c"
  | (unregistered) e epoch where "r = Inl e" "c < c'"
      "registerIssued room (issued_capability led (binding elig) c epoch) led = (Inl e, led')"
  | (grants) epoch where "r = Inr (granted (issued_capability led (binding elig) c epoch))" "c < c'"
      "registerIssued room (issued_capability led (binding elig) c epoch) led = (Inr (), led')"
proof (cases "live_findings_of B elig s")
  case (Pair fr s1)
  show thesis
  proof (cases fr)
    case (Inl e)
    then have found: "live_findings_of B elig s = (Inl e, s1)" using Pair by simp
    then show thesis using assms live_derivation_eq(1) [OF found] by (intro threw [of e]) simp_all
  next
    case (Inr lf)
    let ?ctx = "live_context (ledger_domain led) (binding elig) lf pol"
    let ?cap = "issued_capability led (binding elig) c (lf_epoch lf)"
    note found = Pair [unfolded Inr]
    obtain pr pc where pol: "policy_derive elig ?ctx c = (pr, pc)" by fastforce
    from pol show thesis
    proof (cases rule: policy_outcome)
      case exhausts
      then show thesis using assms live_derivation_eq(2) [OF found pol [unfolded exhausts(1)]]
        by (intro threw [of "Overflow_error ''production capability identity space exhausted''"]) auto
    next
      case (rejects res)
      have "register_result room res led = (Inr (), led)" using rejects(2) by (simp add: register_result_def)
      then show thesis using assms live_derivation_eq(3) [OF found pol [unfolded rejects(1)]] rejects(3,4)
        by (intro denies [of res]) simp_all
    next
      case issues
      then have pr: "pr = Inr (granted ?cap)" by (simp add: issued_capability_def live_context_def)
      note eq = live_derivation_eq(3) [OF found pol [unfolded pr], of room, unfolded register_granted]
      obtain q led1 where reg: "registerIssued room ?cap led = (q, led1)" by fastforce
      show thesis using unregistered [of _ "lf_epoch lf"] grants [of "lf_epoch lf"] assms eq
          not_exhausted_less [OF issues(2)] issues(3) reg by (cases q) simp_all
    qed
  qed
qed

lemma registerIssued_cases:
  assumes "registerIssued room (issued_capability led request c epoch) led = (q, led')"
  shows "q = Inl e \<Longrightarrow> led' = led \<and> (issued_for led c = None \<longrightarrow> e = Bad_alloc \<and> \<not> room)"
    "q = Inr u \<Longrightarrow> led' = led\<lparr>ledger_records := (ledger_records led)(c \<mapsto>
       \<lparr>rec_binding = request, rec_issuanceEpoch = epoch, rec_state = issued\<rparr>)\<rparr>"
  using assms by (auto simp: registerIssued_def issued_capability_def issued_for_def Let_def split: if_splits)

lemma live_derivation_effect:
  assumes "live_derivation room B elig pol (s, led, c) = (r, (t, led', c'))"
  shows "(capability_of r = [] \<and> led' = led \<and> c \<le> c') \<or>
    (\<exists>epoch. capability_of r = [issued_capability led (binding elig) c epoch] \<and> c < c' \<and>
       led' = led\<lparr>ledger_records := (ledger_records led)(c \<mapsto>
         \<lparr>rec_binding = binding elig, rec_issuanceEpoch = epoch, rec_state = issued\<rparr>)\<rparr>)"
  using assms
proof (cases rule: live_derivation_cases)
  case (unregistered e epoch)
  then show ?thesis using registerIssued_cases(1) [OF unregistered(3) refl] by simp
next
  case (grants epoch)
  then show ?thesis using registerIssued_cases(2) [OF grants(3) refl] by auto
qed simp_all

lemma live_derivation_errors:
  assumes "live_derivation room B elig pol (s, led, c) = (Inl e, st)" "issued_for led c = None"
  shows "fst (live_findings_of B elig s) = Inl e \<or>
    e = Overflow_error ''production capability identity space exhausted'' \<and> token_exhausted c \<or>
    e = Bad_alloc \<and> \<not> room"
proof -
  obtain t led' c' where "st = (t, led', c')" by (metis prod_cases3)
  from assms(1) [unfolded this] show ?thesis
  proof (cases rule: live_derivation_cases)
    case (unregistered e' epoch)
    then show ?thesis using registerIssued_cases(1) [OF unregistered(3) refl] assms(2) by simp
  qed auto
qed

lemma transition_issued_for [simp]:
  "issued_for (snd (transitionFromIssued i st led)) = issued_for led"
  "ledger_domain (snd (transitionFromIssued i st led)) = ledger_domain led"
  by (auto simp: transitionFromIssued_def issued_for_def fun_eq_iff split: option.splits)

lemma authority_step_effect:
  assumes "authority_step B e (s, led, c) = (caps, (t, led', c'))"
  shows "c \<le> c'" "length caps \<le> 1" "ledger_domain led' = ledger_domain led"
    "\<forall>cap \<in> set caps. cap_token cap = c \<and> c < c' \<and> capability_domain cap = ledger_domain led"
    "issued_for led' = issued_for led ++ granted_for caps"
proof -
  have "c \<le> c' \<and> length caps \<le> 1 \<and> ledger_domain led' = ledger_domain led \<and>
    (\<forall>cap \<in> set caps. cap_token cap = c \<and> c < c' \<and> capability_domain cap = ledger_domain led) \<and>
    issued_for led' = issued_for led ++ granted_for caps"
  proof (cases e)
    case (Ev_derive room elig pol)
    then obtain r where "live_derivation room B elig pol (s, led, c) = (r, (t, led', c'))"
      "caps = capability_of r" using assms by (auto split: prod.splits)
    then show ?thesis using live_derivation_effect
      by (fastforce simp: issued_capability_def issued_for_def granted_for_def fun_eq_iff)
  next
    case Ev_identity_elsewhere
    then show ?thesis using assms not_exhausted_less [of c]
      by (auto simp: nextCapabilityId_eq granted_for_def intro: less_imp_le)
  qed (use assms in \<open>auto simp: markConsumed_def markExpired_def ledger_invalidate_def granted_for_def\<close>)
  then show "c \<le> c'" "length caps \<le> 1" "ledger_domain led' = ledger_domain led"
    "\<forall>cap \<in> set caps. cap_token cap = c \<and> c < c' \<and> capability_domain cap = ledger_domain led"
    "issued_for led' = issued_for led ++ granted_for caps" by blast+
qed

lemma granted_for_dom: "key \<in> dom (granted_for caps) \<longleftrightarrow> (\<exists>cap \<in> set caps. cap_token cap = key)"
  by (auto simp: granted_for_def dom_map_of_conv_image_fst image_image)

lemma granted_for_Some: "(\<exists>v. granted_for caps key = Some v) \<longleftrightarrow> (\<exists>cap \<in> set caps. cap_token cap = key)"
  using granted_for_dom [of key caps] by (simp only: domIff not_None_eq)

lemma granted_for_append:
  assumes "\<forall>x \<in> set xs. cap_token x < k" "\<forall>y \<in> set ys. k \<le> cap_token y"
  shows "granted_for (xs @ ys) = granted_for xs ++ granted_for ys"
proof -
  have "dom (granted_for xs) \<inter> dom (granted_for ys) = {}"
    using assms unfolding disjoint_iff granted_for_dom by (metis leD)
  then show ?thesis using map_add_comm [of "granted_for xs" "granted_for ys"]
    by (simp add: granted_for_def)
qed

lemma authority_run_effect:
  assumes "authority_run B es (s, led, c) = (caps, (t, led', c'))"
  shows "c \<le> c' \<and> sorted_wrt (<) (map cap_token caps) \<and>
    (\<forall>cap \<in> set caps. capability_domain cap = ledger_domain led \<and> c \<le> cap_token cap \<and> cap_token cap < c') \<and>
    issued_for led' = issued_for led ++ granted_for caps"
  using assms
proof (induction es arbitrary: s led c caps)
  case Nil
  then show ?case by (simp add: granted_for_def)
next
  case (Cons e es)
  obtain caps1 s1 led1 c1 where st: "authority_step B e (s, led, c) = (caps1, (s1, led1, c1))"
    by (metis prod_cases4)
  obtain caps2 where run: "authority_run B es (s1, led1, c1) = (caps2, (t, led', c'))"
    and caps: "caps = caps1 @ caps2"
    using Cons.prems by (auto simp: st split: prod.splits)
  note step = authority_step_effect [OF st] and rest = Cons.IH [OF run]
  have sorted: "sorted_wrt (<) (map cap_token caps1)"
    using step(2) by (cases caps1) (auto simp: le_Suc_eq)
  have app: "granted_for caps = granted_for caps1 ++ granted_for caps2"
    unfolding caps using step(4) rest by (intro granted_for_append [of _ c1]) auto
  have less: "cap_token x < cap_token y" if "x \<in> set caps1" "y \<in> set caps2" for x y
    using step(4) rest that by (metis order_less_le_trans)
  have "sorted_wrt (<) (map cap_token caps)"
    using sorted rest less by (auto simp: caps sorted_wrt_append)
  moreover have "c \<le> c'" using step(1) rest by (blast intro: order_trans)
  moreover have "capability_domain cap = ledger_domain led \<and> c \<le> cap_token cap \<and> cap_token cap < c'"
    if "cap \<in> set caps" for cap
    using that step(1,3,4) rest unfolding caps by (auto intro: order_less_le_trans order_trans)
  ultimately show ?case using step(5) rest by (simp add: app map_add_assoc)
qed

text \<open>
  C35. Over any life of a new ledger, with live derivations that succeed or fail for whatever reason,
  capabilities that are consumed, expired or invalidated, other ledgers that take identities and a
  backend that changes in between, the identities the ledger issues increase strictly, so that none
  is given twice; they lie between the first and the last value of the counter and carry the
  ledger's domain. The ledger holds exactly one record per issued capability, with the binding and
  epoch it was issued for. And a next derivation can only throw because the backend did, because
  the identities are exhausted or because memory is: never because an identity collides.
\<close>

theorem issued_identities_unique:
  assumes "authority_run B es (s, new_ledger d, c) = (caps, (t, led, c'))"
  shows "sorted_wrt (<) (map cap_token caps) \<and>
    (\<forall>cap \<in> set caps. capability_domain cap = d \<and> c \<le> cap_token cap \<and> cap_token cap < c') \<and>
    issued_for led = granted_for caps \<and>
    (\<forall>room elig pol e st. live_derivation room B elig pol (t, led, c') = (Inl e, st) \<longrightarrow>
       fst (live_findings_of B elig t) = Inl e \<or>
       e = Overflow_error ''production capability identity space exhausted'' \<and> token_exhausted c' \<or>
       e = Bad_alloc \<and> \<not> room)"
proof -
  note run = authority_run_effect [OF assms]
  have new: "issued_for (new_ledger d) = Map.empty" "ledger_domain (new_ledger d) = d"
    by (simp_all add: issued_for_def new_ledger_def fun_eq_iff)
  have led: "issued_for led = granted_for caps" using run by (simp add: new)
  have "c' \<notin> dom (granted_for caps)" using run unfolding granted_for_dom by blast
  then have "issued_for led c' = None" unfolding led by (simp only: domIff simp_thms)
  note errors = live_derivation_errors [OF _ this]
  show ?thesis
  proof (intro conjI allI impI)
    show "sorted_wrt (<) (map cap_token caps)" using run by blast
    show "\<forall>cap \<in> set caps. capability_domain cap = d \<and> c \<le> cap_token cap \<and> cap_token cap < c'"
      using run unfolding new by blast
    show "issued_for led = granted_for caps" by (rule led)
  qed (rule errors)
qed

text \<open>A backend whose answers all match one request.\<close>

definition agreeing_backend :: "request_binding \<Rightarrow> unit backend" where
  "agreeing_backend q = \<lparr>
     resolveCurrentRelationship = (\<lambda>_ s. (Inr (resolvedRelationship (relSourceNodeId (relationship q))
       (relTargetNodeId (relationship q)) (generation (relationship q)) 0 0), s)),
     captureSnapshot = (\<lambda>rel s. (Inr (completeSnapshot rel (opaqueVersion (stateVersion q))
       (opaqueClassId (transitionClass q)) 7 (persistence_state_of record_gate) (Lineage 0)), s)),
     deriveDirection = (\<lambda>snap s. (Inr (derivedRequest snap (direction q)), s)),
     validatePermission = (\<lambda>_ _ s. (Inr satisfied, s)),
     validateInvariant = (\<lambda>_ _ s. (Inr satisfied, s)),
     validateResilience = (\<lambda>_ _ s. (Inr satisfied, s)),
     validateFreshness = (\<lambda>_ _ s. (Inr satisfied, s)),
     revalidate = (\<lambda>_ _ s. (Inr revalidated, s))\<rparr>"

lemma agreeing_findings:
  assumes "eligibility elig = eligible_for_authority_consideration"
  shows "live_findings_of (agreeing_backend (binding elig)) elig () = (Inr (all_found 7), ())"
  unfolding live_findings_all live_chain_def using assms
  by (simp add: agreeing_backend_def resolvedRelationship_def completeSnapshot_def derivedRequest_def
      materializeRelationship_def)

lemma agreeing_step:
  assumes "eligibility elig = eligible_for_authority_consideration" "binding elig = q"
    "\<not> token_exhausted c" "ledger_records led c = None"
  shows "authority_step (agreeing_backend q) (Ev_derive room elig True) ((), led, c) =
    (if room then ([issued_capability led q c 7], ((), led\<lparr>ledger_records := (ledger_records led)(c \<mapsto>
         \<lparr>rec_binding = q, rec_issuanceEpoch = 7, rec_state = issued\<rparr>)\<rparr>, c + 1))
     else ([], ((), led, c + 1)))"
proof -
  have pol: "policy_derive elig (live_context (ledger_domain led) (binding elig) (all_found 7) True) c =
      (Inr (granted (issued_capability led q c 7)), c + 1)"
    using assms by (simp add: policy_derive_eq derivation_precedence_def live_context_def all_found_def
        issued_capability_def)
  note eq = live_derivation_eq(3) [OF agreeing_findings [OF assms(1)] pol, of room, unfolded assms(2)]
  show ?thesis using assms(4) unfolding authority_step.simps eq register_granted
    by (simp add: registerIssued_def issued_capability_def Let_def)
qed

text \<open>
  At the witness a capability is issued and consumed, another ledger takes an identity, and a
  registration that runs out of memory loses one: the ledger issues the identities 1 and 4.
\<close>

theorem issued_identities_unique_witness:
  "\<exists>q es caps t led c'.
     authority_run (agreeing_backend q) es ((), new_ledger (Domain 1), 1) = (caps, (t, led, c')) \<and>
     map cap_token caps = [1, 4] \<and> sorted_wrt (<) (map cap_token caps) \<and> issued_for led = granted_for caps"
proof -
  define q where "q = \<lparr>relationship = \<lparr>relSourceNodeId = 0, relTargetNodeId = 1, generation = 1\<rparr>,
    direction = constrain, transitionClass = TransitionClassId 1, stateVersion = StateVersion 1\<rparr>"
  define elig where "elig = \<lparr>eligibility = eligible_for_authority_consideration,
    rejectionReason = rejection_none, binding = q\<rparr>"
  have e: "eligibility elig = eligible_for_authority_consideration" "binding elig = q"
    by (simp_all add: elig_def)
  define es :: "unit authority_event list" where "es = [Ev_derive True elig True, Ev_identity_elsewhere, Ev_derive False elig True,
    Ev_consume (CapId 1), Ev_derive True elig True]"
  obtain caps t led c' where run:
    "authority_run (agreeing_backend q) es ((), new_ledger (Domain 1), 1) = (caps, (t, led, c'))"
    by (metis prod_cases4)
  have ids: "map cap_token caps = [1, 4]"
    using run by (auto simp: es_def agreeing_step [OF e] token_exhausted_def nextCapabilityId_eq
        issued_capability_def new_ledger_def markConsumed_def transitionFromIssued_def Let_def
        simp del: authority_step.simps(1))
  note unique = issued_identities_unique [OF run]
  show ?thesis
    by (intro exI conjI, rule run, rule ids, rule conjunct1 [OF unique],
        rule conjunct1 [OF conjunct2 [OF conjunct2 [OF unique]]])
qed

end
