(* ===== verification/Mesh_Authority.thy ===== *)
theory Mesh_Authority
  imports Mesh_Laws Authority_Laws
begin

text \<open>
  The production side of a mesh (\<open>src/detail/spatial_adaptive_mesh_impl.hpp\<close>): the live evaluation
  backend over the relationship map, the derivation of authority from it and the commit of a
  capability, with what they promise. Each backend method takes the topology lock on its own, the
  commit holds it, with the ledger record, from its first read to its last write.
\<close>

section \<open>The live backend\<close>

definition findLifecycleUnlocked :: "mesh \<Rightarrow> captured_relationship \<Rightarrow> relationship_lifecycle option" where
  "findLifecycleUnlocked m rel =
    (case productionRelationships m (cap_source rel, cap_target rel) of
       None \<Rightarrow> None
     | Some cur \<Rightarrow> if lc_generation cur \<noteq> cap_generation rel \<or>
           lc_sourceIncarnation cur \<noteq> cap_sourceIncarnation rel \<or>
           lc_targetIncarnation cur \<noteq> cap_targetIncarnation rel then None else Some cur)"

definition transitionContractIdentity :: u64 where
  "transitionContractIdentity = 1"

definition live_resolve :: "locator \<Rightarrow> (mesh, relationship_resolution) action" where
  "live_resolve loc = (\<lambda>m. (Inr (case productionRelationships m (loc_source loc, loc_target loc) of
       None \<Rightarrow> relationshipAbsent
     | Some cur \<Rightarrow> resolvedRelationship (loc_source loc) (loc_target loc) (lc_generation cur)
         (lc_sourceIncarnation cur) (lc_targetIncarnation cur)), m))"

definition live_capture :: "captured_relationship \<Rightarrow> (mesh, snapshot_capture) action" where
  "live_capture rel = (\<lambda>m. (Inr (case findLifecycleUnlocked m rel of
       None \<Rightarrow> snapshotCaptureFailed
     | Some cur \<Rightarrow> completeSnapshot rel (lc_lineage cur) transitionContractIdentity (lc_lineage cur)
         (record_state (lc_persistence cur)) (lineage_of (lc_persistence cur))), m))"

text \<open>Both outcomes of the check are the same answer.\<close>

definition live_derive :: "transition_snapshot \<Rightarrow> (mesh, request_derivation) action" where
  "live_derive snap = (\<lambda>m. (Inr (case findLifecycleUnlocked m (snap_relationship snap) of
       None \<Rightarrow> requestDerivationFailed
     | Some cur \<Rightarrow> if lc_lineage cur \<noteq> snap_lineage snap then requestDerivationFailed
         else requestDerivationFailed), m))"

definition live_validate :: "transition_snapshot \<Rightarrow> derived_direction \<Rightarrow> (mesh, domain_outcome) action" where
  "live_validate snap d = areturn validation_unavailable"

definition live_revalidate :: "transition_snapshot \<Rightarrow> derived_direction \<Rightarrow> (mesh, revalidation_outcome) action" where
  "live_revalidate snap d = (\<lambda>m. (Inr (case findLifecycleUnlocked m (snap_relationship snap) of
       None \<Rightarrow> stale
     | Some cur \<Rightarrow> if lc_lineage cur \<noteq> snap_lineage snap \<or>
           \<not> persistence_state_eq (record_state (lc_persistence cur)) (snap_persistenceState snap) \<or>
           lineage_of (lc_persistence cur) \<noteq> snap_persistenceLineage snap
         then stale else revalidated), m))"

definition live_backend :: "mesh backend" where
  "live_backend = \<lparr>resolveCurrentRelationship = live_resolve, captureSnapshot = live_capture,
     deriveDirection = live_derive, validatePermission = live_validate, validateInvariant = live_validate,
     validateResilience = live_validate, validateFreshness = live_validate, revalidate = live_revalidate\<rparr>"

definition deriveProductionAuthority ::
  "bool \<Rightarrow> eligibility_decision \<Rightarrow> bool \<Rightarrow> mesh \<Rightarrow> u64 \<Rightarrow> derivation_result result \<times> mesh \<times> u64" where
  "deriveProductionAuthority room elig pol m c =
    (case live_derivation room live_backend elig pol (m, authorityLedger m, c) of
       (r, (m', led, c')) \<Rightarrow> (r, m'\<lparr>authorityLedger := led\<rparr>, c'))"

section \<open>Committing a capability\<close>

fun bridge_index :: "int \<Rightarrow> spatial_bridge list \<Rightarrow> nat option" where
  "bridge_index t [] = None"
| "bridge_index t (b # bs) = (if targetNodeId b = t then Some 0 else map_option Suc (bridge_index t bs))"

definition prepared_bridge :: "requested_direction \<Rightarrow> spatial_bridge \<Rightarrow> spatial_bridge" where
  "prepared_bridge d b = (case d of
      constrain \<Rightarrow> b\<lparr>capacity := std_max (dec 1 2) (capacity b * dec 85 2), status := DAMPING\<rparr>
    | support \<Rightarrow> (let c = std_min 1 (capacity b + dec 15 2)
        in b\<lparr>capacity := c, status := (if dec 9 1 \<le> c then NORMAL else RECOVERY)\<rparr>))"

definition publish_bridge :: "nat \<Rightarrow> nat \<Rightarrow> spatial_bridge \<Rightarrow> mesh \<Rightarrow> mesh" where
  "publish_bridge i k b m = m\<lparr>nodes := (nodes m)[i := (nodes m ! i)\<lparr>bridges := (bridges (nodes m ! i))[k := b]\<rparr>]\<rparr>"

definition reject_capability :: "execution_capability \<Rightarrow> commit_result \<Rightarrow> mesh \<Rightarrow> commit_result \<times> mesh" where
  "reject_capability cap r m =
     (r, m\<lparr>authorityLedger := setState (capability_ident cap) invalidated (authorityLedger m)\<rparr>)"

text \<open>The part behind the checks of the relationship: bridge, new values, new version, publication.\<close>

definition commit_bridge ::
  "execution_capability \<Rightarrow> relationship_lifecycle \<Rightarrow> mesh \<Rightarrow> commit_result \<times> mesh" where
  "commit_bridge cap cur m =
    (let b = capability_binding cap; rel = relationship b;
         s = relSourceNodeId rel; t = relTargetNodeId rel in
     if length (nodes m) \<le> s \<or> length (nodes m) \<le> t then reject_capability cap stale_state m
     else case bridge_index (size_to_int t) (bridges (nodes m ! s)) of
         None \<Rightarrow> reject_capability cap stale_state m
       | Some k \<Rightarrow>
           let prepared = prepared_bridge (direction b) (bridges (nodes m ! s) ! k);
               nextVersion = nextLineage m in
           if \<not> isfinite (capacity prepared) \<or> capacity prepared < 0 \<or> 1 < capacity prepared
           then reject_capability cap capability_invalid m
           else if nextVersion = 0 \<or> nextVersion = - 1
           then reject_capability cap capability_invalid m
           else (committed, (publish_bridge s k prepared m)
             \<lparr>authorityLedger := setState (capability_ident cap) consumed (authorityLedger m),
              productionRelationships := (productionRelationships m)((s, t) \<mapsto> cur\<lparr>lc_lineage := nextVersion\<rparr>),
              nextLineage := nextVersion + 1\<rparr>))"

definition commitProductionTransition :: "execution_capability \<Rightarrow> mesh \<Rightarrow> commit_result \<times> mesh" where
  "commitProductionTransition cap m =
    (if capability_domain cap \<noteq> ledger_domain (authorityLedger m) then (target_mismatch, m)
     else case lockRecord (capability_ident cap) (authorityLedger m) of
         None \<Rightarrow> (capability_invalid, m)
       | Some r \<Rightarrow>
           if rec_state r = consumed then (capability_consumed, m)
           else if rec_state r = expired \<or> rec_state r = invalidated then (capability_invalid, m)
           else let b = capability_binding cap in
             if rec_binding r \<noteq> b \<or> rec_issuanceEpoch r \<noteq> capability_epoch cap
             then reject_capability cap capability_invalid m
             else case productionRelationships m (relSourceNodeId (relationship b), relTargetNodeId (relationship b)) of
                 None \<Rightarrow> reject_capability cap stale_state m
               | Some cur \<Rightarrow>
                   if lc_generation cur \<noteq> generation (relationship b) then reject_capability cap stale_state m
                   else if lc_lineage cur \<noteq> opaqueVersion (stateVersion b) \<or> lc_lineage cur \<noteq> rec_issuanceEpoch r
                   then reject_capability cap stale_state m
                   else if opaqueClassId (transitionClass b) \<noteq> 1 then reject_capability cap transition_rejected m
                   else commit_bridge cap cur m)"

section \<open>The live backend observes only\<close>

interpretation live: read_only_backend live_backend
  by unfold_locales (simp_all add: live_backend_def live_resolve_def live_capture_def live_derive_def
      live_validate_def live_revalidate_def areturn_def)

interpretation live_mesh: backend_frame live_backend mesh_ok
  by unfold_locales (simp_all add: live.read_only)

lemma live_never_derives: "deriveDirection live_backend snap m = (Inr requestDerivationFailed, m)"
  by (auto simp: live_backend_def live_derive_def split: option.split)

text \<open> C38. The orchestrator over the live backend of a mesh never answers eligible and never changes the
  mesh: it reports that there is no request when the relationship is absent and not eligible in every
  other case, because this backend derives no direction.
\<close>

theorem live_orchestrator_answer:
  "orchestrator_evaluate live_backend loc m =
    (Inr (if loc_source loc = loc_target loc then Ev_not_eligible
          else if productionRelationships m (loc_source loc, loc_target loc) = None then Ev_no_request
          else Ev_not_eligible), m)"
proof -
  have res: "resolveCurrentRelationship live_backend = live_resolve" "captureSnapshot live_backend = live_capture"
    by (simp_all add: live_backend_def)
  show ?thesis
    by (auto simp: orchestrator_evaluate_def abind_def res live_resolve_def live_capture_def areturn_def
        relationshipAbsent_def resolvedRelationship_def snapshotCaptureFailed_def completeSnapshot_def
        orchestrate_derivation_def live_never_derives requestDerivationFailed_def split: option.splits)
qed

lemma live_findings_live:
  "\<exists>lf. live_findings_of live_backend elig m = (Inr lf, m) \<and>
     (lf_liveBindingCurrent lf \<longrightarrow> \<not> lf_stateCurrent lf \<or> \<not> lf_transitionClassCurrent lf)"
proof -
  have res: "resolveCurrentRelationship live_backend = live_resolve" "captureSnapshot live_backend = live_capture"
    by (simp_all add: live_backend_def)
  show ?thesis
    by (auto simp: live_findings_of_def abind_def res live_resolve_def live_capture_def areturn_def Let_def
        relationshipAbsent_def resolvedRelationship_def snapshotCaptureFailed_def completeSnapshot_def
        live_snapshot_def live_direction_def live_never_derives requestDerivationFailed_def no_findings_def
        split: option.splits)
qed

lemma live_derivation_denies:
  "\<exists>reason. deriveProductionAuthority room elig pol m c =
     (Inr \<lparr>decision = denied, authority_rejectionReason = reason, derived_capability = None\<rparr>, m, c)"
proof -
  obtain lf where lf: "live_findings_of live_backend elig m = (Inr lf, m)"
    "lf_liveBindingCurrent lf \<longrightarrow> \<not> lf_stateCurrent lf \<or> \<not> lf_transitionClassCurrent lf"
    using live_findings_live by blast
  define ctx where "ctx = live_context (ledger_domain (authorityLedger m)) (binding elig) lf pol"
  have "first_failure (derivation_precedence elig ctx) \<noteq> None"
    using lf(2) by (auto simp: derivation_precedence_None ctx_def live_context_def)
  then obtain r where "first_failure (derivation_precedence elig ctx) = Some r" by blast
  then have "policy_derive elig ctx c =
      (Inr \<lparr>decision = denied, authority_rejectionReason = r, derived_capability = None\<rparr>, c)"
    by (simp add: policy_derive_eq)
  then show ?thesis
    by (intro exI [of _ r]) (simp add: deriveProductionAuthority_def live_derivation_def lf(1)
        register_result_def flip: ctx_def)
qed

text \<open> C39. Deriving production authority from a live mesh is fail-closed: for every eligibility decision
  and whatever the policy says it denies, without an exception, hands out no capability, and leaves
  the mesh, its ledger and the identity counter as they were.
\<close>

theorem production_derivation_denies:
  "\<exists>reason. deriveProductionAuthority room elig pol m c =
     (Inr \<lparr>decision = denied, authority_rejectionReason = reason, derived_capability = None\<rparr>, m, c)"
  by (rule live_derivation_denies)

section \<open>What a commit does\<close>

lemma bridge_index_Some:
  "bridge_index t bs = Some k \<Longrightarrow> k < length bs \<and> targetNodeId (bs ! k) = t"
  by (induction bs arbitrary: k) (auto split: if_splits)

lemma bridge_index_None: "bridge_index t bs = None \<longleftrightarrow> t \<notin> targetNodeId ` set bs"
  by (induction bs) auto

text \<open>Committing is a signal: constraining is noise, supporting is a constructive signal.\<close>

definition direction_signal :: "requested_direction \<Rightarrow> signal_category" where
  "direction_signal d = (case d of constrain \<Rightarrow> NOISE | support \<Rightarrow> CREATIVE_SIGNAL)"

lemma prepared_bridge_eq: "prepared_bridge d b = updateBridgeState (direction_signal d) b"
  by (cases d) (simp_all add: prepared_bridge_def direction_signal_def Let_def)

text \<open>Everything a commit checks.\<close>

definition commit_allowed :: "execution_capability \<Rightarrow> mesh \<Rightarrow> bool" where
  "commit_allowed cap m \<longleftrightarrow> (let b = capability_binding cap; rel = relationship b;
       key = (relSourceNodeId rel, relTargetNodeId rel) in
     capability_domain cap = ledger_domain (authorityLedger m) \<and>
     lockRecord (capability_ident cap) (authorityLedger m) =
       Some \<lparr>rec_binding = b, rec_issuanceEpoch = capability_epoch cap, rec_state = issued\<rparr> \<and>
     (case productionRelationships m key of None \<Rightarrow> False | Some cur \<Rightarrow>
        lc_generation cur = generation rel \<and> StateVersion (lc_lineage cur) = stateVersion b \<and>
        lc_lineage cur = capability_epoch cap) \<and>
     transitionClass b = TransitionClassId 1 \<and> nextLineage m \<noteq> 0 \<and> nextLineage m \<noteq> - 1)"

definition commit_effect :: "execution_capability \<Rightarrow> nat \<Rightarrow> mesh \<Rightarrow> mesh" where
  "commit_effect cap k m = (let b = capability_binding cap; rel = relationship b;
       s = relSourceNodeId rel; t = relTargetNodeId rel in
     m\<lparr>nodes := (nodes m)[s := (nodes m ! s)\<lparr>bridges := (bridges (nodes m ! s))
         [k := updateBridgeState (direction_signal (direction b)) (bridges (nodes m ! s) ! k)]\<rparr>],
       authorityLedger := setState (capability_ident cap) consumed (authorityLedger m),
       productionRelationships := (productionRelationships m)((s, t) \<mapsto>
         (the (productionRelationships m (s, t)))\<lparr>lc_lineage := nextLineage m\<rparr>),
       nextLineage := nextLineage m + 1\<rparr>)"

lemma mesh_edge_bridge:
  assumes ok: "mesh_ok m" and cur: "productionRelationships m (s, t) = Some cur"
  shows "s < length (nodes m)" "t < length (nodes m)"
    "\<exists>k. bridge_index (size_to_int t) (bridges (nodes m ! s)) = Some k \<and> k < length (bridges (nodes m ! s)) \<and>
       bridge_ok (bridges (nodes m ! s) ! k) \<and> targetNodeId (bridges (nodes m ! s) ! k) = int t"
proof -
  have nok: "nodes_ok (nodes m)" using ok by (simp add: mesh_ok_def)
  have e: "(s, t) \<in> edges (nodes m)" using ok cur by (auto simp: mesh_ok_def)
  then show r: "s < length (nodes m)" "t < length (nodes m)" using edges_range [OF nok] by auto
  have "size_to_int t = int t" using nok r by (simp add: nodes_ok_def)
  moreover obtain k where k: "bridge_index (int t) (bridges (nodes m ! s)) = Some k"
  proof -
    have "int t \<in> targetNodeId ` set (bridges (nodes m ! s))" using e by (force simp: edges_iff)
    then show ?thesis using that bridge_index_None [of "int t" "bridges (nodes m ! s)"] by auto
  qed
  moreover have "bridge_ok (bridges (nodes m ! s) ! k)"
    using bridge_index_Some [OF k] nodes_ok_bridge [OF nok r(1)] by (auto simp: bridge_wf_def)
  ultimately show "\<exists>k. bridge_index (size_to_int t) (bridges (nodes m ! s)) = Some k \<and> k < length (bridges (nodes m ! s)) \<and>
       bridge_ok (bridges (nodes m ! s) ! k) \<and> targetNodeId (bridges (nodes m ! s) ! k) = int t"
    using bridge_index_Some [OF k] by auto
qed

lemma bridge_capacity_unit:
  assumes "bridge_ok b"
  shows "isfinite (capacity b)" "\<not> (capacity b < 0 \<or> 1 < capacity b)"
  using assms unit_finite [of "capacity b"] f64_range_iff(1) [of "capacity b"] by (auto simp: bridge_ok_def)

lemma commit_bridge_ok:
  assumes ok: "mesh_ok m" and cur: "productionRelationships m
      (relSourceNodeId (relationship (capability_binding cap)), relTargetNodeId (relationship (capability_binding cap))) = Some cur"
  shows "\<exists>k. bridge_index (size_to_int (relTargetNodeId (relationship (capability_binding cap))))
        (bridges (nodes m ! relSourceNodeId (relationship (capability_binding cap)))) = Some k \<and>
    commit_bridge cap cur m = (if nextLineage m = 0 \<or> nextLineage m = - 1
      then reject_capability cap capability_invalid m else (committed, commit_effect cap k m))"
proof -
  define s where "s = relSourceNodeId (relationship (capability_binding cap))"
  define t where "t = relTargetNodeId (relationship (capability_binding cap))"
  have cur': "productionRelationships m (s, t) = Some cur" using cur by (simp add: s_def t_def)
  obtain k where k: "bridge_index (size_to_int t) (bridges (nodes m ! s)) = Some k"
    "k < length (bridges (nodes m ! s))" "bridge_ok (bridges (nodes m ! s) ! k)"
    using mesh_edge_bridge(3) [OF ok cur'] by blast
  define prep where "prep = updateBridgeState (direction_signal (direction (capability_binding cap))) (bridges (nodes m ! s) ! k)"
  have "bridge_ok prep" unfolding prep_def by (rule updateBridgeState_bridge_ok [OF k(3)])
  then have "isfinite (capacity prep)" "\<not> (capacity prep < 0 \<or> 1 < capacity prep)"
    using bridge_capacity_unit [of prep] by auto
  moreover have "\<not> length (nodes m) \<le> s" "\<not> length (nodes m) \<le> t" using mesh_edge_bridge(1,2) [OF ok cur'] by auto
  ultimately have "commit_bridge cap cur m = (if nextLineage m = 0 \<or> nextLineage m = - 1
      then reject_capability cap capability_invalid m else (committed, commit_effect cap k m))"
    using k cur' by (simp add: commit_bridge_def Let_def prepared_bridge_eq flip: s_def t_def prep_def)
      (simp add: commit_effect_def publish_bridge_def Let_def prep_def flip: s_def t_def)
  then show ?thesis using k(1) by (auto simp: s_def t_def)
qed

text \<open>The checks in front of \<open>commit_bridge\<close>, when the ledger record is good.\<close>

lemma commit_good_record:
  assumes "capability_domain cap = ledger_domain (authorityLedger m)"
    "lockRecord (capability_ident cap) (authorityLedger m) = Some r" "rec_state r = issued"
    "rec_binding r = capability_binding cap" "rec_issuanceEpoch r = capability_epoch cap"
  shows "commitProductionTransition cap m =
    (let b = capability_binding cap in
     case productionRelationships m (relSourceNodeId (relationship b), relTargetNodeId (relationship b)) of
         None \<Rightarrow> reject_capability cap stale_state m
       | Some cur \<Rightarrow>
           if lc_generation cur \<noteq> generation (relationship b) then reject_capability cap stale_state m
           else if lc_lineage cur \<noteq> opaqueVersion (stateVersion b) \<or> lc_lineage cur \<noteq> capability_epoch cap
           then reject_capability cap stale_state m
           else if opaqueClassId (transitionClass b) \<noteq> 1 then reject_capability cap transition_rejected m
           else commit_bridge cap cur m)"
  using assms by (simp add: commitProductionTransition_def Let_def split: option.split)

lemma commit_when_allowed:
  assumes ok: "mesh_ok m" and all: "commit_allowed cap m"
  shows "\<exists>k. bridge_index (size_to_int (relTargetNodeId (relationship (capability_binding cap))))
        (bridges (nodes m ! relSourceNodeId (relationship (capability_binding cap)))) = Some k \<and>
      commitProductionTransition cap m = (committed, commit_effect cap k m)"
proof -
  define b where "b = capability_binding cap"
  obtain cur where cur: "productionRelationships m (relSourceNodeId (relationship b), relTargetNodeId (relationship b)) = Some cur"
    "lc_generation cur = generation (relationship b)" "StateVersion (lc_lineage cur) = stateVersion b"
    "lc_lineage cur = capability_epoch cap"
    using all by (auto simp: commit_allowed_def Let_def b_def split: option.splits)
  have rest: "capability_domain cap = ledger_domain (authorityLedger m)"
    "lockRecord (capability_ident cap) (authorityLedger m) =
       Some \<lparr>rec_binding = b, rec_issuanceEpoch = capability_epoch cap, rec_state = issued\<rparr>"
    "transitionClass b = TransitionClassId 1" "nextLineage m \<noteq> 0" "nextLineage m \<noteq> - 1"
    using all by (simp_all add: commit_allowed_def Let_def b_def)
  have v: "opaqueVersion (stateVersion b) = lc_lineage cur" by (simp flip: cur(3))
  have "commitProductionTransition cap m = commit_bridge cap cur m"
    using rest cur v by (subst commit_good_record [OF rest(1,2)]) (simp_all add: b_def [symmetric])
  then show ?thesis using commit_bridge_ok [OF ok cur(1) [unfolded b_def]] rest(4,5) by auto
qed

lemma commit_bridge_refused:
  "commit_bridge cap cur m = (r, m') \<Longrightarrow> r \<noteq> committed \<Longrightarrow>
     m' = m\<lparr>authorityLedger := setState (capability_ident cap) invalidated (authorityLedger m)\<rparr>"
  by (auto simp: commit_bridge_def reject_capability_def Let_def split: if_splits option.splits)

lemma commit_bridge_committed:
  "commit_bridge cap cur m = (committed, m') \<Longrightarrow> nextLineage m \<noteq> 0 \<and> nextLineage m \<noteq> - 1"
  by (auto simp: commit_bridge_def reject_capability_def Let_def split: if_splits option.splits)

text \<open>A bad ledger record decides the commit alone.\<close>

lemma commit_bad_record:
  assumes "\<not> (capability_domain cap = ledger_domain (authorityLedger m) \<and>
    (\<exists>r. lockRecord (capability_ident cap) (authorityLedger m) = Some r \<and> rec_state r = issued \<and>
       rec_binding r = capability_binding cap \<and> rec_issuanceEpoch r = capability_epoch cap))"
  shows "\<exists>res. res \<noteq> committed \<and> (commitProductionTransition cap m = (res, m) \<or>
    lifecycleState (capability_ident cap) (authorityLedger m) = Some issued \<and>
    commitProductionTransition cap m = reject_capability cap res m)"
proof (cases "capability_domain cap = ledger_domain (authorityLedger m)")
  case False
  then show ?thesis by (intro exI [of _ target_mismatch]) (simp add: commitProductionTransition_def)
next
  case dom: True
  show ?thesis
  proof (cases "lockRecord (capability_ident cap) (authorityLedger m)")
    case None
    then show ?thesis using dom by (intro exI [of _ capability_invalid]) (simp add: commitProductionTransition_def)
  next
    case (Some r)
    show ?thesis
    proof (cases "rec_state r = consumed")
      case True
      then show ?thesis using dom Some
        by (intro exI [of _ capability_consumed]) (simp add: commitProductionTransition_def)
    next
      case False
      then show ?thesis using dom Some assms
        by (intro exI [of _ capability_invalid], cases "rec_state r") (simp_all add: commitProductionTransition_def Let_def
          lifecycleState_def lockRecord_def)
    qed
  qed
qed

lemma commit_refused_frame:
  assumes run: "commitProductionTransition cap m = (r, m')" and r: "r \<noteq> committed"
  shows "m' = m \<or> m' = m\<lparr>authorityLedger := setState (capability_ident cap) invalidated (authorityLedger m)\<rparr>"
proof (cases "capability_domain cap = ledger_domain (authorityLedger m) \<and>
    (\<exists>r. lockRecord (capability_ident cap) (authorityLedger m) = Some r \<and> rec_state r = issued \<and>
       rec_binding r = capability_binding cap \<and> rec_issuanceEpoch r = capability_epoch cap)")
  case True
  then obtain x where "capability_domain cap = ledger_domain (authorityLedger m)"
    "lockRecord (capability_ident cap) (authorityLedger m) = Some x" "rec_state x = issued"
    "rec_binding x = capability_binding cap" "rec_issuanceEpoch x = capability_epoch cap" by blast
  from run [unfolded commit_good_record [OF this]] show ?thesis
    by (auto simp: reject_capability_def Let_def commit_bridge_refused [OF _ r] split: if_splits option.splits)
next
  case False
  from commit_bad_record [OF this] run show ?thesis by (auto simp: reject_capability_def)
qed

lemma committed_allowed:
  assumes run: "commitProductionTransition cap m = (committed, m')"
  shows "commit_allowed cap m"
proof -
  obtain r where r: "capability_domain cap = ledger_domain (authorityLedger m)"
    "lockRecord (capability_ident cap) (authorityLedger m) = Some r"
    "rec_state r = issued" "rec_binding r = capability_binding cap" "rec_issuanceEpoch r = capability_epoch cap"
    using commit_bad_record [of cap m] run by (fastforce simp: reject_capability_def)
  define b where "b = capability_binding cap"
  obtain cur where cur: "productionRelationships m (relSourceNodeId (relationship b), relTargetNodeId (relationship b)) = Some cur"
    "lc_generation cur = generation (relationship b)" "lc_lineage cur = opaqueVersion (stateVersion b)"
    "lc_lineage cur = capability_epoch cap" "opaqueClassId (transitionClass b) = 1"
    "commit_bridge cap cur m = (committed, m')"
    using run unfolding commit_good_record [OF r] Let_def b_def [symmetric]
    by (auto simp: reject_capability_def split: if_splits option.splits)
  have "r = \<lparr>rec_binding = b, rec_issuanceEpoch = capability_epoch cap, rec_state = issued\<rparr>"
    using r by (cases r) (simp add: b_def)
  then show ?thesis using r cur commit_bridge_committed [OF cur(6)]
    by (cases "stateVersion b"; cases "transitionClass b") (simp add: commit_allowed_def Let_def flip: b_def)
qed

lemma commit_not_allowed:
  assumes "\<not> commit_allowed cap m"
  shows "fst (commitProductionTransition cap m) \<noteq> committed \<and>
      snd (commitProductionTransition cap m) \<in> {m, m\<lparr>authorityLedger :=
         setState (capability_ident cap) invalidated (authorityLedger m)\<rparr>}"
proof -
  obtain r m' where run: "commitProductionTransition cap m = (r, m')" by fastforce
  then have "r \<noteq> committed" using assms committed_allowed by auto
  from commit_refused_frame [OF run this] this show ?thesis using run by auto
qed

text \<open> C6. A commit takes effect exactly when the capability belongs to this mesh, its ledger record is
  issued and unaltered, and the relationship, its generation, its version, the epoch and the
  transition class are all current and a version is left. It then updates exactly one bridge, as a
  noise signal (constrain) or a constructive signal (support) would, consumes the capability and
  gives the relationship the next version; refused, it changes at most the ledger entry of this
  capability.
\<close>

theorem commit_exactly_when_current:
  assumes "mesh_ok m"
  shows "if commit_allowed cap m
    then \<exists>k. bridge_index (size_to_int (relTargetNodeId (relationship (capability_binding cap))))
        (bridges (nodes m ! relSourceNodeId (relationship (capability_binding cap)))) = Some k \<and>
      commitProductionTransition cap m = (committed, commit_effect cap k m)
    else fst (commitProductionTransition cap m) \<noteq> committed \<and>
      snd (commitProductionTransition cap m) \<in> {m, m\<lparr>authorityLedger :=
         setState (capability_ident cap) invalidated (authorityLedger m)\<rparr>}"
  using commit_when_allowed [OF assms] commit_not_allowed by simp

section \<open>A mesh with a capability\<close>

definition sample_capability :: execution_capability where
  "sample_capability = (let cur = the (productionRelationships connected_mesh (0, 1)) in
     \<lparr>capability_ident = CapId 5, capability_domain = Domain 1,
      capability_binding = \<lparr>relationship = \<lparr>relSourceNodeId = 0, relTargetNodeId = 1, generation = lc_generation cur\<rparr>,
        direction = constrain, transitionClass = TransitionClassId 1, stateVersion = StateVersion (lc_lineage cur)\<rparr>,
      capability_epoch = lc_lineage cur\<rparr>)"

definition capability_mesh :: mesh where
  "capability_mesh = connected_mesh\<lparr>nextLineage := 7,
     authorityLedger := snd (registerIssued True sample_capability (new_ledger (Domain 1)))\<rparr>"

lemma capability_mesh_ok: "mesh_ok capability_mesh"
  using connected_mesh_ok by (simp add: capability_mesh_def mesh_ok_def lifecycle_ok_def buffers_match_def)

lemma capability_mesh_allowed: "commit_allowed sample_capability capability_mesh"
proof -
  have "(0, 1) \<in> dom (productionRelationships connected_mesh)"
    using connected_mesh_ok connected_mesh_edges by (auto simp: mesh_ok_def)
  then show ?thesis
    by (auto simp: commit_allowed_def capability_mesh_def sample_capability_def Let_def registerIssued_def
        new_ledger_def lockRecord_def)
qed

theorem commit_exactly_when_current_witness:
  "fst (commitProductionTransition sample_capability capability_mesh) = committed"
  using commit_exactly_when_current [OF capability_mesh_ok, of sample_capability] capability_mesh_allowed
  by auto

section \<open>The invariant\<close>

lemma ledger_ok: "mesh_ok m \<Longrightarrow> mesh_ok (m\<lparr>authorityLedger := led\<rparr>)"
  by (simp add: mesh_ok_def lifecycle_ok_def buffers_match_def)

lemma relationship_ok:
  "mesh_ok m \<Longrightarrow> productionRelationships m key = Some cur \<Longrightarrow>
     mesh_ok (m\<lparr>productionRelationships := (productionRelationships m)(key \<mapsto> cur\<lparr>lc_lineage := v\<rparr>), nextLineage := v'\<rparr>)"
  by (auto simp: mesh_ok_def lifecycle_ok_def buffers_match_def domIff split: if_splits)

lemma update_bridge_ok:
  assumes ok: "mesh_ok m" and i: "i < length (nodes m)" and k: "k < length (bridges (nodes m ! i))"
  shows "mesh_ok (publish_bridge i k (updateBridgeState category (bridges (nodes m ! i) ! k)) m)"
proof -
  define n where "n = nodes m ! i"
  have wf: "node_wf (length (nodes m)) i n" unfolding n_def
    using ok i nodes_okD(1) by (auto simp: mesh_ok_def)
  have b: "bridge_ok (bridges n ! k)" using wf k by (simp add: node_wf_def bridge_wf_def n_def)
  then have "bridge_ok (updateBridgeState category (bridges n ! k))" "status_coherent (updateBridgeState category (bridges n ! k))"
    using updateBridgeState_bridge_ok updateBridgeState_status_coherent by (auto simp: bridge_ok_def)
  moreover have "\<forall>b \<in> set (bridges n). bridge_ok b \<and> status_coherent b" using wf by (simp add: node_wf_def bridge_wf_def)
  ultimately have "\<forall>b \<in> set ((bridges n)[k := updateBridgeState category (bridges n ! k)]). bridge_ok b \<and> status_coherent b"
    using set_update_subset_insert [of "bridges n" k] by blast
  moreover have "map targetNodeId ((bridges n)[k := updateBridgeState category (bridges n ! k)]) = map targetNodeId (bridges n)"
    using k by (simp add: map_update list_update_same_conv n_def)
  ultimately have "same_shape n (n\<lparr>bridges := (bridges n)[k := updateBridgeState category (bridges n ! k)]\<rparr>)"
    using wf by (simp add: same_shape_def targets_of_def node_wf_def node_data_ok_def)
  from set_node_ok [OF ok this [unfolded n_def] i] show ?thesis
    by (simp add: publish_bridge_def set_node_def)
qed

lemma commit_keeps_ok:
  assumes ok: "mesh_ok m"
  shows "mesh_ok (snd (commitProductionTransition cap m))"
proof (cases "commit_allowed cap m")
  case True
  define b where "b = capability_binding cap"
  define s where "s = relSourceNodeId (relationship b)"
  define t where "t = relTargetNodeId (relationship b)"
  obtain k where k: "bridge_index (size_to_int t) (bridges (nodes m ! s)) = Some k"
    and run: "commitProductionTransition cap m = (committed, commit_effect cap k m)"
    using commit_when_allowed [OF ok True] by (auto simp: b_def s_def t_def)
  obtain cur where cur: "productionRelationships m (s, t) = Some cur"
    using True by (auto simp: commit_allowed_def Let_def b_def s_def t_def split: option.splits)
  have i: "s < length (nodes m)" by (rule mesh_edge_bridge(1) [OF ok cur])
  have kl: "k < length (bridges (nodes m ! s))" using bridge_index_Some [OF k] by simp
  define m1 where "m1 = publish_bridge s k (updateBridgeState (direction_signal (direction b)) (bridges (nodes m ! s) ! k)) m"
  have m1: "mesh_ok m1" unfolding m1_def by (rule update_bridge_ok [OF ok i kl])
  have r1: "productionRelationships m1 (s, t) = Some cur" "productionRelationships m1 = productionRelationships m"
    using cur by (simp_all add: m1_def publish_bridge_def)
  have "commit_effect cap k m = (m1\<lparr>productionRelationships := (productionRelationships m1)((s, t) \<mapsto> cur\<lparr>lc_lineage := nextLineage m\<rparr>),
      nextLineage := nextLineage m + 1\<rparr>)\<lparr>authorityLedger := setState (capability_ident cap) consumed (authorityLedger m)\<rparr>"
    using cur by (simp add: commit_effect_def m1_def publish_bridge_def Let_def flip: b_def s_def t_def)
  then show ?thesis using ledger_ok [OF relationship_ok [OF m1 r1(1)]] run by simp
next
  case False
  from commit_not_allowed [OF this] ok ledger_ok [OF ok] show ?thesis by auto
qed

section \<open>Single use\<close>

text \<open>Commits and direct operations on the ledger, in any order.\<close>

datatype authority_event = Commit execution_capability | Ledger_event ledger_op

fun authority_step :: "authority_event \<Rightarrow> mesh \<Rightarrow> (commit_result + ledger_answer) \<times> mesh" where
  "authority_step (Commit cap) m = map_prod Inl id (commitProductionTransition cap m)"
| "authority_step (Ledger_event oper) m =
     (let (a, led) = ledger_step oper (authorityLedger m) in (Inr a, m\<lparr>authorityLedger := led\<rparr>))"

fun authority_winner :: "authority_event \<Rightarrow> commit_result + ledger_answer \<Rightarrow> capability_id option" where
  "authority_winner (Commit cap) r = (if r = Inl committed then Some (capability_ident cap) else None)"
| "authority_winner (Ledger_event oper) (Inr a) = ledger_winner oper a"
| "authority_winner (Ledger_event oper) (Inl _) = None"

lemma lifecycle_setState:
  "lifecycleState j (setState i st led) =
     (if j = i then map_option (\<lambda>_. st) (lifecycleState i led) else lifecycleState j led)"
  by (auto simp: setState_def lifecycleState_upd lifecycleState_def split: option.split intro: capability_id.expand)

lemma commit_bridge_ledger:
  "authorityLedger (snd (commit_bridge cap cur m)) = setState (capability_ident cap)
     (if fst (commit_bridge cap cur m) = committed then consumed else invalidated) (authorityLedger m)"
  by (auto simp: commit_bridge_def reject_capability_def Let_def split: option.split)

lemma commit_ledger:
  "(fst (commitProductionTransition cap m) \<noteq> committed \<and>
      authorityLedger (snd (commitProductionTransition cap m)) = authorityLedger m) \<or>
   (lifecycleState (capability_ident cap) (authorityLedger m) = Some issued \<and>
      authorityLedger (snd (commitProductionTransition cap m)) = setState (capability_ident cap)
        (if fst (commitProductionTransition cap m) = committed then consumed else invalidated) (authorityLedger m))"
proof (cases "capability_domain cap = ledger_domain (authorityLedger m) \<and>
    (\<exists>r. lockRecord (capability_ident cap) (authorityLedger m) = Some r \<and> rec_state r = issued \<and>
       rec_binding r = capability_binding cap \<and> rec_issuanceEpoch r = capability_epoch cap)")
  case True
  then obtain x where x: "capability_domain cap = ledger_domain (authorityLedger m)"
    "lockRecord (capability_ident cap) (authorityLedger m) = Some x" "rec_state x = issued"
    "rec_binding x = capability_binding cap" "rec_issuanceEpoch x = capability_epoch cap" by blast
  have "lifecycleState (capability_ident cap) (authorityLedger m) = Some issued"
    using x by (simp add: lifecycleState_def lockRecord_def)
  then show ?thesis unfolding commit_good_record [OF x] Let_def
    by (auto simp: reject_capability_def commit_bridge_ledger split: option.split)
next
  case False
  from commit_bad_record [OF this] show ?thesis by (auto simp: reject_capability_def)
qed

interpretation authority: one_shot authority_step "\<lambda>m i. lifecycleState i (authorityLedger m)" authority_winner
proof
  fix e :: authority_event and m i
  show "lifecycleState i (authorityLedger m) = Some issued" if "authority_winner e (fst (authority_step e m)) = Some i"
    using that commit_ledger ledger.winner_issued
    by (cases e) (auto simp: Let_def split_beta split: if_splits)
  show "retired (lifecycleState i (authorityLedger (snd (authority_step e m))))"
    if "authority_winner e (fst (authority_step e m)) = Some i"
  proof (cases e)
    case (Commit cap)
    then show ?thesis using that commit_ledger [of cap m]
      by (auto simp: lifecycle_setState retired_def split: if_splits)
  next
    case (Ledger_event oper)
    then show ?thesis using that ledger.winner_retired [of oper "authorityLedger m" i]
      by (simp add: Let_def split_beta)
  qed
  show "lifecycleState i (authorityLedger (snd (authority_step e m))) = lifecycleState i (authorityLedger m)"
    if "retired (lifecycleState i (authorityLedger m))"
  proof (cases e)
    case (Commit cap)
    then show ?thesis using that commit_ledger [of cap m] by (auto simp: lifecycle_setState retired_def)
  next
    case (Ledger_event oper)
    then show ?thesis using that ledger.retired_stable by (simp add: Let_def split_beta)
  qed
qed

text \<open>The capabilities that a sequence of commits used up, in order.\<close>

fun committed_ids :: "execution_capability list \<Rightarrow> mesh \<Rightarrow> capability_id list" where
  "committed_ids [] m = []"
| "committed_ids (cap # caps) m = (case commitProductionTransition cap m of (r, m') \<Rightarrow>
     if r = committed then capability_ident cap # committed_ids caps m' else committed_ids caps m')"

fun commit_all :: "execution_capability list \<Rightarrow> mesh \<Rightarrow> mesh" where
  "commit_all [] m = m"
| "commit_all (cap # caps) m = commit_all caps (snd (commitProductionTransition cap m))"

lemma committed_ids_eq: "committed_ids caps m = authority.winners (map Commit caps) m"
  by (induction caps arbitrary: m) (auto split: prod.split)

lemma commit_all_eq: "commit_all caps m = authority.final (map Commit caps) m"
  by (induction caps arbitrary: m) simp_all

text \<open> C13. However often capabilities are presented and in whatever order, also copies of the same one, each
  capability identity commits at most once, and what has committed is retired in the ledger for good.
\<close>

theorem commit_single_use:
  "distinct (committed_ids caps m) \<and>
   set (committed_ids caps m) \<subseteq> {i. retired (lifecycleState i (authorityLedger (commit_all caps m)))}"
  using authority.winners_distinct [of "map Commit caps" m]
    authority.won_retired_final [of _ "map Commit caps" m]
  by (auto simp: committed_ids_eq commit_all_eq)

section \<open>A commit outdates the other capabilities of its relationship\<close>

text \<open> C40. A commit outdates the other capabilities of its relationship: the relationship now carries the
  version taken from the mesh's counter, so a capability for the same relationship that was issued
  for any other version, the one the commit saw included, no longer commits.
\<close>

theorem commit_outdates_version:
  assumes "mesh_ok m" and "fst (commitProductionTransition cap m) = committed"
    and "relationship (capability_binding cap') = relationship (capability_binding cap)"
    and "stateVersion (capability_binding cap') \<noteq> StateVersion (nextLineage m)"
  shows "fst (commitProductionTransition cap' (snd (commitProductionTransition cap m))) \<noteq> committed"
proof
  assume "fst (commitProductionTransition cap' (snd (commitProductionTransition cap m))) = committed"
  then have all': "commit_allowed cap' (snd (commitProductionTransition cap m))"
    using committed_allowed by (metis prod.collapse)
  have "commit_allowed cap m" using assms(2) committed_allowed by (metis prod.collapse)
  then obtain k where "snd (commitProductionTransition cap m) = commit_effect cap k m"
    using commit_when_allowed [OF assms(1)] by fastforce
  then show False using all' assms(3,4) by (simp add: commit_allowed_def commit_effect_def Let_def)
qed

theorem commit_outdates_version_witness:
  "\<exists>cap'. capability_ident cap' = CapId 6 \<and>
     fst (commitProductionTransition cap' (snd (commitProductionTransition sample_capability capability_mesh))) \<noteq> committed"
proof -
  define cap' where "cap' = sample_capability\<lparr>capability_ident := CapId 6,
    capability_binding := (capability_binding sample_capability)\<lparr>stateVersion := StateVersion 3\<rparr>\<rparr>"
  have "fst (commitProductionTransition sample_capability capability_mesh) = committed"
    using commit_when_allowed [OF capability_mesh_ok capability_mesh_allowed] by auto
  then have "fst (commitProductionTransition cap' (snd (commitProductionTransition sample_capability capability_mesh))) \<noteq> committed"
    by (rule commit_outdates_version [OF capability_mesh_ok]) (simp_all add: cap'_def capability_mesh_def)
  moreover have "capability_ident cap' = CapId 6" by (simp add: cap'_def)
  ultimately show ?thesis by blast
qed

end
