(* ===== verification/Mesh_Simulation.thy ===== *)
theory Mesh_Simulation
  imports Mesh_State
begin

text \<open>
  One step of the simulation (\<open>simulationStep\<close> and the functions it calls in
  \<open>src/detail/spatial_adaptive_mesh_impl.hpp\<close>): validation, worker pool, buffers, the computation of a
  range of nodes and the commit. The output buffers are explicit, so what a failing range has already
  written is in the model. The workers of a dispatch compute their ranges outside the lock; \<open>sched\<close>
  is the order in which they report, which is the only thing of their interleaving that a result can
  depend on, because a range reads the nodes and writes only its own rows.
\<close>

section \<open>Validation\<close>

text \<open>The handlers that turn an \<open>std::invalid_argument\<close> into an \<open>std::runtime_error\<close>.\<close>

definition as_runtime :: "string \<Rightarrow> 'a result \<Rightarrow> 'a result" where
  "as_runtime pre r = (case r of
     Inl (Invalid_argument s) \<Rightarrow> Inl (Runtime_error (pre @ s))
   | _ \<Rightarrow> r)"

fun check_all :: "('a \<Rightarrow> unit result) \<Rightarrow> 'a list \<Rightarrow> unit result" where
  "check_all f [] = Inr ()"
| "check_all f (x # xs) = rbind (f x) (\<lambda>_. check_all f xs)"

definition check_bridge :: "nat \<Rightarrow> nat \<Rightarrow> spatial_bridge \<Rightarrow> unit result" where
  "check_bridge n i b =
     rbind (guard_that (\<not> (targetNodeId b < 0 \<or> size_to_int n \<le> targetNodeId b \<or> targetNodeId b = size_to_int i))
       (Runtime_error ''bridge target violates topology invariant'')) (\<lambda>_.
     guard_that (isfinite (distance b) \<and> isfinite (orientationWeight b))
       (Runtime_error ''bridge geometry values must be finite''))"

definition check_node :: "nat \<Rightarrow> nat \<times> node \<Rightarrow> unit result" where
  "check_node n = (\<lambda>(i, nd).
     rbind (as_runtime ''invalid node invariant: ''
       (rbind (vec3_validate (position nd)) (\<lambda>_. invariant_validate (invariant nd)))) (\<lambda>_.
     check_all (check_bridge n i) (bridges nd)))"

definition check_reverse :: "edge_key list \<Rightarrow> nat \<times> spatial_bridge \<Rightarrow> unit result" where
  "check_reverse directed = (\<lambda>(i, b).
     guard_that ((nat (targetNodeId b), i) \<in> set directed)
       (Runtime_error ''bridge pair invariant is violated''))"

definition validateTopologyUnlocked :: "mesh \<Rightarrow> unit result" where
  "validateTopologyUnlocked m =
     rbind (guard_that (isfinite (alpha m)) (Runtime_error ''simulation alpha must be finite'')) (\<lambda>_.
     rbind (check_all (check_node (length (nodes m))) (enumerate 0 (nodes m))) (\<lambda>_.
     check_all (check_reverse (map (\<lambda>(i, b). (i, nat (targetNodeId b))) (directed_bridges (nodes m))))
       (directed_bridges (nodes m))))"

definition check_dynamic :: "node \<Rightarrow> unit result" where
  "check_dynamic n = as_runtime ''invalid node state: ''
     (rbind (requireFinite (state n) ''node state'') (\<lambda>_. requireFinite (healthIndex n) ''node health''))"

definition validateDynamicStateUnlocked :: "mesh \<Rightarrow> unit result" where
  "validateDynamicStateUnlocked m =
     rbind (guard_that (isfinite (alpha m)) (Runtime_error ''simulation alpha must be finite'')) (\<lambda>_.
     check_all check_dynamic (nodes m))"

definition validateTopologyAndStateUnlocked :: "mesh \<Rightarrow> unit result \<times> mesh" where
  "validateTopologyAndStateUnlocked m =
    (case (if topologyValidationRequired m then validateTopologyUnlocked m else Inr ()) of
       Inl e \<Rightarrow> (Inl e, m)
     | Inr _ \<Rightarrow> let m1 = m\<lparr>topologyValidationRequired := False\<rparr>
         in (validateDynamicStateUnlocked m1, m1))"

section \<open>The worker pool\<close>

definition resolveWorkerCountUnlocked :: "platform \<Rightarrow> mesh \<Rightarrow> nat" where
  "resolveWorkerCountUnlocked P m =
    (if nodes m = [] then 0
     else let hardwareWorkers = max 1 (hardware_concurrency P);
              requested = (if workerLimit m = 0 then hardwareWorkers else workerLimit m)
          in min requested (length (nodes m)))"

text \<open>Starting the workers whose numbers are listed; those before a failure stay.\<close>

fun start_workers :: "platform \<Rightarrow> nat list \<Rightarrow> mesh \<Rightarrow> unit result \<times> mesh" where
  "start_workers P [] m = (Inr (), m)"
| "start_workers P (k # ks) m =
    (case thread_failure P k of
       Some e \<Rightarrow> (Inl e, m)
     | None \<Rightarrow> start_workers P ks (m\<lparr>workerCount := workerCount m + 1\<rparr>))"

definition ensureWorkerPoolUnlocked :: "platform \<Rightarrow> mesh \<Rightarrow> unit result \<times> mesh" where
  "ensureWorkerPoolUnlocked P m =
     start_workers P [workerCount m ..< resolveWorkerCountUnlocked P m] m"

section \<open>The buffers\<close>

text \<open>\<open>std::vector::resize\<close>: new elements are value-initialized.\<close>

definition resize :: "'a \<Rightarrow> nat \<Rightarrow> 'a list \<Rightarrow> 'a list" where
  "resize d n xs = take n xs @ replicate (n - length xs) d"

definition resize_row :: "'a \<Rightarrow> nat \<Rightarrow> nat \<Rightarrow> 'a list list \<Rightarrow> 'a list list" where
  "resize_row d i n xss = xss[i := resize d n (xss ! i)]"

text \<open>The resizings of one preparation, in order.\<close>

definition row_resizings :: "nat \<times> node \<Rightarrow> (mesh \<Rightarrow> mesh) list" where
  "row_resizings = (\<lambda>(i, nd). let k = length (bridges nd) in
    [\<lambda>m. m\<lparr>pendingBridgeCapacities := resize_row 0 i k (pendingBridgeCapacities m)\<rparr>,
     \<lambda>m. m\<lparr>pendingBridgeStatuses := resize_row NORMAL i k (pendingBridgeStatuses m)\<rparr>,
     \<lambda>m. m\<lparr>pendingBridgeChanged := resize_row False i k (pendingBridgeChanged m)\<rparr>])"

definition buffer_resizings :: "node list \<Rightarrow> (mesh \<Rightarrow> mesh) list" where
  "buffer_resizings ns = (let n = length ns in
    [\<lambda>m. m\<lparr>computedStates := resize 0 n (computedStates m)\<rparr>,
     \<lambda>m. m\<lparr>pendingBridgeCapacities := resize [] n (pendingBridgeCapacities m)\<rparr>,
     \<lambda>m. m\<lparr>pendingBridgeStatuses := resize [] n (pendingBridgeStatuses m)\<rparr>,
     \<lambda>m. m\<lparr>pendingBridgeChanged := resize [] n (pendingBridgeChanged m)\<rparr>]
    @ concat (map row_resizings (enumerate 0 ns)))"

fun run_resizings :: "platform \<Rightarrow> nat \<Rightarrow> (mesh \<Rightarrow> mesh) list \<Rightarrow> mesh \<Rightarrow> unit result \<times> mesh" where
  "run_resizings P k [] m = (Inr (), m)"
| "run_resizings P k (f # fs) m =
    (if buffer_room P k then run_resizings P (Suc k) fs (f m) else (Inl Bad_alloc, m))"

definition prepareBuffers :: "platform \<Rightarrow> mesh \<Rightarrow> unit result \<times> mesh" where
  "prepareBuffers P m =
    (if simulationBufferShapeDirty m
     then (case run_resizings P 0 (buffer_resizings (nodes m)) m of
         (Inl e, m1) \<Rightarrow> (Inl e, m1)
       | (Inr _, m1) \<Rightarrow> (Inr (), m1\<lparr>simulationBufferShapeDirty := False\<rparr>))
     else (Inr (), m))"

section \<open>Computing a range of nodes\<close>

definition computeEffectiveCouplingUnchecked :: "spatial_bridge \<Rightarrow> f64" where
  "computeEffectiveCouplingUnchecked b =
    (let spatialAttenuation = 1 / (1 + dec 1 1 * distance b)
     in capacity b * spatialAttenuation * orientationWeight b)"

definition updateHealthUnchecked :: "f64 \<Rightarrow> node \<Rightarrow> node" where
  "updateHealthUnchecked currentState n =
    (let drift = \<bar>currentState - baseline (invariant n)\<bar>
     in n\<lparr>healthIndex := std_max 0 (1 - drift / maxEpsilon (invariant n))\<rparr>)"

definition evaluateSignalUncheckedInvariant ::
  "f64 \<Rightarrow> f64 \<Rightarrow> identity_invariant \<Rightarrow> signal_category result" where
  "evaluateSignalUncheckedInvariant candidate health w =
     rbind (requireFinite candidate ''candidateState'') (\<lambda>_.
     let deltaFromBase = \<bar>candidate - baseline w\<bar> in
     if maxEpsilon w < deltaFromBase then Inr DESTRUCTIVE_DRIFT
     else if dec 7 1 < health \<and> dec 12 1 < deltaFromBase then Inr CREATIVE_SIGNAL
     else Inr NOISE)"

text \<open>The output vectors of a dispatch, one row per node.\<close>

record sim_buffers =
  out_states :: "f64 list"
  out_capacities :: "f64 list list"
  out_statuses :: "bridge_status list list"
  out_changed :: "bool list list"

definition buffers_of :: "mesh \<Rightarrow> sim_buffers" where
  "buffers_of m = \<lparr>out_states = computedStates m, out_capacities = pendingBridgeCapacities m,
     out_statuses = pendingBridgeStatuses m, out_changed = pendingBridgeChanged m\<rparr>"

definition store_buffers :: "sim_buffers \<Rightarrow> mesh \<Rightarrow> mesh" where
  "store_buffers bf m = m\<lparr>computedStates := out_states bf, pendingBridgeCapacities := out_capacities bf,
     pendingBridgeStatuses := out_statuses bf, pendingBridgeChanged := out_changed bf\<rparr>"

definition put :: "nat \<Rightarrow> nat \<Rightarrow> 'a \<Rightarrow> 'a list list \<Rightarrow> 'a list list" where
  "put i k x xss = xss[i := (xss ! i)[k := x]]"

text \<open>The next bridge and the difference of states it carries.\<close>

definition next_bridge :: "node list \<Rightarrow> node \<Rightarrow> f64 \<Rightarrow> spatial_bridge \<Rightarrow> (spatial_bridge \<times> f64) result" where
  "next_bridge ns n currentState b =
    (let deltaS = state (ns ! nat (targetNodeId b)) - currentState in
     rbind (evaluateSignalUncheckedInvariant (currentState + deltaS) (healthIndex n) (invariant n))
       (\<lambda>category.
     let nextBridge = updateBridgeState category b in
     rbind (guard_that (isfinite (capacity nextBridge))
       (Runtime_error ''simulation produced a non-finite bridge capacity'')) (\<lambda>_.
     Inr (nextBridge, deltaS))))"

text \<open>The inner loop; \<open>i\<close> is the node, \<open>k\<close> the bridge index and \<open>acc\<close> the diffusion sum so far.\<close>

fun run_bridges ::
  "node list \<Rightarrow> nat \<Rightarrow> node \<Rightarrow> f64 \<Rightarrow> nat \<Rightarrow> spatial_bridge list \<Rightarrow> f64 \<Rightarrow> sim_buffers \<Rightarrow>
     f64 result \<times> sim_buffers" where
  "run_bridges ns i n cur k [] acc bf = (Inr acc, bf)"
| "run_bridges ns i n cur k (b # bs) acc bf =
    (case next_bridge ns n cur b of
       Inl e \<Rightarrow> (Inl e, bf)
     | Inr (nb, deltaS) \<Rightarrow>
         let changed = (\<not> feq (capacity b) (capacity nb) \<or> status b \<noteq> status nb);
             bf1 = bf\<lparr>out_changed := put i k changed (out_changed bf)\<rparr>;
             bf2 = (if changed
               then bf1\<lparr>out_capacities := put i k (capacity nb) (out_capacities bf1),
                 out_statuses := put i k (status nb) (out_statuses bf1)\<rparr>
               else bf1)
         in run_bridges ns i n cur (Suc k) bs
              (acc + computeEffectiveCouplingUnchecked nb * deltaS) bf2)"

definition run_node :: "node list \<Rightarrow> f64 \<Rightarrow> nat \<Rightarrow> sim_buffers \<Rightarrow> unit result \<times> sim_buffers" where
  "run_node ns a i bf = (let n = ns ! i in
    (case run_bridges ns i n (state n) 0 (bridges n) 0 bf of
       (Inl e, bf1) \<Rightarrow> (Inl e, bf1)
     | (Inr diffusionSum, bf1) \<Rightarrow>
         (Inr (), bf1\<lparr>out_states := (out_states bf1)[i := state n + a * diffusionSum]\<rparr>)))"

fun run_nodes :: "node list \<Rightarrow> f64 \<Rightarrow> nat list \<Rightarrow> sim_buffers \<Rightarrow> unit result \<times> sim_buffers" where
  "run_nodes ns a [] bf = (Inr (), bf)"
| "run_nodes ns a (i # is) bf =
    (case run_node ns a i bf of
       (Inl e, bf1) \<Rightarrow> (Inl e, bf1)
     | (Inr _, bf1) \<Rightarrow> run_nodes ns a is bf1)"

definition runNodeRange ::
  "node list \<Rightarrow> f64 \<Rightarrow> nat \<Rightarrow> nat \<Rightarrow> sim_buffers \<Rightarrow> unit result \<times> sim_buffers" where
  "runNodeRange ns a firstNode lastNode = run_nodes ns a [firstNode ..< lastNode]"

section \<open>Dispatch, commit and the whole step\<close>

definition first_node :: "nat \<Rightarrow> nat \<Rightarrow> nat \<Rightarrow> nat" where
  "first_node workers n k = k * n div workers"

text \<open>A worker that fails stores its exception unless one is stored already.\<close>

definition run_worker ::
  "node list \<Rightarrow> f64 \<Rightarrow> nat \<Rightarrow> nat \<Rightarrow> exn option \<times> sim_buffers \<Rightarrow> exn option \<times> sim_buffers" where
  "run_worker ns a workers k = (\<lambda>(error, bf).
    (case runNodeRange ns a (first_node workers (length ns) k) (first_node workers (length ns) (k + 1)) bf of
       (Inl e, bf1) \<Rightarrow> (Some (case error of None \<Rightarrow> e | Some e1 \<Rightarrow> e1), bf1)
     | (Inr _, bf1) \<Rightarrow> (error, bf1)))"

definition dispatch ::
  "node list \<Rightarrow> f64 \<Rightarrow> nat \<Rightarrow> nat list \<Rightarrow> sim_buffers \<Rightarrow> unit result \<times> sim_buffers" where
  "dispatch ns a workers sched bf =
    (case fold (run_worker ns a workers) sched (None, bf) of
       (Some e, bf1) \<Rightarrow> (Inl e, bf1)
     | (None, bf1) \<Rightarrow> (Inr (), bf1))"

definition commit_bridges ::
  "bool list \<Rightarrow> f64 list \<Rightarrow> bridge_status list \<Rightarrow> spatial_bridge list \<Rightarrow> spatial_bridge list" where
  "commit_bridges chg caps sts bs = map (\<lambda>(k, b).
     if chg ! k then b\<lparr>capacity := caps ! k, status := sts ! k\<rparr> else b) (enumerate 0 bs)"

definition commit_node :: "sim_buffers \<Rightarrow> nat \<times> node \<Rightarrow> node" where
  "commit_node bf = (\<lambda>(i, n).
    (let committedState = out_states bf ! i;
         n1 = updateHealthUnchecked committedState (n\<lparr>state := committedState\<rparr>)
     in n1\<lparr>bridges := commit_bridges (out_changed bf ! i) (out_capacities bf ! i)
          (out_statuses bf ! i) (bridges n1)\<rparr>))"

definition commit_nodes :: "sim_buffers \<Rightarrow> node list \<Rightarrow> node list" where
  "commit_nodes bf ns = map (commit_node bf) (enumerate 0 ns)"

definition simulationStep :: "platform \<Rightarrow> nat list \<Rightarrow> mesh \<Rightarrow> unit result \<times> mesh" where
  "simulationStep P sched m =
    (case validateTopologyAndStateUnlocked m of
       (Inl e, m1) \<Rightarrow> (Inl e, m1)
     | (Inr _, m1) \<Rightarrow>
    (case ensureWorkerPoolUnlocked P m1 of
       (Inl e, m2) \<Rightarrow> (Inl e, m2)
     | (Inr _, m2) \<Rightarrow>
    (case prepareBuffers P m2 of
       (Inl e, m3) \<Rightarrow> (Inl e, m3)
     | (Inr _, m3) \<Rightarrow>
         if computedStates m3 = [] then (Inr (), m3)
         else
    (case (if workerCount m3 = 1
           then runNodeRange (nodes m3) (alpha m3) 0 (length (nodes m3)) (buffers_of m3)
           else dispatch (nodes m3) (alpha m3) (workerCount m3) sched (buffers_of m3)) of
       (Inl e, bf) \<Rightarrow> (Inl e, store_buffers bf m3)
     | (Inr _, bf) \<Rightarrow>
         (case check_all (\<lambda>i. guard_that (isfinite (out_states bf ! i))
            (Runtime_error ''simulation produced a non-finite state'')) [0 ..< length (nodes m3)] of
           Inl e \<Rightarrow> (Inl e, store_buffers bf m3)
         | Inr _ \<Rightarrow> (Inr (), (store_buffers bf m3)\<lparr>nodes := commit_nodes bf (nodes m3)\<rparr>))))))"

definition simulationStepAsync :: "platform \<Rightarrow> nat list \<Rightarrow> mesh \<Rightarrow> unit result \<times> mesh" where
  "simulationStepAsync P sched m = simulationStep P sched m"

end
