(* ===== verification/Simulation_Laws.thy ===== *)
theory Simulation_Laws
  imports Mesh_Simulation Mesh_Laws
begin

text \<open>
  What a simulation step computes: a reference step that goes through the checked public operations,
  one node after the other and without buffers, and the proof that the step with its buffers, its
  unchecked copies of the operations and its workers yields the same mesh in every schedule.
\<close>

section \<open>The reference step\<close>

fun map_result :: "('a \<Rightarrow> 'b result) \<Rightarrow> 'a list \<Rightarrow> 'b list result" where
  "map_result f [] = Inr []"
| "map_result f (x # xs) = rbind (f x) (\<lambda>y. rbind (map_result f xs) (\<lambda>ys. Inr (y # ys)))"

definition reference_bridge :: "node list \<Rightarrow> node \<Rightarrow> spatial_bridge \<Rightarrow> (spatial_bridge \<times> f64) result" where
  "reference_bridge ns n b =
    (let deltaS = state (ns ! nat (targetNodeId b)) - state n in
     rbind (meta_evaluate (state n + deltaS) (healthIndex n) (invariant n)) (\<lambda>category.
     let nextBridge = updateBridgeState category b in
     rbind (getEffectiveCoupling nextBridge) (\<lambda>c. Inr (nextBridge, c * deltaS))))"

definition reference_node :: "node list \<Rightarrow> f64 \<Rightarrow> node \<Rightarrow> node result" where
  "reference_node ns a n =
     rbind (map_result (reference_bridge ns n) (bridges n)) (\<lambda>ps.
     let s = state n + a * fold (\<lambda>(_, t) acc. acc + t) ps 0 in
     rbind (requireFinite s ''state'') (\<lambda>_.
     updateHealth (n\<lparr>state := s, bridges := map fst ps\<rparr>)))"

definition reference_step :: "node list \<Rightarrow> f64 \<Rightarrow> node list result" where
  "reference_step ns a = map_result (reference_node ns a) ns"

lemma map_result_Inr: "map_result f xs = Inr ys \<longleftrightarrow> list_all2 (\<lambda>x y. f x = Inr y) xs ys"
  by (induction xs arbitrary: ys) (auto simp: result_simps list_all2_Cons1)

lemma map_result_ok: "is_ok (map_result f xs) \<longleftrightarrow> list_all (\<lambda>x. is_ok (f x)) xs"
  by (induction xs) (auto simp: is_ok_iff result_simps)

section \<open>Unchecked operations agree with the checked ones\<close>

lemma deviation_not_le:
  assumes "isfinite c" "isfinite b" "isfinite e"
  shows "\<bar>c - b\<bar> \<le> e \<longleftrightarrow> \<not> e < \<bar>c - (b::f64)\<bar>"
proof -
  have "c - b \<noteq> NaN" using assms by (auto simp: isfinite_iff fin_arith)
  then have "\<bar>c - b\<bar> \<noteq> NaN" by (cases "c - b") auto
  moreover have "e \<noteq> NaN" using assms by auto
  ultimately show ?thesis using f64_not_less [of e "\<bar>c - b\<bar>"] by simp
qed

lemma evaluateSignal_unchecked:
  assumes "invariant_ok w" "isfinite h"
  shows "evaluateSignalUncheckedInvariant c h w = meta_evaluate c h w"
proof (cases "isfinite c")
  case True
  then have "isWithinSafetyBound w c = Inr (\<not> maxEpsilon w < \<bar>c - baseline w\<bar>)"
    using assms deviation_not_le [of c "baseline w" "maxEpsilon w"]
    by (simp add: isWithinSafetyBound_def invariant_ok_def)
  then show ?thesis using True assms
    by (simp add: evaluateSignalUncheckedInvariant_def meta_evaluate_def Let_def)
next
  case False
  then show ?thesis
    by (simp add: evaluateSignalUncheckedInvariant_def meta_evaluate_def requireFinite_def)
qed

lemma coupling_unchecked:
  "bridge_ok b \<Longrightarrow> getEffectiveCoupling b = Inr (computeEffectiveCouplingUnchecked b)"
  by (simp add: getEffectiveCoupling_eq computeEffectiveCouplingUnchecked_def Let_def)

lemma health_unchecked:
  "invariant_ok (invariant n) \<Longrightarrow> isfinite s \<Longrightarrow>
     updateHealth (n\<lparr>state := s\<rparr>) = Inr (updateHealthUnchecked s (n\<lparr>state := s\<rparr>))"
  by (simp add: updateHealth_def updateHealthUnchecked_def Let_def)

lemma bridge_capacity_finite: "bridge_ok b \<Longrightarrow> isfinite (capacity b)"
  using unit_finite by (simp add: bridge_ok_def)

text \<open>One bridge: the unchecked computation and the reference agree.\<close>

lemma next_bridge_reference:
  assumes "node_data_ok n" "bridge_ok b"
  shows "reference_bridge ns n b =
    rbind (next_bridge ns n (state n) b) (\<lambda>(nb, d). Inr (nb, computeEffectiveCouplingUnchecked nb * d))"
proof -
  have i: "invariant_ok (invariant n)" "isfinite (healthIndex n)"
    using assms(1) unit_finite by (auto simp: node_data_ok_def)
  have "bridge_ok (updateBridgeState cat b)" for cat
    by (rule updateBridgeState_bridge_ok [OF assms(2)])
  note nb = this coupling_unchecked [OF this] bridge_capacity_finite [OF this]
  show ?thesis
    unfolding reference_bridge_def next_bridge_def Let_def evaluateSignal_unchecked [OF i]
    by (cases "meta_evaluate (state n + (state (ns ! nat (targetNodeId b)) - state n)) (healthIndex n) (invariant n)")
      (simp_all add: nb)
qed

lemma next_bridge_Inr:
  assumes "next_bridge ns n cur b = Inr (nb, d)"
  shows "\<exists>category. nb = updateBridgeState category b" "d = state (ns ! nat (targetNodeId b)) - cur"
  using assms by (auto simp: next_bridge_def result_simps Let_def)

section \<open>Rows of the buffers\<close>

text \<open>The buffers have a row of the right length for every node.\<close>

definition rows_fit :: "node list \<Rightarrow> sim_buffers \<Rightarrow> bool" where
  "rows_fit ns bf \<longleftrightarrow> length (out_states bf) = length ns \<and>
     map length (out_capacities bf) = map (\<lambda>n. length (bridges n)) ns \<and>
     map length (out_statuses bf) = map (\<lambda>n. length (bridges n)) ns \<and>
     map length (out_changed bf) = map (\<lambda>n. length (bridges n)) ns"

definition same_row :: "nat \<Rightarrow> sim_buffers \<Rightarrow> sim_buffers \<Rightarrow> bool" where
  "same_row j bf bf' \<longleftrightarrow> out_states bf' ! j = out_states bf ! j \<and>
     out_capacities bf' ! j = out_capacities bf ! j \<and> out_statuses bf' ! j = out_statuses bf ! j \<and>
     out_changed bf' ! j = out_changed bf ! j"

text \<open>Entry \<open>k\<close> of row \<open>i\<close> encodes the change from bridge \<open>b\<close> to bridge \<open>nb\<close>.\<close>

definition entry_done :: "sim_buffers \<Rightarrow> nat \<Rightarrow> nat \<Rightarrow> spatial_bridge \<Rightarrow> spatial_bridge \<Rightarrow> bool" where
  "entry_done bf i k b nb \<longleftrightarrow>
     (if \<not> feq (capacity b) (capacity nb) \<or> status b \<noteq> status nb
      then out_changed bf ! i ! k \<and> out_capacities bf ! i ! k = capacity nb \<and> out_statuses bf ! i ! k = status nb
      else \<not> out_changed bf ! i ! k)"

lemma same_row_refl [simp]: "same_row j bf bf"
  by (simp add: same_row_def)

lemma same_row_trans: "same_row j bf bf' \<Longrightarrow> same_row j bf' bf'' \<Longrightarrow> same_row j bf bf''"
  by (simp add: same_row_def)

lemma entry_same_row: "same_row i bf bf' \<Longrightarrow> entry_done bf' i k b nb = entry_done bf i k b nb"
  by (simp add: same_row_def entry_done_def)

lemma map_length_put [simp]: "map length (put i k x xss) = map length xss"
proof (cases "i < length xss")
  case True
  then show ?thesis by (simp add: put_def map_update) (metis list_update_id nth_map)
qed (simp add: put_def list_update_beyond)

lemma put_nth:
  "put i k x xss ! j = (if j = i \<and> i < length xss then (xss ! i)[k := x] else xss ! j)"
  by (cases "i < length xss") (auto simp: put_def nth_list_update list_update_beyond)

lemma rows_fit_row:
  assumes "rows_fit ns bf" "i < length ns"
  shows "i < length (out_states bf)" "i < length (out_capacities bf)" "i < length (out_statuses bf)"
    "i < length (out_changed bf)" "length (out_capacities bf ! i) = length (bridges (ns ! i))"
    "length (out_statuses bf ! i) = length (bridges (ns ! i))"
    "length (out_changed bf ! i) = length (bridges (ns ! i))"
proof -
  note f = assms(1) [unfolded rows_fit_def]
  have l: "length (out_capacities bf) = length ns" "length (out_statuses bf) = length ns"
    "length (out_changed bf) = length ns" using f map_eq_imp_length_eq by metis+
  then show "i < length (out_states bf)" "i < length (out_capacities bf)" "i < length (out_statuses bf)"
    "i < length (out_changed bf)" using f assms(2) by simp_all
  have "map length (out_capacities bf) ! i = map (\<lambda>n. length (bridges n)) ns ! i"
    "map length (out_statuses bf) ! i = map (\<lambda>n. length (bridges n)) ns ! i"
    "map length (out_changed bf) ! i = map (\<lambda>n. length (bridges n)) ns ! i" using f by metis+
  then show "length (out_capacities bf ! i) = length (bridges (ns ! i))"
    "length (out_statuses bf ! i) = length (bridges (ns ! i))"
    "length (out_changed bf ! i) = length (bridges (ns ! i))" using l assms(2) by simp_all
qed

text \<open>One iteration of the inner loop as a function on the buffers.\<close>

definition write_entry :: "nat \<Rightarrow> nat \<Rightarrow> spatial_bridge \<Rightarrow> spatial_bridge \<Rightarrow> sim_buffers \<Rightarrow> sim_buffers" where
  "write_entry i k b nb bf =
    (let changed = (\<not> feq (capacity b) (capacity nb) \<or> status b \<noteq> status nb);
             bf1 = bf\<lparr>out_changed := put i k changed (out_changed bf)\<rparr>
     in if changed
        then bf1\<lparr>out_capacities := put i k (capacity nb) (out_capacities bf1),
                 out_statuses := put i k (status nb) (out_statuses bf1)\<rparr>
        else bf1)"

lemma run_bridges_Cons:
  "run_bridges ns i n cur k (b # bs) acc bf =
    (case next_bridge ns n cur b of
       Inl e \<Rightarrow> (Inl e, bf)
     | Inr (nb, deltaS) \<Rightarrow> run_bridges ns i n cur (Suc k) bs
              (acc + computeEffectiveCouplingUnchecked nb * deltaS) (write_entry i k b nb bf))"
  by (simp add: write_entry_def Let_def cong: sum.case_cong prod.case_cong)

lemma write_entry_fit: "rows_fit ns bf \<Longrightarrow> rows_fit ns (write_entry i k b nb bf)"
  by (simp add: write_entry_def Let_def rows_fit_def)

lemma write_entry_other: "j \<noteq> i \<Longrightarrow> same_row j bf (write_entry i k b nb bf)"
  by (simp add: write_entry_def Let_def same_row_def put_nth)

lemma write_entry_done:
  assumes "rows_fit ns bf" "i < length ns" "k < length (bridges (ns ! i))"
  shows "entry_done (write_entry i k b nb bf) i k b nb"
  using rows_fit_row [OF assms(1,2)] assms(3) by (simp add: write_entry_def Let_def entry_done_def put_nth)

lemma write_entry_keeps:
  "l \<noteq> k \<Longrightarrow> entry_done (write_entry i k b nb bf) i l c nc = entry_done bf i l c nc"
  by (auto simp: write_entry_def Let_def entry_done_def put_nth)

lemma write_entry_states: "out_states (write_entry i k b nb bf) = out_states bf"
  by (simp add: write_entry_def Let_def)

section \<open>What a run leaves in the buffers\<close>

definition transmitted :: "(spatial_bridge \<times> f64) list \<Rightarrow> f64 \<Rightarrow> f64" where
  "transmitted ps acc = fold (\<lambda>(nb, d) acc. acc + computeEffectiveCouplingUnchecked nb * d) ps acc"

lemma run_bridges_frame:
  assumes "rows_fit ns bf"
  shows "rows_fit ns (snd (run_bridges ns i n cur k bs acc bf)) \<and>
    (\<forall>j. j \<noteq> i \<longrightarrow> same_row j bf (snd (run_bridges ns i n cur k bs acc bf))) \<and>
    (\<forall>l c nc. l < k \<longrightarrow> entry_done (snd (run_bridges ns i n cur k bs acc bf)) i l c nc = entry_done bf i l c nc) \<and>
    out_states (snd (run_bridges ns i n cur k bs acc bf)) = out_states bf"
  using assms
proof (induction bs arbitrary: k acc bf)
  case (Cons b bs)
  show ?case
  proof (cases "next_bridge ns n cur b")
    case (Inl e)
    then show ?thesis using Cons.prems by simp
  next
    case (Inr r)
    obtain nb d where r: "r = (nb, d)" by fastforce
    note ih = Cons.IH [OF write_entry_fit [OF Cons.prems], of "Suc k" "acc + computeEffectiveCouplingUnchecked nb * d" i k b nb]
    show ?thesis unfolding run_bridges_Cons Inr r
      using ih write_entry_other [of _ i bf k b nb]
      by (auto simp: write_entry_keeps write_entry_states intro: same_row_trans)
  qed
qed simp

lemma run_bridges_result:
  "fst (run_bridges ns i n cur k bs acc bf) =
     rbind (map_result (next_bridge ns n cur) bs) (\<lambda>ps. Inr (transmitted ps acc))"
proof (induction bs arbitrary: k acc bf)
  case (Cons b bs)
  show ?case
  proof (cases "next_bridge ns n cur b")
    case (Inl e)
    then show ?thesis by simp
  next
    case (Inr r)
    obtain nb d where r: "r = (nb, d)" by fastforce
    show ?thesis unfolding run_bridges_Cons Inr r
      by (cases "map_result (next_bridge ns n cur) bs")
        (simp_all add: Inr r Cons.IH transmitted_def)
  qed
qed (simp add: transmitted_def)

lemma run_bridges_entries:
  assumes "rows_fit ns bf" "i < length ns" "k + length bs \<le> length (bridges (ns ! i))"
    "map_result (next_bridge ns n cur) bs = Inr ps" "l < length bs"
  shows "entry_done (snd (run_bridges ns i n cur k bs acc bf)) i (k + l) (bs ! l) (fst (ps ! l))"
  using assms
proof (induction bs arbitrary: k acc bf l ps)
  case (Cons b bs)
  from Cons.prems(4) obtain r rs where rs: "next_bridge ns n cur b = Inr r"
    "map_result (next_bridge ns n cur) bs = Inr rs" "ps = r # rs"
    by (auto simp: result_simps)
  obtain nb d where r: "r = (nb, d)" by fastforce
  have k: "k < length (bridges (ns ! i))" using Cons.prems(3) by simp
  define bf1 where "bf1 = write_entry i k b nb bf"
  have fit: "rows_fit ns bf1" unfolding bf1_def by (rule write_entry_fit [OF Cons.prems(1)])
  define acc1 where "acc1 = acc + computeEffectiveCouplingUnchecked nb * d"
  have run: "run_bridges ns i n cur k (b # bs) acc bf = run_bridges ns i n cur (Suc k) bs acc1 bf1"
    unfolding run_bridges_Cons rs(1) r bf1_def acc1_def by simp
  show ?case
  proof (cases l)
    case 0
    have "entry_done bf1 i k b nb"
      unfolding bf1_def by (rule write_entry_done [OF Cons.prems(1,2) k])
    then show ?thesis using run_bridges_frame [OF fit] by (simp add: run rs(3) r 0 del: run_bridges.simps)
  next
    case (Suc l')
    have "entry_done (snd (run_bridges ns i n cur (Suc k) bs acc1 bf1)) i (Suc k + l') (bs ! l') (fst (rs ! l'))"
      using Cons.prems Suc by (intro Cons.IH [OF fit _ _ rs(2)]) simp_all
    then show ?thesis by (simp add: run rs(3) Suc del: run_bridges.simps)
  qed
qed simp

text \<open>The outcome of a node depends on the nodes alone.\<close>

definition node_outcome :: "node list \<Rightarrow> nat \<Rightarrow> (spatial_bridge \<times> f64) list result" where
  "node_outcome ns i = map_result (next_bridge ns (ns ! i) (state (ns ! i))) (bridges (ns ! i))"

definition row_done :: "node list \<Rightarrow> f64 \<Rightarrow> sim_buffers \<Rightarrow> nat \<Rightarrow> (spatial_bridge \<times> f64) list \<Rightarrow> bool" where
  "row_done ns a bf i ps \<longleftrightarrow> out_states bf ! i = state (ns ! i) + a * transmitted ps 0 \<and>
     (\<forall>l < length (bridges (ns ! i)). entry_done bf i l (bridges (ns ! i) ! l) (fst (ps ! l)))"

lemma row_done_same_row: "same_row i bf bf' \<Longrightarrow> row_done ns a bf' i ps = row_done ns a bf i ps"
  by (simp add: row_done_def entry_same_row) (simp add: same_row_def)

lemma run_node_frame:
  assumes "rows_fit ns bf"
  shows "rows_fit ns (snd (run_node ns a i bf))" "j \<noteq> i \<Longrightarrow> same_row j bf (snd (run_node ns a i bf))"
  using run_bridges_frame [OF assms, of i "ns ! i" "state (ns ! i)" 0 "bridges (ns ! i)" 0]
  by (auto simp: run_node_def Let_def rows_fit_def same_row_def split: prod.splits sum.splits)

lemma run_node_result: "fst (run_node ns a i bf) = rbind (node_outcome ns i) (\<lambda>_. Inr ())"
  using run_bridges_result [of ns i "ns ! i" "state (ns ! i)" 0 "bridges (ns ! i)" 0 bf]
  by (cases "node_outcome ns i") (auto simp: run_node_def node_outcome_def Let_def split: prod.splits sum.splits)

lemma run_node_row:
  assumes fit: "rows_fit ns bf" and i: "i < length ns" and out: "node_outcome ns i = Inr ps"
  shows "row_done ns a (snd (run_node ns a i bf)) i ps"
proof -
  define r where "r = run_bridges ns i (ns ! i) (state (ns ! i)) 0 (bridges (ns ! i)) 0 bf"
  have res: "fst r = Inr (transmitted ps 0)"
    using run_bridges_result [of ns i "ns ! i" "state (ns ! i)" 0 "bridges (ns ! i)" 0 bf] out
    by (simp add: r_def node_outcome_def)
  then have run: "snd (run_node ns a i bf) =
      (snd r)\<lparr>out_states := (out_states (snd r))[i := state (ns ! i) + a * transmitted ps 0]\<rparr>"
    by (cases r) (simp add: run_node_def r_def [symmetric] Let_def)
  have "rows_fit ns (snd r)" using run_bridges_frame [OF fit] by (simp add: r_def)
  then have "i < length (out_states (snd r))" using i by (simp add: rows_fit_def)
  moreover have "entry_done (snd r) i (0 + l) (bridges (ns ! i) ! l) (fst (ps ! l))"
    if "l < length (bridges (ns ! i))" for l
    unfolding r_def using fit i that out by (intro run_bridges_entries) (simp_all add: node_outcome_def)
  ultimately show ?thesis by (simp add: run row_done_def entry_done_def)
qed

text \<open>Rows that hold the outcome of their node.\<close>

definition outcome_row :: "node list \<Rightarrow> f64 \<Rightarrow> sim_buffers \<Rightarrow> nat \<Rightarrow> bool" where
  "outcome_row ns a bf i \<longleftrightarrow> (\<exists>ps. node_outcome ns i = Inr ps \<and> row_done ns a bf i ps)"

lemma run_node_keeps:
  assumes "rows_fit ns bf" "i < length ns" "is_ok (node_outcome ns i)"
    "outcome_row ns a bf j \<or> j = i"
  shows "outcome_row ns a (snd (run_node ns a i bf)) j"
proof (cases "j = i")
  case True
  then show ?thesis using run_node_row [OF assms(1,2)] assms(3) by (auto simp: outcome_row_def is_ok_iff)
next
  case False
  then show ?thesis using assms(4) row_done_same_row [OF run_node_frame(2) [OF assms(1) False]]
    by (auto simp: outcome_row_def)
qed

lemma run_nodes_ok:
  assumes "rows_fit ns bf" "\<forall>i \<in> set is. i < length ns \<and> is_ok (node_outcome ns i)"
  shows "\<exists>bf'. run_nodes ns a is bf = (Inr (), bf') \<and> rows_fit ns bf' \<and>
    (\<forall>j. outcome_row ns a bf j \<or> j \<in> set is \<longrightarrow> outcome_row ns a bf' j)"
  using assms
proof (induction "is" arbitrary: bf)
  case (Cons i "is")
  have i: "i < length ns" "is_ok (node_outcome ns i)" using Cons.prems(2) by auto
  obtain bf1 where bf1: "run_node ns a i bf = (Inr (), bf1)"
    using run_node_result [of ns a i bf] i(2) by (cases "run_node ns a i bf") (auto simp: is_ok_iff)
  have fit: "rows_fit ns bf1" using run_node_frame(1) [OF Cons.prems(1), of a i] bf1 by simp
  have keep: "outcome_row ns a bf1 j" if "outcome_row ns a bf j \<or> j = i" for j
    using run_node_keeps [OF Cons.prems(1) i that] bf1 by simp
  obtain bf' where "run_nodes ns a is bf1 = (Inr (), bf')" "rows_fit ns bf'"
    "\<forall>j. outcome_row ns a bf1 j \<or> j \<in> set is \<longrightarrow> outcome_row ns a bf' j"
    using Cons.IH [OF fit] Cons.prems(2) by auto
  then show ?case using keep by (auto simp: bf1)
qed simp

lemma run_nodes_fail:
  assumes "\<exists>i \<in> set is. \<not> is_ok (node_outcome ns i)"
  shows "\<not> is_ok (fst (run_nodes ns a is bf))"
  using assms
proof (induction "is" arbitrary: bf)
  case (Cons i "is")
  show ?case
  proof (cases "node_outcome ns i")
    case (Inl e)
    then show ?thesis using run_node_result [of ns a i bf] by (cases "run_node ns a i bf") auto
  next
    case (Inr ps)
    then have "\<exists>i \<in> set is. \<not> is_ok (node_outcome ns i)" using Cons.prems by auto
    then show ?thesis using Inr Cons.IH run_node_result [of ns a i bf] by (cases "run_node ns a i bf") auto
  qed
qed simp

section \<open>The ranges of the workers\<close>

lemma worker_ranges_concat:
  assumes "0 < w" "k \<le> w"
  shows "concat (map (\<lambda>k. [first_node w n k ..< first_node w n (k + 1)]) [0 ..< k]) = [0 ..< first_node w n k]"
  using assms(2)
proof (induction k)
  case 0
  then show ?case by (simp add: first_node_def)
next
  case (Suc k)
  have "first_node w n k \<le> first_node w n (Suc k)" unfolding first_node_def by (intro div_le_mono mult_le_mono1) simp
  then show ?case using Suc upt_add_eq_append [of 0 "first_node w n k" "first_node w n (Suc k) - first_node w n k"] by simp
qed

lemma worker_ranges_cover:
  assumes "0 < w" "i < n"
  shows "\<exists>k < w. first_node w n k \<le> i \<and> i < first_node w n (k + 1)"
proof -
  have "i \<in> set (concat (map (\<lambda>k. [first_node w n k ..< first_node w n (k + 1)]) [0 ..< w]))"
    using assms worker_ranges_concat [OF assms(1), of w n] by (simp add: first_node_def)
  then show ?thesis by auto
qed

lemma first_node_le: "0 < w \<Longrightarrow> k \<le> w \<Longrightarrow> first_node w n k \<le> n"
  unfolding first_node_def by (metis div_le_mono mult_le_mono1 nonzero_mult_div_cancel_left not_gr_zero)

section \<open>A dispatch in any order\<close>

lemma run_worker_ok:
  assumes fit: "rows_fit ns bf" and w: "0 < w" "k < w"
    and ok: "\<forall>i < length ns. is_ok (node_outcome ns i)"
  shows "\<exists>bf'. run_worker ns a w k (err, bf) = (err, bf') \<and> rows_fit ns bf' \<and>
    (\<forall>j. outcome_row ns a bf j \<or> (first_node w (length ns) k \<le> j \<and> j < first_node w (length ns) (k + 1)) \<longrightarrow>
       outcome_row ns a bf' j)"
proof -
  have "first_node w (length ns) (k + 1) \<le> length ns" using w by (intro first_node_le) auto
  then have "\<forall>i \<in> set [first_node w (length ns) k ..< first_node w (length ns) (k + 1)].
      i < length ns \<and> is_ok (node_outcome ns i)" using ok by auto
  from run_nodes_ok [OF fit this, of a] show ?thesis
    by (auto simp: run_worker_def runNodeRange_def)
qed

lemma workers_ok:
  assumes "rows_fit ns bf" "0 < w" "\<forall>i < length ns. is_ok (node_outcome ns i)" "set ks \<subseteq> {0 ..< w}"
  shows "\<exists>bf'. fold (run_worker ns a w) ks (err, bf) = (err, bf') \<and> rows_fit ns bf' \<and>
    (\<forall>j. outcome_row ns a bf j \<or> (\<exists>k \<in> set ks. first_node w (length ns) k \<le> j \<and> j < first_node w (length ns) (k + 1)) \<longrightarrow>
       outcome_row ns a bf' j)"
  using assms
proof (induction ks arbitrary: bf)
  case (Cons k ks)
  obtain bf1 where bf1: "run_worker ns a w k (err, bf) = (err, bf1)" "rows_fit ns bf1"
    "\<forall>j. outcome_row ns a bf j \<or> (first_node w (length ns) k \<le> j \<and> j < first_node w (length ns) (k + 1)) \<longrightarrow>
       outcome_row ns a bf1 j"
    using run_worker_ok [OF Cons.prems(1,2) _ Cons.prems(3), of k a err] Cons.prems(4) by auto
  obtain bf' where "fold (run_worker ns a w) ks (err, bf1) = (err, bf')" "rows_fit ns bf'"
    "\<forall>j. outcome_row ns a bf1 j \<or> (\<exists>k \<in> set ks. first_node w (length ns) k \<le> j \<and> j < first_node w (length ns) (k + 1)) \<longrightarrow>
       outcome_row ns a bf' j"
    using Cons.IH [OF bf1(2)] Cons.prems by auto
  then show ?case using bf1 by auto
qed simp

lemma dispatch_ok:
  assumes "rows_fit ns bf" "0 < w" "\<forall>i < length ns. is_ok (node_outcome ns i)" "set sched = {0 ..< w}"
  shows "\<exists>bf'. dispatch ns a w sched bf = (Inr (), bf') \<and> rows_fit ns bf' \<and>
    (\<forall>j < length ns. outcome_row ns a bf' j)"
proof -
  obtain bf' where bf': "fold (run_worker ns a w) sched (None, bf) = (None, bf')" "rows_fit ns bf'"
    "\<forall>j. outcome_row ns a bf j \<or> (\<exists>k \<in> set sched. first_node w (length ns) k \<le> j \<and> j < first_node w (length ns) (k + 1)) \<longrightarrow>
       outcome_row ns a bf' j"
    using workers_ok [OF assms(1-3), of sched a None] assms(4) by auto
  have "outcome_row ns a bf' j" if j: "j < length ns" for j
  proof -
    obtain k where "k < w" "first_node w (length ns) k \<le> j \<and> j < first_node w (length ns) (k + 1)"
      using worker_ranges_cover [OF assms(2) j] by blast
    then have "\<exists>k \<in> set sched. first_node w (length ns) k \<le> j \<and> j < first_node w (length ns) (k + 1)"
      using assms(4) by (intro bexI [of _ k]) auto
    then show ?thesis using bf'(3) by blast
  qed
  then show ?thesis using bf' by (simp add: dispatch_def)
qed

lemma run_worker_error: "fst (run_worker ns a w k (Some e, bf)) \<noteq> None"
  by (auto simp: run_worker_def split: prod.splits sum.splits)

lemma workers_error: "fst s \<noteq> None \<Longrightarrow> fst (fold (run_worker ns a w) ks s) \<noteq> None"
proof (induction ks arbitrary: s)
  case (Cons k ks)
  then obtain e bf where "s = (Some e, bf)" by (cases s) auto
  then show ?case using run_worker_error [of ns a w k e bf] Cons.IH by simp
qed simp

lemma workers_fail:
  assumes "k \<in> set ks" "first_node w (length ns) k \<le> i" "i < first_node w (length ns) (k + 1)"
    "\<not> is_ok (node_outcome ns i)"
  shows "fst (fold (run_worker ns a w) ks s) \<noteq> None"
  using assms(1)
proof (induction ks arbitrary: s)
  case (Cons k' ks)
  show ?case
  proof (cases "k' = k")
    case True
    obtain err bf where s: "s = (err, bf)" by fastforce
    have "\<not> is_ok (fst (runNodeRange ns a (first_node w (length ns) k) (first_node w (length ns) (k + 1)) bf))"
      unfolding runNodeRange_def by (rule run_nodes_fail) (use assms in auto)
    then have "fst (run_worker ns a w k s) \<noteq> None"
      by (auto simp: s run_worker_def split: prod.splits sum.splits)
    then show ?thesis using True workers_error by simp
  next
    case False
    then show ?thesis using Cons by simp
  qed
qed simp

lemma dispatch_fail:
  assumes "0 < w" "set sched = {0 ..< w}" "i < length ns" "\<not> is_ok (node_outcome ns i)"
  shows "\<not> is_ok (fst (dispatch ns a w sched bf))"
proof -
  obtain k where "k < w" "first_node w (length ns) k \<le> i" "i < first_node w (length ns) (k + 1)"
    using worker_ranges_cover [OF assms(1,3)] by blast
  then have "fst (fold (run_worker ns a w) sched (None, bf)) \<noteq> None"
    using assms(2,4) by (intro workers_fail [of k]) auto
  then show ?thesis by (auto simp: dispatch_def split: prod.splits option.splits)
qed

text \<open>Both ways of computing all nodes.\<close>

definition compute_all :: "node list \<Rightarrow> f64 \<Rightarrow> nat \<Rightarrow> nat list \<Rightarrow> sim_buffers \<Rightarrow> unit result \<times> sim_buffers" where
  "compute_all ns a w sched bf = (if w = 1 then runNodeRange ns a 0 (length ns) bf else dispatch ns a w sched bf)"

lemma compute_all_ok:
  assumes "rows_fit ns bf" "0 < w" "\<forall>i < length ns. is_ok (node_outcome ns i)" "w \<noteq> 1 \<longrightarrow> set sched = {0 ..< w}"
  shows "\<exists>bf'. compute_all ns a w sched bf = (Inr (), bf') \<and> rows_fit ns bf' \<and>
    (\<forall>j < length ns. outcome_row ns a bf' j)"
proof (cases "w = 1")
  case True
  have "\<forall>i \<in> set [0 ..< length ns]. i < length ns \<and> is_ok (node_outcome ns i)" using assms(3) by auto
  from run_nodes_ok [OF assms(1) this, of a] show ?thesis using True
    by (auto simp: compute_all_def runNodeRange_def)
next
  case False
  then show ?thesis using dispatch_ok [OF assms(1-3), of sched a] assms(4) by (simp add: compute_all_def)
qed

lemma compute_all_fail:
  assumes "0 < w" "w \<noteq> 1 \<longrightarrow> set sched = {0 ..< w}" "i < length ns" "\<not> is_ok (node_outcome ns i)"
  shows "\<not> is_ok (fst (compute_all ns a w sched bf))"
proof (cases "w = 1")
  case True
  have "\<not> is_ok (fst (run_nodes ns a [0 ..< length ns] bf))"
    by (rule run_nodes_fail) (use assms in auto)
  then show ?thesis using True by (simp add: compute_all_def runNodeRange_def)
next
  case False
  then show ?thesis using dispatch_fail [of w sched i ns a bf] assms by (simp add: compute_all_def)
qed

section \<open>Commit\<close>

lemma entry_commit:
  assumes "entry_done bf i k b (updateBridgeState category b)"
  shows "(if out_changed bf ! i ! k
      then b\<lparr>capacity := out_capacities bf ! i ! k, status := out_statuses bf ! i ! k\<rparr> else b) =
    updateBridgeState category b"
proof (cases "\<not> feq (capacity b) (capacity (updateBridgeState category b)) \<or> status b \<noteq> status (updateBridgeState category b)")
  case True
  have e: "x = b\<lparr>capacity := capacity x, status := status x\<rparr>"
    if "targetNodeId x = targetNodeId b" "distance x = distance b" "orientationWeight x = orientationWeight b" for x
    using that by (cases x, cases b) simp
  show ?thesis using assms True e [of "updateBridgeState category b"] by (simp add: entry_done_def)
next
  case False
  have "x = b" if "targetNodeId x = targetNodeId b" "distance x = distance b"
      "orientationWeight x = orientationWeight b" "capacity x = capacity b" "status x = status b" for x
    using that by (cases x, cases b) simp
  then have "updateBridgeState category b = b" using False by (simp add: feq_def)
  then show ?thesis using assms False by (simp add: entry_done_def)
qed

lemma commit_bridges_eq:
  assumes fit: "rows_fit ns bf" and i: "i < length ns" and out: "node_outcome ns i = Inr ps"
    and row: "row_done ns a bf i ps"
  shows "commit_bridges (out_changed bf ! i) (out_capacities bf ! i) (out_statuses bf ! i) (bridges (ns ! i)) =
    map fst ps"
proof (rule nth_equalityI)
  have l2: "list_all2 (\<lambda>b r. next_bridge ns (ns ! i) (state (ns ! i)) b = Inr r) (bridges (ns ! i)) ps"
    using out by (simp add: node_outcome_def map_result_Inr)
  note len = list_all2_lengthD [OF l2]
  show "length (commit_bridges (out_changed bf ! i) (out_capacities bf ! i) (out_statuses bf ! i) (bridges (ns ! i))) =
      length (map fst ps)" using len by (simp add: commit_bridges_def)
  fix k assume "k < length (commit_bridges (out_changed bf ! i) (out_capacities bf ! i) (out_statuses bf ! i) (bridges (ns ! i)))"
  then have k: "k < length (bridges (ns ! i))" by (simp add: commit_bridges_def)
  obtain nb d where r: "ps ! k = (nb, d)" by fastforce
  have "next_bridge ns (ns ! i) (state (ns ! i)) (bridges (ns ! i) ! k) = Inr (nb, d)"
    using list_all2_nthD [OF l2 k] r by simp
  then obtain category where "nb = updateBridgeState category (bridges (ns ! i) ! k)" using next_bridge_Inr(1) by blast
  moreover have "entry_done bf i k (bridges (ns ! i) ! k) nb" using row k r unfolding row_done_def by (metis fst_conv)
  ultimately show "commit_bridges (out_changed bf ! i) (out_capacities bf ! i) (out_statuses bf ! i) (bridges (ns ! i)) ! k =
      map fst ps ! k"
    using entry_commit [of bf i k "bridges (ns ! i) ! k" category] k len r
    by (simp add: commit_bridges_def nth_enumerate_eq)
qed

text \<open>A node of the commit is the node of the reference step.\<close>

lemma reference_outcome:
  assumes ok: "node_wf (length ns) i (ns ! i)"
  shows "map_result (reference_bridge ns (ns ! i)) (bridges (ns ! i)) =
    rbind (node_outcome ns i) (\<lambda>ps. Inr (map (\<lambda>(nb, d). (nb, computeEffectiveCouplingUnchecked nb * d)) ps))"
proof -
  have d: "node_data_ok (ns ! i)" using ok by (simp add: node_wf_def)
  have "\<forall>b \<in> set bs. bridge_ok b \<Longrightarrow> map_result (reference_bridge ns (ns ! i)) bs =
    rbind (map_result (next_bridge ns (ns ! i) (state (ns ! i))) bs)
      (\<lambda>ps. Inr (map (\<lambda>(nb, d). (nb, computeEffectiveCouplingUnchecked nb * d)) ps))" for bs
  proof (induction bs)
    case (Cons b bs)
    then have "bridge_ok b" by simp
    from next_bridge_reference [OF d this, of ns] Cons show ?case
      by (cases "next_bridge ns (ns ! i) (state (ns ! i)) b";
          cases "map_result (next_bridge ns (ns ! i) (state (ns ! i))) bs") auto
  qed simp
  then show ?thesis using ok by (simp add: node_outcome_def node_wf_def bridge_wf_def)
qed

lemma transmitted_fold:
  "fold (\<lambda>(_, t) acc. acc + t) (map (\<lambda>(nb, d). (nb, computeEffectiveCouplingUnchecked nb * d)) ps) acc = transmitted ps acc"
  by (induction ps arbitrary: acc) (auto simp: transmitted_def)

lemma reference_node_eq:
  assumes ok: "node_wf (length ns) i (ns ! i)"
  shows "reference_node ns a (ns ! i) = rbind (node_outcome ns i) (\<lambda>ps.
    let s = state (ns ! i) + a * transmitted ps 0 in
    rbind (requireFinite s ''state'') (\<lambda>_.
    Inr ((updateHealthUnchecked s ((ns ! i)\<lparr>state := s\<rparr>))\<lparr>bridges := map fst ps\<rparr>)))"
proof (cases "node_outcome ns i")
  case (Inl e)
  then show ?thesis by (simp add: reference_node_def reference_outcome [OF ok])
next
  case (Inr ps)
  define s where "s = state (ns ! i) + a * transmitted ps 0"
  have inv: "invariant_ok (invariant (ns ! i))" using ok by (simp add: node_wf_def node_data_ok_def)
  have fst: "map fst (map (\<lambda>(nb, d). (nb, computeEffectiveCouplingUnchecked nb * d)) ps) = map fst ps"
    by (auto simp: case_prod_beta)
  have "reference_node ns a (ns ! i) = rbind (requireFinite s ''state'') (\<lambda>_.
      updateHealth ((ns ! i)\<lparr>state := s, bridges := map fst ps\<rparr>))"
    unfolding reference_node_def reference_outcome [OF ok] Inr rbind_simps Let_def transmitted_fold fst s_def ..
  also have "\<dots> = rbind (requireFinite s ''state'') (\<lambda>_.
    Inr ((updateHealthUnchecked s ((ns ! i)\<lparr>state := s\<rparr>))\<lparr>bridges := map fst ps\<rparr>))"
    using inv by (cases "isfinite s")
      (simp_all add: updateHealth_def updateHealthUnchecked_def Let_def requireFinite_def)
  finally show ?thesis unfolding Inr rbind_simps Let_def s_def .
qed

lemma commit_node_eq:
  assumes "rows_fit ns bf" "i < length ns" "node_outcome ns i = Inr ps" "row_done ns a bf i ps"
  shows "commit_node bf (i, ns ! i) =
    (updateHealthUnchecked (out_states bf ! i) ((ns ! i)\<lparr>state := out_states bf ! i\<rparr>))\<lparr>bridges := map fst ps\<rparr>"
    "out_states bf ! i = state (ns ! i) + a * transmitted ps 0"
  using commit_bridges_eq [OF assms] assms(4)
  by (simp_all add: commit_node_def updateHealthUnchecked_def Let_def row_done_def)

text \<open>Commit after a successful computation, against the reference.\<close>

lemma commit_reference:
  assumes nok: "nodes_ok ns" and fit: "rows_fit ns bf" and rows: "\<forall>j < length ns. outcome_row ns a bf j"
  shows "reference_step ns a = Inr ns' \<longleftrightarrow>
    (\<forall>j < length ns. isfinite (out_states bf ! j)) \<and> ns' = commit_nodes bf ns"
proof -
  have one: "reference_node ns a (ns ! j) = Inr n' \<longleftrightarrow> isfinite (out_states bf ! j) \<and> n' = commit_node bf (j, ns ! j)"
    if j: "j < length ns" for j n'
  proof -
    obtain ps where ps: "node_outcome ns j = Inr ps" "row_done ns a bf j ps"
      using rows j by (auto simp: outcome_row_def)
    have wf: "node_wf (length ns) j (ns ! j)" by (rule nodes_okD(1) [OF nok j])
    show ?thesis unfolding reference_node_eq [OF wf] ps(1) commit_node_eq [OF fit j ps]
      by (auto simp: result_simps Let_def)
  qed
  have "reference_step ns a = Inr ns' \<longleftrightarrow> length ns' = length ns \<and>
      (\<forall>j < length ns. isfinite (out_states bf ! j) \<and> ns' ! j = commit_node bf (j, ns ! j))"
    unfolding reference_step_def map_result_Inr list_all2_conv_all_nth using one by auto
  also have "\<dots> \<longleftrightarrow> (\<forall>j < length ns. isfinite (out_states bf ! j)) \<and> ns' = commit_nodes bf ns"
    by (auto simp: commit_nodes_def list_eq_iff_nth_eq nth_enumerate_eq)
  finally show ?thesis .
qed

lemma reference_fails:
  assumes nok: "nodes_ok ns" and i: "i < length ns" and bad: "\<not> is_ok (node_outcome ns i)"
  shows "\<not> is_ok (reference_step ns a)"
proof -
  have "\<not> is_ok (reference_node ns a (ns ! i))"
    using bad reference_node_eq [OF nodes_okD(1) [OF nok i], of a] by (cases "node_outcome ns i") auto
  then show ?thesis using i by (auto simp: reference_step_def map_result_ok list_all_iff)
qed

section \<open>Validation, pool and buffers\<close>

lemma check_all_iff: "check_all f xs = Inr u \<longleftrightarrow> (\<forall>x \<in> set xs. f x = Inr ())"
  by (induction xs) (auto simp: result_simps)

lemma check_all_ok: "\<forall>x \<in> set xs. f x = Inr () \<Longrightarrow> check_all f xs = Inr ()"
  by (simp add: check_all_iff)

lemma validateTopology_ok:
  assumes ok: "mesh_ok m"
  shows "validateTopologyUnlocked m = Inr ()"
proof -
  have nok: "nodes_ok (nodes m)" using ok by (simp add: mesh_ok_def)
  have small: "length (nodes m) < 2 ^ 31" using nok by (simp add: nodes_ok_def)
  have "check_bridge (length (nodes m)) i b = Inr ()"
    if "i < length (nodes m)" "b \<in> set (bridges (nodes m ! i))" for i b
    using nodes_ok_bridge [OF nok that] small that(1) unit_finite
    by (auto simp: check_bridge_def bridge_wf_def bridge_ok_def)
  moreover have "as_runtime s (rbind (vec3_validate (position (nodes m ! i)))
      (\<lambda>_. invariant_validate (invariant (nodes m ! i)))) = Inr ()" if "i < length (nodes m)" for i s
    using nodes_okD(1) [OF nok that] by (simp add: node_wf_def node_data_ok_def as_runtime_def)
  ultimately have "check_node (length (nodes m)) (i, nodes m ! i) = Inr ()" if "i < length (nodes m)" for i
    using that by (simp add: check_node_def check_all_iff)
  then have nodes: "check_all (check_node (length (nodes m))) (enumerate 0 (nodes m)) = Inr ()"
    by (intro check_all_ok) (auto simp: in_set_enumerate_eq)
  have "check_reverse (map (\<lambda>(i, b). (i, nat (targetNodeId b))) (directed_bridges (nodes m))) (i, b) = Inr ()"
    if b: "i < length (nodes m)" "b \<in> set (bridges (nodes m ! i))" for i b
  proof -
    have "targetNodeId b = int (nat (targetNodeId b))" using nodes_ok_bridge [OF nok b] by (simp add: bridge_wf_def)
    then have "(nat (targetNodeId b), i) \<in> edges (nodes m)" using b edges_sym [OF nok] by (auto simp: edges_iff)
    then obtain c where "nat (targetNodeId b) < length (nodes m)"
      "c \<in> set (bridges (nodes m ! nat (targetNodeId b)))" "targetNodeId c = int i" by (auto simp: edges_iff)
    then have "(nat (targetNodeId b), c) \<in> set (directed_bridges (nodes m))"
      by (simp add: set_directed_bridges)
    then have "(\<lambda>(i, b). (i, nat (targetNodeId b))) (nat (targetNodeId b), c) \<in>
        set (map (\<lambda>(i, b). (i, nat (targetNodeId b))) (directed_bridges (nodes m)))"
      unfolding set_map by (rule imageI)
    then have "(nat (targetNodeId b), i) \<in> set (map (\<lambda>(i, b). (i, nat (targetNodeId b))) (directed_bridges (nodes m)))"
      using \<open>targetNodeId c = int i\<close> by simp
    then show ?thesis by (simp add: check_reverse_def)
  qed
  then have "check_all (check_reverse (map (\<lambda>(i, b). (i, nat (targetNodeId b))) (directed_bridges (nodes m))))
      (directed_bridges (nodes m)) = Inr ()"
    by (intro check_all_ok) (auto simp: set_directed_bridges)
  then show ?thesis using nodes mesh_alpha [OF ok] by (auto simp: validateTopologyUnlocked_def)
qed

lemma validateDynamic_ok:
  assumes ok: "mesh_ok m"
  shows "validateDynamicStateUnlocked m = Inr ()"
proof -
  have "check_dynamic n = Inr ()" if n: "n \<in> set (nodes m)" for n
  proof -
    obtain i where i: "i < length (nodes m)" "nodes m ! i = n" using n by (metis in_set_conv_nth)
    have "nodes_ok (nodes m)" using ok by (simp add: mesh_ok_def)
    from nodes_okD(1) [OF this i(1)] have d: "node_data_ok n" by (simp add: node_wf_def i(2))
    then have "isfinite (state n)" "isfinite (healthIndex n)"
      using unit_finite [of "healthIndex n"] by (simp_all add: node_data_ok_def)
    then show ?thesis by (simp add: check_dynamic_def as_runtime_def)
  qed
  then have "check_all check_dynamic (nodes m) = Inr ()" by (intro check_all_ok) blast
  then show ?thesis using mesh_alpha [OF ok] by (auto simp: validateDynamicStateUnlocked_def)
qed

lemma validate_ok:
  "mesh_ok m \<Longrightarrow> validateTopologyAndStateUnlocked m = (Inr (), m\<lparr>topologyValidationRequired := False\<rparr>)"
  using validateTopology_ok validateDynamic_ok [OF flags_ok(1), of m False]
  by (simp add: validateTopologyAndStateUnlocked_def)

lemma start_workers_frame: "\<exists>w. snd (start_workers P ks m) = m\<lparr>workerCount := w\<rparr>"
proof (induction ks arbitrary: m)
  case Nil
  show ?case by (rule exI [of _ "workerCount m"]) simp
next
  case (Cons k ks)
  show ?case
  proof (cases "thread_failure P k")
    case None
    then show ?thesis using Cons.IH [of "m\<lparr>workerCount := workerCount m + 1\<rparr>"] by auto
  next
    case (Some e)
    then show ?thesis by (intro exI [of _ "workerCount m"]) simp
  qed
qed

lemma start_workers_ok:
  "\<forall>k. thread_failure P k = None \<Longrightarrow>
     start_workers P ks m = (Inr (), m\<lparr>workerCount := workerCount m + length ks\<rparr>)"
  by (induction ks arbitrary: m) simp_all

lemma resolveWorkerCount_pos: "nodes m \<noteq> [] \<Longrightarrow> 0 < resolveWorkerCountUnlocked P m"
  by (simp add: resolveWorkerCountUnlocked_def Let_def less_max_iff_disj)

lemma length_resize [simp]: "length (resize d n xs) = n"
  by (simp add: resize_def)

definition resize_rows :: "'a \<Rightarrow> (nat \<times> node) list \<Rightarrow> 'a list list \<Rightarrow> 'a list list" where
  "resize_rows d xs = fold (\<lambda>(i, nd). resize_row d i (length (bridges nd))) xs"

lemma resize_rows_lengths:
  assumes "s + length ns \<le> length xss"
  shows "length (resize_rows d (enumerate s ns) xss) = length xss \<and>
    (\<forall>j < length ns. length (resize_rows d (enumerate s ns) xss ! (s + j)) = length (bridges (ns ! j))) \<and>
    (\<forall>j < s. resize_rows d (enumerate s ns) xss ! j = xss ! j)"
  using assms
proof (induction ns arbitrary: s xss)
  case (Cons n ns)
  define yss where "yss = resize_row d s (length (bridges n)) xss"
  have y: "length yss = length xss" "length (yss ! s) = length (bridges n)" "\<forall>j < s. yss ! j = xss ! j"
    using Cons.prems by (simp_all add: yss_def resize_row_def)
  have "Suc s + length ns \<le> length yss" using Cons.prems y(1) by simp
  note ih = Cons.IH [OF this]
  have step: "resize_rows d (enumerate s (n # ns)) xss = resize_rows d (enumerate (Suc s) ns) yss"
    by (simp add: resize_rows_def yss_def)
  have "length (resize_rows d (enumerate (Suc s) ns) yss ! (s + j)) = length (bridges ((n # ns) ! j))"
    if "j < length (n # ns)" for j
  proof (cases j)
    case 0
    then show ?thesis using ih y(2) by simp
  next
    case (Suc j')
    then show ?thesis using ih that by simp
  qed
  then show ?case using ih y unfolding step by simp
qed (simp add: resize_rows_def)

lemma resize_rows_fit:
  "length xss = length ns \<Longrightarrow>
     map length (resize_rows d (enumerate 0 ns) xss) = map (\<lambda>n. length (bridges n)) ns"
  using resize_rows_lengths [of 0 ns xss d] by (simp add: list_eq_iff_nth_eq)

lemma fold_row_resizings:
  "pendingBridgeCapacities (fold (\<lambda>f. f) (concat (map row_resizings xs)) m) =
     resize_rows 0 xs (pendingBridgeCapacities m)"
  "pendingBridgeStatuses (fold (\<lambda>f. f) (concat (map row_resizings xs)) m) =
     resize_rows NORMAL xs (pendingBridgeStatuses m)"
  "pendingBridgeChanged (fold (\<lambda>f. f) (concat (map row_resizings xs)) m) =
     resize_rows False xs (pendingBridgeChanged m)"
  "computedStates (fold (\<lambda>f. f) (concat (map row_resizings xs)) m) = computedStates m"
  by (induction xs arbitrary: m) (auto simp: row_resizings_def resize_rows_def Let_def)

lemma fold_resizings_fit:
  "rows_fit ns (buffers_of (fold (\<lambda>f. f) (buffer_resizings ns) m))"
  by (simp add: buffer_resizings_def Let_def rows_fit_def buffers_of_def fold_row_resizings resize_rows_fit)

lemma run_resizings_ok:
  "\<forall>k. buffer_room P k \<Longrightarrow> run_resizings P k fs m = (Inr (), fold (\<lambda>f. f) fs m)"
  by (induction fs arbitrary: k m) simp_all

lemma resizing_frame: "f \<in> set (buffer_resizings ns) \<Longrightarrow> \<exists>bf. f m = store_buffers bf m"
proof -
  have "\<exists>bf. x = store_buffers bf m"
    if "x = store_buffers (buffers_of x) m" for x :: mesh using that by blast
  moreover assume "f \<in> set (buffer_resizings ns)"
  then have "f m = store_buffers (buffers_of (f m)) m"
    by (auto simp: buffer_resizings_def row_resizings_def Let_def store_buffers_def buffers_of_def)
  ultimately show ?thesis by blast
qed

lemma store_buffers_twice [simp]: "store_buffers bf (store_buffers bf' m) = store_buffers bf m"
  by (simp add: store_buffers_def)

lemma run_resizings_frame:
  "set fs \<subseteq> set (buffer_resizings ns) \<Longrightarrow> \<exists>bf. snd (run_resizings P k fs m) = store_buffers bf m"
proof (induction fs arbitrary: k m)
  case Nil
  show ?case by (rule exI [of _ "buffers_of m"]) (simp add: store_buffers_def buffers_of_def)
next
  case (Cons f fs)
  show ?case
  proof (cases "buffer_room P k")
    case True
    obtain bf where "f m = store_buffers bf m" using resizing_frame Cons.prems by fastforce
    then show ?thesis using True Cons.IH [of "Suc k" "f m"] Cons.prems by auto
  next
    case False
    then show ?thesis by (intro exI [of _ "buffers_of m"]) (simp add: store_buffers_def buffers_of_def)
  qed
qed

section \<open>The whole step\<close>

definition step_resources :: "platform \<Rightarrow> bool" where
  "step_resources P \<longleftrightarrow> (\<forall>k. thread_failure P k = None \<and> buffer_room P k)"

text \<open>The workers that take part in a step, and an order in which all of them report.\<close>

definition pool_size :: "platform \<Rightarrow> mesh \<Rightarrow> nat" where
  "pool_size P m = max (workerCount m) (resolveWorkerCountUnlocked P m)"

definition schedule :: "nat \<Rightarrow> nat list \<Rightarrow> bool" where
  "schedule w ks \<longleftrightarrow> distinct ks \<and> set ks = {0 ..< w}"

text \<open>What a step may change besides the nodes.\<close>

definition step_frame :: "mesh \<Rightarrow> mesh \<Rightarrow> bool" where
  "step_frame m m' \<longleftrightarrow> (\<exists>bf w d t. m' = (store_buffers bf m)\<lparr>workerCount := w,
     simulationBufferShapeDirty := d, topologyValidationRequired := t\<rparr> \<and>
     (\<not> d \<longrightarrow> \<not> simulationBufferShapeDirty m \<and> map length (pendingBridgeCapacities m') = map length (pendingBridgeCapacities m) \<or> rows_fit (nodes m) bf))"

lemma buffers_store [simp]: "buffers_of (store_buffers bf m) = bf"
  by (simp add: buffers_of_def store_buffers_def)

lemma store_simps [simp]:
  "nodes (store_buffers bf m) = nodes m" "alpha (store_buffers bf m) = alpha m"
  "workerCount (store_buffers bf m) = workerCount m" "computedStates (store_buffers bf m) = out_states bf"
  "simulationBufferShapeDirty (store_buffers bf m) = simulationBufferShapeDirty m"
  by (simp_all add: store_buffers_def)

lemma rows_fit_match: "rows_fit (nodes m) (buffers_of m) = buffers_match m"
  by (simp add: rows_fit_def buffers_match_def buffers_of_def)

lemma prepareBuffers_ok:
  assumes "\<not> simulationBufferShapeDirty m \<longrightarrow> buffers_match m" "\<forall>k. buffer_room P k"
  shows "\<exists>bf. prepareBuffers P m = (Inr (), (store_buffers bf m)\<lparr>simulationBufferShapeDirty := False\<rparr>) \<and>
    rows_fit (nodes m) bf"
proof (cases "simulationBufferShapeDirty m")
  case True
  define m1 where "m1 = fold (\<lambda>f. f) (buffer_resizings (nodes m)) m"
  have run: "run_resizings P 0 (buffer_resizings (nodes m)) m = (Inr (), m1)"
    unfolding m1_def by (rule run_resizings_ok [OF assms(2)])
  obtain bf where "snd (run_resizings P 0 (buffer_resizings (nodes m)) m) = store_buffers bf m"
    using run_resizings_frame [of "buffer_resizings (nodes m)" "nodes m"] by blast
  then have bf: "m1 = store_buffers bf m" by (simp add: run)
  have "rows_fit (nodes m) (buffers_of m1)" unfolding m1_def by (rule fold_resizings_fit)
  then show ?thesis using True run bf by (auto simp: prepareBuffers_def)
next
  case False
  then have "prepareBuffers P m = (Inr (), (store_buffers (buffers_of m) m)\<lparr>simulationBufferShapeDirty := False\<rparr>)"
    by (simp add: prepareBuffers_def store_buffers_def buffers_of_def)
  then show ?thesis using False assms(1) by (auto simp: rows_fit_match)
qed

definition ready_mesh :: "platform \<Rightarrow> sim_buffers \<Rightarrow> mesh \<Rightarrow> mesh" where
  "ready_mesh P bf m = (store_buffers bf m)\<lparr>workerCount := pool_size P m,
     simulationBufferShapeDirty := False, topologyValidationRequired := False\<rparr>"

text \<open>What is left of a step once the pool and the buffers \<open>bf0\<close> are ready.\<close>

definition computed_step :: "platform \<Rightarrow> nat list \<Rightarrow> mesh \<Rightarrow> sim_buffers \<Rightarrow> unit result \<times> mesh" where
  "computed_step P sched m bf0 =
    (if nodes m = [] then (Inr (), ready_mesh P bf0 m)
     else (case compute_all (nodes m) (alpha m) (pool_size P m) sched bf0 of
       (Inl e, bf) \<Rightarrow> (Inl e, ready_mesh P bf m)
     | (Inr _, bf) \<Rightarrow>
         (case check_all (\<lambda>i. guard_that (isfinite (out_states bf ! i))
            (Runtime_error ''simulation produced a non-finite state'')) [0 ..< length (nodes m)] of
           Inl e \<Rightarrow> (Inl e, ready_mesh P bf m)
         | Inr _ \<Rightarrow> (Inr (), (ready_mesh P bf m)\<lparr>nodes := commit_nodes bf (nodes m)\<rparr>))))"

lemma simulationStep_computed:
  assumes ok: "mesh_ok m"
    and w: "ensureWorkerPoolUnlocked P (m\<lparr>topologyValidationRequired := False\<rparr>) =
      (Inr (), m\<lparr>topologyValidationRequired := False, workerCount := pool_size P m\<rparr>)"
    and b: "prepareBuffers P (m\<lparr>topologyValidationRequired := False, workerCount := pool_size P m\<rparr>) =
      (Inr (), (store_buffers bf0 (m\<lparr>topologyValidationRequired := False, workerCount := pool_size P m\<rparr>))
        \<lparr>simulationBufferShapeDirty := False\<rparr>)"
    and fit: "rows_fit (nodes m) bf0"
  shows "simulationStep P sched m = computed_step P sched m bf0"
proof -
  have ready: "(store_buffers bf (m\<lparr>topologyValidationRequired := False, workerCount := pool_size P m\<rparr>))
      \<lparr>simulationBufferShapeDirty := False\<rparr> = ready_mesh P bf m" for bf
    by (simp add: ready_mesh_def store_buffers_def)
  have again: "store_buffers bf (ready_mesh P bf0 m) = ready_mesh P bf m" for bf
    by (simp add: ready_mesh_def store_buffers_def)
  have empty: "out_states bf0 = [] \<longleftrightarrow> nodes m = []" using fit by (auto simp: rows_fit_def)
  have rm: "computedStates (ready_mesh P bf0 m) = out_states bf0" "nodes (ready_mesh P bf0 m) = nodes m"
    "alpha (ready_mesh P bf0 m) = alpha m" "workerCount (ready_mesh P bf0 m) = pool_size P m"
    "buffers_of (ready_mesh P bf0 m) = bf0"
    by (simp_all add: ready_mesh_def buffers_of_def store_buffers_def)
  show ?thesis
    by (simp add: simulationStep_def validate_ok [OF ok] w b ready rm empty again compute_all_def
        computed_step_def cong: sum.case_cong prod.case_cong)
qed

lemma start_workers_Inr:
  "start_workers P ks m = (Inr u, m') \<Longrightarrow> m' = m\<lparr>workerCount := workerCount m + length ks\<rparr>"
proof (induction ks arbitrary: m)
  case (Cons k ks)
  then show ?case using Cons.IH [of "m\<lparr>workerCount := workerCount m + 1\<rparr>"]
    by (simp split: option.splits)
qed simp

lemma ensureWorkerPool_Inr:
  "ensureWorkerPoolUnlocked P m = (Inr u, m') \<Longrightarrow> m' = m\<lparr>workerCount := pool_size P m\<rparr>"
  unfolding ensureWorkerPoolUnlocked_def pool_size_def by (drule start_workers_Inr) (simp add: max_def)

lemma pool_size_flags [simp]: "pool_size P (m\<lparr>topologyValidationRequired := v\<rparr>) = pool_size P m"
  by (simp add: pool_size_def resolveWorkerCountUnlocked_def)

lemma run_resizings_Inr: "run_resizings P k fs m = (Inr u, m') \<Longrightarrow> m' = fold (\<lambda>f. f) fs m"
  by (induction fs arbitrary: k m) (auto split: if_splits)

lemma prepareBuffers_Inr:
  assumes "prepareBuffers P m = (Inr u, m')" "\<not> simulationBufferShapeDirty m \<longrightarrow> buffers_match m"
  shows "\<exists>bf. m' = (store_buffers bf m)\<lparr>simulationBufferShapeDirty := False\<rparr> \<and> rows_fit (nodes m) bf"
proof (cases "simulationBufferShapeDirty m")
  case True
  define m1 where "m1 = fold (\<lambda>f. f) (buffer_resizings (nodes m)) m"
  obtain m2 where m2: "run_resizings P 0 (buffer_resizings (nodes m)) m = (Inr (), m2)"
    "m' = m2\<lparr>simulationBufferShapeDirty := False\<rparr>"
    using assms(1) True by (auto simp: prepareBuffers_def split: prod.splits sum.splits)
  have "m2 = m1" unfolding m1_def by (rule run_resizings_Inr [OF m2(1)])
  obtain bf where "snd (run_resizings P 0 (buffer_resizings (nodes m)) m) = store_buffers bf m"
    using run_resizings_frame [of "buffer_resizings (nodes m)" "nodes m"] by blast
  then have bf: "m1 = store_buffers bf m" using m2(1) \<open>m2 = m1\<close> by simp
  have "rows_fit (nodes m) (buffers_of m1)" unfolding m1_def by (rule fold_resizings_fit)
  then show ?thesis using m2(2) \<open>m2 = m1\<close> bf by auto
next
  case False
  then have "m' = (store_buffers (buffers_of m) m)\<lparr>simulationBufferShapeDirty := False\<rparr>"
    using assms(1) by (simp add: prepareBuffers_def store_buffers_def buffers_of_def)
  then show ?thesis using False assms(2) by (auto simp: rows_fit_match)
qed

lemma prepareBuffers_Inl:
  assumes "prepareBuffers P m = (Inl e, m')"
  shows "\<exists>bf. m' = store_buffers bf m \<and> simulationBufferShapeDirty m"
proof -
  have d: "simulationBufferShapeDirty m" and r: "run_resizings P 0 (buffer_resizings (nodes m)) m = (Inl e, m')"
    using assms by (auto simp: prepareBuffers_def split: prod.splits sum.splits if_splits)
  obtain bf where "snd (run_resizings P 0 (buffer_resizings (nodes m)) m) = store_buffers bf m"
    using run_resizings_frame [of "buffer_resizings (nodes m)" "nodes m"] by blast
  then show ?thesis using d r by auto
qed

text \<open>A step on a well-formed mesh either fails for want of resources or is computed.\<close>

lemma simulationStep_cases:
  assumes ok: "mesh_ok m"
  obtains (starved) e bf w where "simulationStep P sched m =
      (Inl e, (store_buffers bf m)\<lparr>workerCount := w, topologyValidationRequired := False\<rparr>)"
      "simulationBufferShapeDirty m \<or> bf = buffers_of m" "\<not> step_resources P"
  | (computed) bf0 where "rows_fit (nodes m) bf0" "simulationStep P sched m = computed_step P sched m bf0"
proof -
  define m1 where "m1 = m\<lparr>topologyValidationRequired := False\<rparr>"
  define m2 where "m2 = m1\<lparr>workerCount := pool_size P m\<rparr>"
  have v: "validateTopologyAndStateUnlocked m = (Inr (), m1)" using validate_ok [OF ok] by (simp add: m1_def)
  have same: "m1 = store_buffers (buffers_of m) m1" by (simp add: m1_def store_buffers_def buffers_of_def)
  obtain r m' where e: "ensureWorkerPoolUnlocked P m1 = (r, m')" by fastforce
  show thesis
  proof (cases r)
    case (Inl x)
    obtain w where "m' = m1\<lparr>workerCount := w\<rparr>"
      using start_workers_frame [of P "[workerCount m1 ..< resolveWorkerCountUnlocked P m1]" m1] e
      by (auto simp: ensureWorkerPoolUnlocked_def)
    moreover have "\<not> step_resources P"
    proof
      assume "step_resources P"
      then have "\<forall>k. thread_failure P k = None" by (simp add: step_resources_def)
      from start_workers_ok [OF this] e Inl show False by (simp add: ensureWorkerPoolUnlocked_def)
    qed
    ultimately show thesis using v e Inl
      by (intro starved [where e = x and bf = "buffers_of m" and w = w])
        (simp_all add: simulationStep_def m1_def store_buffers_def buffers_of_def)
  next
    case (Inr u)
    have m': "m' = m2" using ensureWorkerPool_Inr [of P m1 u m'] e Inr by (simp add: m2_def m1_def)
    have match: "\<not> simulationBufferShapeDirty m2 \<longrightarrow> buffers_match m2"
      using ok by (simp add: m1_def m2_def mesh_ok_def buffers_match_def)
    obtain q m3 where p: "prepareBuffers P m2 = (q, m3)" by fastforce
    show thesis
    proof (cases q)
      case (Inl x)
      obtain bf where bf: "m3 = store_buffers bf m2" "simulationBufferShapeDirty m2"
        using prepareBuffers_Inl p Inl by blast
      have "\<not> step_resources P"
      proof
        assume "step_resources P"
        then have "\<forall>k. buffer_room P k" by (simp add: step_resources_def)
        from prepareBuffers_ok [OF match this] p Inl show False by auto
      qed
      then show thesis using v e Inr m' p Inl bf
        by (intro starved [where e = x and bf = bf and w = "pool_size P m"])
          (simp_all add: simulationStep_def m1_def m2_def store_buffers_def)
    next
      case q: (Inr u')
      obtain bf0 where bf0: "m3 = (store_buffers bf0 m2)\<lparr>simulationBufferShapeDirty := False\<rparr>"
        "rows_fit (nodes m2) bf0" using prepareBuffers_Inr [OF _ match] p q by blast
      have "simulationStep P sched m = computed_step P sched m bf0"
        using e Inr m' p q bf0 by (intro simulationStep_computed [OF ok]) (simp_all add: m1_def m2_def)
      then show thesis using bf0(2) by (intro computed) (simp_all add: m1_def m2_def)
    qed
  qed
qed

lemma simulationStep_run:
  assumes ok: "mesh_ok m" and res: "step_resources P"
  shows "\<exists>bf0. rows_fit (nodes m) bf0 \<and> simulationStep P sched m = computed_step P sched m bf0"
  by (rule simulationStep_cases [OF ok, of P sched]) (use res in auto)

lemma pool_size_pos: "nodes m \<noteq> [] \<Longrightarrow> 0 < pool_size P m"
  using resolveWorkerCount_pos [of m P] by (simp add: pool_size_def less_max_iff_disj)

lemma step_is_reference:
  assumes ok: "mesh_ok m" and res: "step_resources P" and sched: "schedule (pool_size P m) sched"
  shows "case reference_step (nodes m) (alpha m) of
      Inr ns \<Rightarrow> fst (simulationStep P sched m) = Inr () \<and> nodes (snd (simulationStep P sched m)) = ns
    | Inl _ \<Rightarrow> \<not> is_ok (fst (simulationStep P sched m)) \<and> nodes (snd (simulationStep P sched m)) = nodes m"
proof -
  obtain bf0 where fit: "rows_fit (nodes m) bf0" and "simulationStep P sched m = computed_step P sched m bf0"
    using simulationStep_run [OF ok res] by blast
  note run = this(2) [unfolded computed_step_def]
  have nok: "nodes_ok (nodes m)" using ok by (simp add: mesh_ok_def)
  have rm: "nodes (ready_mesh P bf m) = nodes m" for bf by (simp add: ready_mesh_def)
  have s: "set sched = {0 ..< pool_size P m}" using sched by (simp add: schedule_def)
  show ?thesis
  proof (cases "nodes m = []")
    case True
    then show ?thesis using run rm by (simp add: reference_step_def)
  next
    case False
    note w = pool_size_pos [OF False, of P]
    show ?thesis
    proof (cases "\<forall>i < length (nodes m). is_ok (node_outcome (nodes m) i)")
      case True
      obtain bf where bf: "compute_all (nodes m) (alpha m) (pool_size P m) sched bf0 = (Inr (), bf)"
        "rows_fit (nodes m) bf" "\<forall>j < length (nodes m). outcome_row (nodes m) (alpha m) bf j"
        using compute_all_ok [OF fit w True, of sched "alpha m"] s by blast
      note ref = commit_reference [OF nok bf(2,3)]
      have chk: "check_all (\<lambda>i. guard_that (isfinite (out_states bf ! i))
            (Runtime_error ''simulation produced a non-finite state'')) [0 ..< length (nodes m)] = Inr () \<longleftrightarrow>
          (\<forall>j < length (nodes m). isfinite (out_states bf ! j))"
        by (auto simp: check_all_iff result_simps)
      show ?thesis
      proof (cases "\<forall>j < length (nodes m). isfinite (out_states bf ! j)")
        case True
        then have "reference_step (nodes m) (alpha m) = Inr (commit_nodes bf (nodes m))" by (simp add: ref)
        then show ?thesis using True chk run False by (simp add: bf(1))
      next
        case False
        then have "reference_step (nodes m) (alpha m) \<noteq> Inr ns'" for ns' by (simp add: ref)
        then show ?thesis using False chk run \<open>nodes m \<noteq> []\<close>
          by (auto simp: bf(1) rm split: sum.split)
      qed
    next
      case F: False
      then obtain i where i: "i < length (nodes m)" "\<not> is_ok (node_outcome (nodes m) i)" by blast
      have "\<not> is_ok (fst (compute_all (nodes m) (alpha m) (pool_size P m) sched bf0))"
        using s by (intro compute_all_fail [OF w _ i]) simp
      moreover have "\<not> is_ok (reference_step (nodes m) (alpha m))" by (rule reference_fails [OF nok i])
      ultimately show ?thesis using run False
        by (auto simp: rm is_ok_iff split: sum.split prod.split)
    qed
  qed
qed

section \<open>The invariant and failures\<close>

lemma run_nodes_fit: "rows_fit ns bf \<Longrightarrow> rows_fit ns (snd (run_nodes ns a is bf))"
proof (induction "is" arbitrary: bf)
  case (Cons i "is")
  show ?case using Cons.IH run_node_frame(1) [OF Cons.prems, of a i]
    by (cases "run_node ns a i bf") (auto split: sum.split)
qed simp

lemma run_worker_fit:
  assumes "rows_fit ns (snd s)"
  shows "rows_fit ns (snd (run_worker ns a w k s))"
proof -
  define r where "r = run_nodes ns a [first_node w (length ns) k ..< first_node w (length ns) (k + 1)] (snd s)"
  have "rows_fit ns (snd r)" unfolding r_def by (rule run_nodes_fit [OF assms])
  moreover have "snd (run_worker ns a w k s) = snd r"
    by (simp add: run_worker_def runNodeRange_def r_def split: prod.split sum.split)
  ultimately show ?thesis by simp
qed

lemma compute_all_fit:
  assumes "rows_fit ns bf"
  shows "rows_fit ns (snd (compute_all ns a w sched bf))"
proof -
  have "rows_fit ns (snd s) \<Longrightarrow> rows_fit ns (snd (fold (run_worker ns a w) sched s))" for s
    by (induction sched arbitrary: s) (simp_all add: run_worker_fit)
  from this [of "(None, bf)"] show ?thesis using assms run_nodes_fit [OF assms, of a]
    by (auto simp: compute_all_def dispatch_def runNodeRange_def split: prod.splits option.splits)
qed

lemma ready_mesh_ok: "mesh_ok m \<Longrightarrow> rows_fit (nodes m) bf \<Longrightarrow> mesh_ok (ready_mesh P bf m)"
  by (simp add: mesh_ok_def ready_mesh_def lifecycle_ok_def buffers_match_def rows_fit_def store_buffers_def)

lemma starved_ok:
  "mesh_ok m \<Longrightarrow> simulationBufferShapeDirty m \<or> bf = buffers_of m \<Longrightarrow>
     mesh_ok ((store_buffers bf m)\<lparr>workerCount := w, topologyValidationRequired := False\<rparr>)"
  by (auto simp: mesh_ok_def lifecycle_ok_def buffers_match_def store_buffers_def buffers_of_def)

text \<open>A node of the reference step has the shape of its predecessor.\<close>

lemma reference_same_shape:
  assumes ok: "node_wf (length ns) i (ns ! i)" and a: "wf64 a" and ref: "reference_node ns a (ns ! i) = Inr n'"
  shows "same_shape (ns ! i) n'"
proof -
  obtain ps where ps: "node_outcome ns i = Inr ps"
    using ref reference_node_eq [OF ok, of a] by (cases "node_outcome ns i") auto
  define s where "s = state (ns ! i) + a * transmitted ps 0"
  have s: "isfinite s" and n': "n' = (updateHealthUnchecked s ((ns ! i)\<lparr>state := s\<rparr>))\<lparr>bridges := map fst ps\<rparr>"
    using ref reference_node_eq [OF ok, of a] by (auto simp: ps s_def Let_def result_simps)
  have d: "node_data_ok (ns ! i)" using ok by (simp add: node_wf_def)
  have l2: "list_all2 (\<lambda>b r. next_bridge ns (ns ! i) (state (ns ! i)) b = Inr r) (bridges (ns ! i)) ps"
    using ps by (simp add: node_outcome_def map_result_Inr)
  have "targetNodeId (fst r) = targetNodeId b \<and> (bridge_ok b \<longrightarrow> bridge_ok (fst r) \<and> status_coherent (fst r))"
    if "next_bridge ns (ns ! i) (state (ns ! i)) b = Inr r" for b r
  proof -
    have "next_bridge ns (ns ! i) (state (ns ! i)) b = Inr (fst r, snd r)" using that by simp
    then obtain category where "fst r = updateBridgeState category b" using next_bridge_Inr(1) by blast
    then show ?thesis using updateBridgeState_bridge_ok updateBridgeState_status_coherent
      by (auto simp: bridge_ok_def)
  qed
  then have l2': "list_all2 (\<lambda>b r. targetNodeId (fst r) = targetNodeId b \<and>
      (bridge_ok b \<longrightarrow> bridge_ok (fst r) \<and> status_coherent (fst r))) (bridges (ns ! i)) ps"
    using l2 by (auto elim: list_all2_mono)
  have "map targetNodeId (map fst ps) = map targetNodeId (bridges (ns ! i))"
    using l2' by (induction rule: list_all2_induct) auto
  moreover have "\<forall>b \<in> set (map fst ps). bridge_ok b \<and> status_coherent b"
  proof -
    have "\<forall>b \<in> set (bridges (ns ! i)). bridge_ok b" using ok by (simp add: node_wf_def bridge_wf_def)
    with l2' show ?thesis by (induction rule: list_all2_induct) auto
  qed
  moreover have "wf64 s" using d by (simp add: s_def node_data_ok_def)
  ultimately show ?thesis
    using d s health_value_unit [of s "baseline (invariant (ns ! i))" "maxEpsilon (invariant (ns ! i))"]
    by (auto simp: same_shape_def n' targets_of_def node_data_ok_def updateHealthUnchecked_def Let_def invariant_ok_def)
qed

lemma alpha_wf: "mesh_ok m \<Longrightarrow> wf64 (alpha m)"
  by (auto simp: mesh_ok_def stability_alpha_def Let_def std_min_def)

lemma simulation_keeps_ok:
  assumes ok: "mesh_ok m" and sched: "schedule (pool_size P m) sched"
  shows "mesh_ok (snd (simulationStep P sched m))"
proof (rule simulationStep_cases [OF ok, of P sched])
  fix e bf w
  assume "simulationStep P sched m = (Inl e, (store_buffers bf m)\<lparr>workerCount := w, topologyValidationRequired := False\<rparr>)"
    "simulationBufferShapeDirty m \<or> bf = buffers_of m"
  then show ?thesis using starved_ok [OF ok] by simp
next
  fix bf0 assume fit: "rows_fit (nodes m) bf0" and run: "simulationStep P sched m = computed_step P sched m bf0"
  have nok: "nodes_ok (nodes m)" using ok by (simp add: mesh_ok_def)
  obtain r bf where c: "compute_all (nodes m) (alpha m) (pool_size P m) sched bf0 = (r, bf)" by fastforce
  have fit': "rows_fit (nodes m) bf" using compute_all_fit [OF fit] c by (metis snd_conv)
  define chk where "chk = check_all (\<lambda>i. guard_that (isfinite (out_states bf ! i))
            (Runtime_error ''simulation produced a non-finite state'')) [0 ..< length (nodes m)]"
  show ?thesis
  proof (cases "nodes m \<noteq> [] \<and> is_ok r \<and> is_ok chk")
    case True
    then have out: "\<forall>i < length (nodes m). is_ok (node_outcome (nodes m) i)"
      using compute_all_fail [OF pool_size_pos, of m P sched] sched c
      by (metis fst_conv schedule_def)
    have w: "0 < pool_size P m" using True pool_size_pos by blast
    obtain bf' where "compute_all (nodes m) (alpha m) (pool_size P m) sched bf0 = (Inr (), bf')"
      "\<forall>j < length (nodes m). outcome_row (nodes m) (alpha m) bf' j"
      using compute_all_ok [OF fit w out, of sched "alpha m"] sched by (auto simp: schedule_def)
    then have rows: "\<forall>j < length (nodes m). outcome_row (nodes m) (alpha m) bf j" using c by simp
    have "\<forall>j < length (nodes m). isfinite (out_states bf ! j)"
      using True by (auto simp: chk_def is_ok_iff check_all_iff result_simps)
    then have "reference_step (nodes m) (alpha m) = Inr (commit_nodes bf (nodes m))"
      using commit_reference [OF nok fit' rows] by simp
    then have "list_all2 (\<lambda>n n'. reference_node (nodes m) (alpha m) n = Inr n') (nodes m) (commit_nodes bf (nodes m))"
      by (simp add: reference_step_def map_result_Inr)
    then have "list_all2 same_shape (nodes m) (commit_nodes bf (nodes m))"
      using reference_same_shape [OF nodes_okD(1) [OF nok] alpha_wf [OF ok]] by (auto simp: list_all2_conv_all_nth)
    then have "mesh_ok ((ready_mesh P bf m)\<lparr>nodes := commit_nodes bf (nodes m)\<rparr>)"
      by (intro mesh_ok_shape ready_mesh_ok ok fit') (simp add: ready_mesh_def)
    moreover have "snd (simulationStep P sched m) = (ready_mesh P bf m)\<lparr>nodes := commit_nodes bf (nodes m)\<rparr>"
      using True c by (auto simp: run computed_step_def chk_def [symmetric] is_ok_iff)
    ultimately show ?thesis by simp
  next
    case False
    then have "snd (simulationStep P sched m) \<in> {ready_mesh P bf0 m, ready_mesh P bf m}"
      using c by (auto simp: run computed_step_def chk_def [symmetric] is_ok_def split: sum.splits)
    then show ?thesis using ready_mesh_ok [OF ok] fit fit' by auto
  qed
qed

section \<open>Claims\<close>

text \<open>The step on two connected nodes, with four hardware threads and a limit of two workers.\<close>

lemma roomy_step: "step_resources roomy_platform"
  by (simp add: roomy_platform_def step_resources_def)

lemma pool_connected: "\<exists>ks. schedule (pool_size P m) ks"
  by (intro exI [of _ "rev [0 ..< pool_size P m]"]) (auto simp: schedule_def)

text \<open> C2. A simulation step is the synchronous reference step: for every worker limit, every number of
  hardware threads and every order in which the workers report, the unchecked, buffered and
  parallel computation succeeds exactly when the reference does and then leaves exactly its nodes,
  bit for bit; when the reference fails the step throws and the nodes are those before it.
\<close>

theorem step_equals_reference:
  assumes ok: "mesh_ok m" and res: "step_resources P" and sched: "schedule (pool_size P m) sched"
  shows "case reference_step (nodes m) (alpha m) of
      Inr ns \<Rightarrow> fst (simulationStep P sched m) = Inr () \<and> nodes (snd (simulationStep P sched m)) = ns
    | Inl _ \<Rightarrow> \<not> is_ok (fst (simulationStep P sched m)) \<and> nodes (snd (simulationStep P sched m)) = nodes m"
  using assms by (rule step_is_reference)

theorem step_equals_reference_witness:
  "case reference_step (nodes connected_mesh) (alpha connected_mesh) of
      Inr ns \<Rightarrow> nodes (snd (simulationStep roomy_platform (rev [0 ..< pool_size roomy_platform connected_mesh]) connected_mesh)) = ns
    | Inl _ \<Rightarrow> \<not> is_ok (fst (simulationStep roomy_platform (rev [0 ..< pool_size roomy_platform connected_mesh]) connected_mesh))"
proof -
  have "schedule (pool_size roomy_platform connected_mesh) (rev [0 ..< pool_size roomy_platform connected_mesh])"
    by (auto simp: schedule_def)
  from step_equals_reference [OF connected_mesh_ok roomy_step this] show ?thesis
    by (auto split: sum.splits)
qed

lemma store_own [simp]: "store_buffers (buffers_of m) m = m"
  by (simp add: store_buffers_def buffers_of_def)

lemma store_updates [simp]:
  "store_buffers bf (m\<lparr>workerCount := w\<rparr>) = (store_buffers bf m)\<lparr>workerCount := w\<rparr>"
  "store_buffers bf (m\<lparr>simulationBufferShapeDirty := d\<rparr>) = (store_buffers bf m)\<lparr>simulationBufferShapeDirty := d\<rparr>"
  "store_buffers bf (m\<lparr>topologyValidationRequired := t\<rparr>) = (store_buffers bf m)\<lparr>topologyValidationRequired := t\<rparr>"
  by (simp_all add: store_buffers_def)

definition scratch_only :: "mesh \<Rightarrow> mesh \<Rightarrow> bool" where
  "scratch_only m m' \<longleftrightarrow> m' = m\<lparr>computedStates := computedStates m',
     pendingBridgeCapacities := pendingBridgeCapacities m', pendingBridgeStatuses := pendingBridgeStatuses m',
     pendingBridgeChanged := pendingBridgeChanged m', workerCount := workerCount m',
     simulationBufferShapeDirty := simulationBufferShapeDirty m',
     topologyValidationRequired := topologyValidationRequired m'\<rparr>"

lemma scratch_only_trans: "scratch_only m m1 \<Longrightarrow> scratch_only m1 m2 \<Longrightarrow> scratch_only m m2"
  by (cases m, cases m1, cases m2) (simp add: scratch_only_def)

lemma scratch_only_intros:
  "scratch_only m (store_buffers bf m)" "scratch_only m (m\<lparr>workerCount := w\<rparr>)"
  "scratch_only m (m\<lparr>simulationBufferShapeDirty := d\<rparr>)" "scratch_only m (m\<lparr>topologyValidationRequired := t\<rparr>)"
  by (simp_all add: scratch_only_def store_buffers_def)

lemma scratch_only_refl: "scratch_only m m"
  by (simp add: scratch_only_def)

lemma prepareBuffers_scratch: "scratch_only m (snd (prepareBuffers P m))"
proof -
  obtain bf where "snd (run_resizings P 0 (buffer_resizings (nodes m)) m) = store_buffers bf m"
    using run_resizings_frame [of "buffer_resizings (nodes m)" "nodes m"] by blast
  then have "snd (prepareBuffers P m) \<in> {m, store_buffers bf m, (store_buffers bf m)\<lparr>simulationBufferShapeDirty := False\<rparr>}"
    by (auto simp: prepareBuffers_def split: prod.splits sum.splits)
  moreover have "scratch_only m ((store_buffers bf m)\<lparr>simulationBufferShapeDirty := False\<rparr>)"
    by (rule scratch_only_trans [OF scratch_only_intros(1,3)])
  ultimately show ?thesis using scratch_only_refl [of m] scratch_only_intros(1) [of m bf]
    by (elim insertE) simp_all
qed

lemma simulationStep_fails_scratch:
  assumes "simulationStep P sched m = (Inl e, m')"
  shows "scratch_only m m'"
proof -
  obtain r1 m1 where 1: "validateTopologyAndStateUnlocked m = (r1, m1)" by fastforce
  obtain r2 m2 where 2: "ensureWorkerPoolUnlocked P m1 = (r2, m2)" by fastforce
  obtain r3 m3 where 3: "prepareBuffers P m2 = (r3, m3)" by fastforce
  have s1: "scratch_only m m1"
    using 1 scratch_only_intros(4) [of m False] scratch_only_refl [of m]
    by (auto simp: validateTopologyAndStateUnlocked_def Let_def split: sum.splits if_splits)
  have s2: "scratch_only m1 m2"
    using start_workers_frame [of P "[workerCount m1 ..< resolveWorkerCountUnlocked P m1]" m1] 2
      scratch_only_intros(2) by (auto simp: ensureWorkerPoolUnlocked_def)
  have s3: "scratch_only m2 m3" using prepareBuffers_scratch [of m2 P] 3 by simp
  have "m' \<in> {m1, m2, m3} \<or> (\<exists>bf. m' = store_buffers bf m3)"
    using assms unfolding simulationStep_def 1
    by (auto simp: 2 3 split: sum.splits prod.splits if_splits)
  moreover note s12 = scratch_only_trans [OF s1 s2]
  note s123 = scratch_only_trans [OF s12 s3]
  have "scratch_only m (store_buffers bf m3)" for bf
    by (rule scratch_only_trans [OF s123 scratch_only_intros(1)])
  with calculation show ?thesis using s1 s12 s123 by (elim disjE exE insertE) simp_all
qed

text \<open> C12. A step that throws, for whatever reason, has changed no node, bridge, relationship, counter,
  coefficient or ledger entry: only scratch buffers, the number of started workers and the two
  validation flags may differ.
\<close>

theorem failing_step_changes_nothing:
  "case simulationStep P sched m of (Inl e, m') \<Rightarrow> scratch_only m m' | (Inr _, _) \<Rightarrow> True"
  using simulationStep_fails_scratch by (auto split: prod.splits sum.splits)

text \<open> C37. The ranges \<open>k * n / w ... (k + 1) * n / w\<close> of the workers, in order, are exactly the nodes in
  order, so no node is computed twice or left out, for any number of nodes and workers.
\<close>

theorem worker_ranges_partition:
  assumes "0 < w"
  shows "concat (map (\<lambda>k. [first_node w n k ..< first_node w n (k + 1)]) [0 ..< w]) = [0 ..< n]"
  using worker_ranges_concat [OF assms, of w n] assms by (simp add: first_node_def)

theorem worker_ranges_partition_witness:
  "concat (map (\<lambda>k. [first_node 3 7 k ..< first_node 3 7 (k + 1)]) [0 ..< 3]) = [0, 1, 2, 3, 4, 5, 6]"
  using worker_ranges_partition [of 3 7] by (simp add: upt_rec)

end
