(* ===== verification/Worker_Pool.thy ===== *)
theory Worker_Pool
  imports Simulation_Laws
begin

text \<open>
  The protocol between \<open>simulationStep\<close> and its worker threads (\<open>WorkerSlot\<close>, \<open>workerLoop\<close>,
  \<open>acknowledgeWorkerCompletion\<close>, \<open>ensureWorkerPoolUnlocked\<close>, \<open>stopWorkerPool\<close> and the dispatch block in
  \<open>src/detail/spatial_adaptive_mesh_impl.hpp\<close>) as steps on the state that \<open>workMutex\<close> protects. One step
  is one critical section: a worker at the top of its loop (\<open>Top\<close>), and a worker that reports after
  having computed its range outside the lock (\<open>Return\<close>). All waits recheck their condition every
  millisecond, so no step depends on a notification. Generations are natural numbers: the
  \<open>size_t\<close> counter would need \<open>2 ^ 64\<close> steps to wrap.
\<close>

section \<open>State\<close>

record worker_slot =
  assignedGeneration :: nat
  completedGeneration :: nat

datatype worker_phase = Waiting | Running nat nat nat | Exited

record pool =
  workGeneration :: nat
  activeNodeCount :: nat
  activeWorkerCount :: nat
  remainingWorkerCount :: nat
  workerSlots :: "worker_slot list"
  phases :: "worker_phase list"
  stoppingWorkers :: bool
  workerException :: "exn option"
  outputs :: sim_buffers

section \<open>Steps\<close>

text \<open>A started worker waits with nothing to do.\<close>

definition start_worker :: "pool \<Rightarrow> pool" where
  "start_worker p = p\<lparr>workerSlots := workerSlots p @
       [\<lparr>assignedGeneration = workGeneration p, completedGeneration = workGeneration p\<rparr>],
     phases := phases p @ [Waiting]\<rparr>"

definition dispatch_work :: "node list \<Rightarrow> pool \<Rightarrow> pool" where
  "dispatch_work ns p = (let w = length (workerSlots p); g = workGeneration p + 1 in
     p\<lparr>activeNodeCount := length ns, activeWorkerCount := w, remainingWorkerCount := w,
       workerException := None, workGeneration := g,
       workerSlots := map (\<lambda>s. s\<lparr>assignedGeneration := g\<rparr>) (workerSlots p)\<rparr>)"

definition acknowledgeWorkerCompletion :: "nat \<Rightarrow> nat \<Rightarrow> pool \<Rightarrow> pool" where
  "acknowledgeWorkerCompletion k g p = (let s = workerSlots p ! k in
     if g \<noteq> workGeneration p \<or> activeWorkerCount p \<le> k \<or> g \<noteq> assignedGeneration s \<or>
        g \<le> completedGeneration s \<or> remainingWorkerCount p = 0
     then p
     else p\<lparr>workerSlots := (workerSlots p)[k := s\<lparr>completedGeneration := g\<rparr>],
       remainingWorkerCount := remainingWorkerCount p - 1\<rparr>)"

datatype pool_event = Top nat | Return nat

definition worker_top :: "nat \<Rightarrow> pool \<Rightarrow> pool" where
  "worker_top k p = (let s = workerSlots p ! k in
     if assignedGeneration s \<le> completedGeneration s
     then (if stoppingWorkers p then p\<lparr>phases := (phases p)[k := Exited]\<rparr> else p)
     else p\<lparr>phases := (phases p)[k := Running (assignedGeneration s)
        (k * activeNodeCount p div activeWorkerCount p)
        ((k + 1) * activeNodeCount p div activeWorkerCount p)]\<rparr>)"

definition worker_return :: "node list \<Rightarrow> f64 \<Rightarrow> nat \<Rightarrow> pool \<Rightarrow> pool" where
  "worker_return ns a k p = (case phases p ! k of
     Running g firstNode lastNode \<Rightarrow>
       let (r, bf) = runNodeRange ns a firstNode lastNode (outputs p);
           err = (case r of
             Inl e \<Rightarrow> Some (case workerException p of None \<Rightarrow> e | Some e1 \<Rightarrow> e1)
           | Inr _ \<Rightarrow> workerException p)
       in (acknowledgeWorkerCompletion k g (p\<lparr>outputs := bf, workerException := err\<rparr>))
            \<lparr>phases := (phases p)[k := Waiting]\<rparr>
   | _ \<Rightarrow> p)"

fun pool_enabled :: "pool \<Rightarrow> pool_event \<Rightarrow> bool" where
  "pool_enabled p (Top k) \<longleftrightarrow> k < length (phases p) \<and> phases p ! k = Waiting"
| "pool_enabled p (Return k) \<longleftrightarrow> k < length (phases p) \<and>
     (case phases p ! k of Running _ _ _ \<Rightarrow> True | _ \<Rightarrow> False)"

fun pool_step :: "node list \<Rightarrow> f64 \<Rightarrow> pool_event \<Rightarrow> pool \<Rightarrow> pool" where
  "pool_step ns a (Top k) p = worker_top k p"
| "pool_step ns a (Return k) p = worker_return ns a k p"

text \<open>The waiting dispatcher leaves its loop when nothing remains, and takes the exception.\<close>

definition collect :: "pool \<Rightarrow> unit result \<times> pool" where
  "collect p = ((case workerException p of None \<Rightarrow> Inr () | Some e \<Rightarrow> Inl e),
     p\<lparr>workerException := None\<rparr>)"

definition stop_workers :: "pool \<Rightarrow> pool" where
  "stop_workers p = p\<lparr>stoppingWorkers := True\<rparr>"

inductive pool_path :: "node list \<Rightarrow> f64 \<Rightarrow> pool \<Rightarrow> pool_event list \<Rightarrow> pool \<Rightarrow> bool"
  for ns a where
  path_nil: "pool_path ns a p [] p"
| path_snoc: "pool_path ns a p evs q \<Longrightarrow> pool_enabled q ev \<Longrightarrow> pool_path ns a p (evs @ [ev]) (pool_step ns a ev q)"

definition returns :: "pool_event list \<Rightarrow> nat list" where
  "returns evs = concat (map (\<lambda>ev. case ev of Return k \<Rightarrow> [k] | Top _ \<Rightarrow> []) evs)"

section \<open>Between two dispatches\<close>

definition idle_pool :: "pool \<Rightarrow> bool" where
  "idle_pool p \<longleftrightarrow> length (phases p) = length (workerSlots p) \<and> \<not> stoppingWorkers p \<and>
     remainingWorkerCount p = 0 \<and> workerException p = None \<and>
     (\<forall>k < length (workerSlots p). phases p ! k = Waiting \<and>
        assignedGeneration (workerSlots p ! k) = completedGeneration (workerSlots p ! k) \<and>
        completedGeneration (workerSlots p ! k) \<le> workGeneration p)"

lemma start_worker_idle: "idle_pool p \<Longrightarrow> idle_pool (start_worker p)"
  by (auto simp: idle_pool_def start_worker_def nth_append less_Suc_eq)

text \<open>
  The state of a dispatch after the reports \<open>ks\<close>: those workers are done and wait, the others have
  not been acknowledged, and exception and buffers are what the reports, in their order, produce.
\<close>

definition slot_state :: "node list \<Rightarrow> nat \<Rightarrow> nat list \<Rightarrow> nat \<Rightarrow> nat \<Rightarrow> worker_slot \<Rightarrow> worker_phase \<Rightarrow> bool" where
  "slot_state ns w ks g k s ph \<longleftrightarrow> assignedGeneration s = g \<and>
     (if k \<in> set ks then completedGeneration s = g \<and> ph = Waiting
      else completedGeneration s < g \<and>
        (ph = Waiting \<or> ph = Running g (first_node w (length ns) k) (first_node w (length ns) (Suc k))))"

definition in_dispatch :: "node list \<Rightarrow> f64 \<Rightarrow> sim_buffers \<Rightarrow> nat \<Rightarrow> nat list \<Rightarrow> pool \<Rightarrow> bool" where
  "in_dispatch ns a bf w ks p \<longleftrightarrow> length (workerSlots p) = w \<and> length (phases p) = w \<and> \<not> stoppingWorkers p \<and>
     activeWorkerCount p = w \<and> activeNodeCount p = length ns \<and>
     distinct ks \<and> set ks \<subseteq> {0 ..< w} \<and> remainingWorkerCount p = w - length ks \<and>
     (workerException p, outputs p) = fold (run_worker ns a w) ks (None, bf) \<and>
     (\<forall>k < w. slot_state ns w ks (workGeneration p) k (workerSlots p ! k) (phases p ! k))"

lemma dispatch_starts:
  "idle_pool p \<Longrightarrow> in_dispatch ns a (outputs p) (length (workerSlots p)) [] (dispatch_work ns p)"
  by (auto simp: idle_pool_def in_dispatch_def dispatch_work_def Let_def le_imp_less_Suc slot_state_def)

section \<open>One step of a dispatch\<close>

lemma run_worker_eq:
  "run_worker ns a w k (err, bf) =
    (let (r, bf1) = runNodeRange ns a (first_node w (length ns) k) (first_node w (length ns) (Suc k)) bf
     in (case r of Inl e \<Rightarrow> Some (case err of None \<Rightarrow> e | Some e1 \<Rightarrow> e1) | Inr _ \<Rightarrow> err, bf1))"
  by (auto simp: run_worker_def split: prod.splits sum.splits)

lemma in_dispatch_slot:
  "in_dispatch ns a bf w ks p \<Longrightarrow> k < w \<Longrightarrow>
     slot_state ns w ks (workGeneration p) k (workerSlots p ! k) (phases p ! k)"
  by (simp add: in_dispatch_def)

lemma in_dispatch_worker:
  assumes "in_dispatch ns a bf w ks p" "k < w"
  shows "assignedGeneration (workerSlots p ! k) = workGeneration p"
    "k \<in> set ks \<Longrightarrow> completedGeneration (workerSlots p ! k) = workGeneration p \<and> phases p ! k = Waiting"
    "k \<notin> set ks \<Longrightarrow> completedGeneration (workerSlots p ! k) < workGeneration p \<and>
       (phases p ! k = Waiting \<or>
        phases p ! k = Running (workGeneration p) (first_node w (length ns) k) (first_node w (length ns) (Suc k)))"
  using in_dispatch_slot [OF assms] by (simp_all add: slot_state_def)

lemma top_in_dispatch:
  assumes d: "in_dispatch ns a bf w ks p" and en: "pool_enabled p (Top k)"
  shows "in_dispatch ns a bf w ks (worker_top k p)"
proof -
  have k: "k < w" using d en by (simp add: in_dispatch_def)
  note all = d [unfolded in_dispatch_def]
  show ?thesis
  proof (cases "k \<in> set ks")
    case True
    then have "worker_top k p = p" using all in_dispatch_worker [OF d k] by (simp add: worker_top_def Let_def)
    then show ?thesis using d by simp
  next
    case False
    then have "worker_top k p = p\<lparr>phases := (phases p)[k := Running (workGeneration p)
        (first_node w (length ns) k) (first_node w (length ns) (Suc k))]\<rparr>"
      using all in_dispatch_worker [OF d k] by (simp add: worker_top_def Let_def first_node_def)
    moreover have "slot_state ns w ks (workGeneration p) k (workerSlots p ! k)
        (Running (workGeneration p) (first_node w (length ns) k) (first_node w (length ns) (Suc k)))"
      using in_dispatch_worker [OF d k] False by (simp add: slot_state_def)
    ultimately show ?thesis using d k by (simp add: in_dispatch_def nth_list_update)
  qed
qed

lemma return_in_dispatch:
  assumes d: "in_dispatch ns a bf w ks p" and en: "pool_enabled p (Return k)"
  shows "in_dispatch ns a bf w (ks @ [k]) (worker_return ns a k p)" and "k \<notin> set ks"
proof -
  have k: "k < w" using d en by (simp add: in_dispatch_def)
  note all = d [unfolded in_dispatch_def]
  show new: "k \<notin> set ks"
  proof
    assume "k \<in> set ks"
    then have "phases p ! k = Waiting" using in_dispatch_worker(2) [OF d k] by simp
    then show False using en by simp
  qed
  then have run: "phases p ! k = Running (workGeneration p) (first_node w (length ns) k) (first_node w (length ns) (Suc k))"
    and c: "completedGeneration (workerSlots p ! k) < workGeneration p"
      "assignedGeneration (workerSlots p ! k) = workGeneration p"
    using in_dispatch_worker [OF d k] en by auto
  have "card (set ks) < card {0 ..< w}"
    using all k new by (intro psubset_card_mono) auto
  then have len: "length ks < w" using all by (simp add: distinct_card)
  obtain r bf1 where r: "runNodeRange ns a (first_node w (length ns) k) (first_node w (length ns) (Suc k)) (outputs p) = (r, bf1)"
    by fastforce
  define err where "err = (case r of Inl e \<Rightarrow> Some (case workerException p of None \<Rightarrow> e | Some e1 \<Rightarrow> e1)
     | Inr _ \<Rightarrow> workerException p)"
  have "worker_return ns a k p = p\<lparr>outputs := bf1, workerException := err,
      workerSlots := (workerSlots p)[k := (workerSlots p ! k)\<lparr>completedGeneration := workGeneration p\<rparr>],
      remainingWorkerCount := remainingWorkerCount p - 1, phases := (phases p)[k := Waiting]\<rparr>"
    using all k c len by (simp add: worker_return_def run r acknowledgeWorkerCompletion_def err_def)
  moreover have "(err, bf1) = fold (run_worker ns a w) (ks @ [k]) (None, bf)"
  proof -
    have f: "fold (run_worker ns a w) ks (None, bf) = (workerException p, outputs p)" using all by simp
    show ?thesis by (simp add: f run_worker_eq r err_def)
  qed
  moreover have "slot_state ns w (ks @ [k]) (workGeneration p) k
      ((workerSlots p ! k)\<lparr>completedGeneration := workGeneration p\<rparr>) Waiting"
    using c(2) by (simp add: slot_state_def)
  moreover have "slot_state ns w (ks @ [k]) (workGeneration p) j (workerSlots p ! j) (phases p ! j)"
    if "j < w" "j \<noteq> k" for j
    using in_dispatch_slot [OF d that(1)] that(2) by (auto simp: slot_state_def)
  ultimately show "in_dispatch ns a bf w (ks @ [k]) (worker_return ns a k p)"
    using all k new len by (simp add: in_dispatch_def nth_list_update)
qed

lemma returns_snoc: "returns (evs @ [ev]) = returns evs @ (case ev of Return k \<Rightarrow> [k] | Top _ \<Rightarrow> [])"
  by (simp add: returns_def)

lemma path_in_dispatch:
  assumes "pool_path ns a p evs q" "in_dispatch ns a bf w [] p"
  shows "in_dispatch ns a bf w (returns evs) q"
  using assms
proof (induction rule: pool_path.induct)
  case (path_nil p)
  then show ?case by (simp add: returns_def)
next
  case (path_snoc p evs q ev)
  show ?case
  proof (cases ev)
    case (Top k)
    then show ?thesis using top_in_dispatch [OF path_snoc.IH [OF path_snoc.prems]] path_snoc.hyps(2)
      by (simp add: returns_snoc)
  next
    case (Return k)
    then show ?thesis using return_in_dispatch(1) [OF path_snoc.IH [OF path_snoc.prems]] path_snoc.hyps(2)
      by (simp add: returns_snoc)
  qed
qed

lemma dispatch_finished:
  assumes d: "in_dispatch ns a bf w ks p" and none: "remainingWorkerCount p = 0"
  shows "schedule w ks" "fst (collect p) = fst (dispatch ns a w ks bf)"
    "outputs p = snd (dispatch ns a w ks bf)" "idle_pool (snd (collect p))"
proof -
  note all = d [unfolded in_dispatch_def]
  have "w \<le> card (set ks)" using all none by (simp add: distinct_card)
  then have "set ks = {0 ..< w}" using all by (intro card_seteq) auto
  then show s: "schedule w ks" using all by (simp add: schedule_def)
  have f: "fold (run_worker ns a w) ks (None, bf) = (workerException p, outputs p)" using all by simp
  show "fst (collect p) = fst (dispatch ns a w ks bf)" "outputs p = snd (dispatch ns a w ks bf)"
    by (simp_all add: collect_def dispatch_def f split: option.split)
  have "\<forall>k < w. k \<in> set ks" using s by (simp add: schedule_def)
  then show "idle_pool (snd (collect p))"
    using all none in_dispatch_worker [OF d] by (simp add: idle_pool_def collect_def)
qed

section \<open>Progress\<close>

text \<open>Critical sections that are still to come: two for a worker that has not taken its range, one for
  a worker that is computing.\<close>

definition work_left :: "pool \<Rightarrow> nat" where
  "work_left p = sum_list (map (\<lambda>(s, ph). if completedGeneration s < assignedGeneration s
     then (case ph of Running _ _ _ \<Rightarrow> 1 | _ \<Rightarrow> 2) else 0) (zip (workerSlots p) (phases p)))"

text \<open>A recheck that finds nothing to do changes nothing; every other event is effective.\<close>

definition effective :: "pool \<Rightarrow> pool_event \<Rightarrow> bool" where
  "effective p ev = (case ev of
     Top k \<Rightarrow> completedGeneration (workerSlots p ! k) < assignedGeneration (workerSlots p ! k)
   | Return k \<Rightarrow> True)"

lemma sum_list_update_nat:
  "k < length xs \<Longrightarrow> sum_list (xs[k := v]) + (xs ! k) = sum_list xs + (v::nat)"
  by (induction xs arbitrary: k) (auto split: nat.splits simp: nth_Cons')

lemma zip_update_both:
  "zip (xs[k := x]) (ys[k := y]) = (zip xs ys)[k := (x, y)]"
  by (simp add: update_zip)

definition slot_work :: "worker_slot \<Rightarrow> worker_phase \<Rightarrow> nat" where
  "slot_work s ph = (if completedGeneration s < assignedGeneration s
     then (case ph of Running _ _ _ \<Rightarrow> 1 | _ \<Rightarrow> 2) else 0)"

lemma work_left_alt: "work_left p = sum_list (map (\<lambda>(s, ph). slot_work s ph) (zip (workerSlots p) (phases p)))"
  by (simp add: work_left_def slot_work_def)

lemma work_left_update:
  assumes "length (workerSlots p) = length (phases p)" "k < length (phases p)"
    "workerSlots q = (workerSlots p)[k := s]" "phases q = (phases p)[k := ph]"
  shows "work_left q + slot_work (workerSlots p ! k) (phases p ! k) = work_left p + slot_work s ph"
  using sum_list_update_nat [of k "map (\<lambda>(s, ph). slot_work s ph) (zip (workerSlots p) (phases p))" "slot_work s ph"] assms
  by (simp add: work_left_alt zip_update_both map_update)

lemma work_left_step:
  assumes d: "in_dispatch ns a bf w ks p" and en: "pool_enabled p ev"
  shows "if effective p ev then work_left p = Suc (work_left (pool_step ns a ev p))
    else pool_step ns a ev p = p"
proof (cases ev)
  case (Top k)
  have k: "k < w" using d en Top by (simp add: in_dispatch_def)
  have len: "length (workerSlots p) = length (phases p)" "k < length (phases p)" "\<not> stoppingWorkers p"
    using d k by (simp_all add: in_dispatch_def)
  show ?thesis
  proof (cases "effective p ev")
    case True
    then have c: "completedGeneration (workerSlots p ! k) < assignedGeneration (workerSlots p ! k)"
      by (simp add: effective_def Top)
    obtain g f l where q: "worker_top k p = p\<lparr>phases := (phases p)[k := Running g f l]\<rparr>"
      using c by (auto simp: worker_top_def Let_def)
    have "workerSlots (worker_top k p) = (workerSlots p)[k := workerSlots p ! k]" by (simp add: q)
    moreover have "phases (worker_top k p) = (phases p)[k := Running g f l]" by (simp add: q)
    ultimately have "work_left (worker_top k p) + slot_work (workerSlots p ! k) (phases p ! k) =
        work_left p + slot_work (workerSlots p ! k) (Running g f l)" by (rule work_left_update [OF len(1,2)])
    then show ?thesis using True c en by (simp add: Top slot_work_def)
  next
    case False
    then show ?thesis using len(3) by (simp add: Top effective_def worker_top_def Let_def)
  qed
next
  case (Return k)
  have k: "k < w" using d en Return by (simp add: in_dispatch_def)
  have len: "length (workerSlots p) = length (phases p)" "k < length (phases p)"
    using d k by (simp_all add: in_dispatch_def)
  note r = return_in_dispatch [OF d en [unfolded Return]]
  note old = in_dispatch_worker [OF d k] and new = in_dispatch_worker [OF r(1) k]
  obtain g f l where ph: "phases p ! k = Running g f l" using en Return by (auto split: worker_phase.splits)
  have s: "workerSlots (worker_return ns a k p) = (workerSlots p)[k := workerSlots (worker_return ns a k p) ! k]"
    using len by (auto simp: worker_return_def ph acknowledgeWorkerCompletion_def Let_def split: prod.split)
  have p: "phases (worker_return ns a k p) = (phases p)[k := Waiting]"
    by (simp add: worker_return_def ph Let_def split: prod.split)
  have "work_left (worker_return ns a k p) + slot_work (workerSlots p ! k) (phases p ! k) =
      work_left p + slot_work (workerSlots (worker_return ns a k p) ! k) Waiting"
    by (rule work_left_update [OF len s p])
  moreover have "slot_work (workerSlots p ! k) (phases p ! k) = 1"
    using old(1,3) r(2) ph by (simp add: slot_work_def)
  moreover have "slot_work (workerSlots (worker_return ns a k p) ! k) Waiting = 0"
    using new(1,2) by (simp add: slot_work_def)
  ultimately show ?thesis by (simp add: Return effective_def)
qed

text \<open>Whoever is not done can take a step.\<close>

lemma dispatch_not_stuck:
  assumes d: "in_dispatch ns a bf w ks p" and r: "remainingWorkerCount p \<noteq> 0"
  shows "\<exists>ev. pool_enabled p ev \<and> effective p ev"
proof -
  have "length ks < w" using d r by (simp add: in_dispatch_def)
  then have "card (set ks) < card {0 ..< w}" using d by (simp add: in_dispatch_def distinct_card)
  then obtain k where k: "k < w" "k \<notin> set ks"
    by (metis atLeastLessThan_iff card_mono finite_set linorder_not_le subsetI zero_le)
  note w = in_dispatch_worker [OF d k(1)]
  have len: "k < length (phases p)" using d k by (simp add: in_dispatch_def)
  from w(3) [OF k(2)] consider "phases p ! k = Waiting" |
    "phases p ! k = Running (workGeneration p) (first_node w (length ns) k) (first_node w (length ns) (Suc k))" by blast
  then show ?thesis
  proof cases
    case 1
    then show ?thesis using w(1,3) k len by (intro exI [of _ "Top k"]) (simp add: effective_def)
  next
    case 2
    then show ?thesis using len by (intro exI [of _ "Return k"]) (simp add: effective_def)
  qed
qed

lemma work_left_start:
  "idle_pool p \<Longrightarrow> work_left (dispatch_work ns p) = 2 * length (workerSlots p)"
proof -
  assume i: "idle_pool p"
  have "map (\<lambda>(s, ph). slot_work s ph) (zip (workerSlots (dispatch_work ns p)) (phases (dispatch_work ns p))) =
      replicate (length (workerSlots p)) 2"
    using i by (intro nth_equalityI)
      (auto simp: idle_pool_def dispatch_work_def Let_def slot_work_def le_imp_less_Suc)
  then show ?thesis by (simp add: work_left_alt sum_list_replicate)
qed

text \<open>Effective events of a path, counted along it.\<close>

inductive effective_path :: "node list \<Rightarrow> f64 \<Rightarrow> pool \<Rightarrow> nat \<Rightarrow> pool \<Rightarrow> bool" for ns a where
  eff_nil: "effective_path ns a p 0 p"
| eff_step: "effective_path ns a p n q \<Longrightarrow> pool_enabled q ev \<Longrightarrow> effective q ev \<Longrightarrow>
    effective_path ns a p (Suc n) (pool_step ns a ev q)"
| eff_recheck: "effective_path ns a p n q \<Longrightarrow> pool_enabled q ev \<Longrightarrow> \<not> effective q ev \<Longrightarrow>
    effective_path ns a p n (pool_step ns a ev q)"

lemma effective_path_work:
  assumes "effective_path ns a p n q" "in_dispatch ns a bf w [] p"
  shows "work_left p = n + work_left q \<and> (\<exists>ks. in_dispatch ns a bf w ks q)"
  using assms
proof (induction rule: effective_path.induct)
  case (eff_step p n q ev)
  obtain ks where d: "in_dispatch ns a bf w ks q" using eff_step by blast
  have "\<exists>ks. in_dispatch ns a bf w ks (pool_step ns a ev q)"
    using top_in_dispatch [OF d] return_in_dispatch(1) [OF d] eff_step.hyps(2) by (cases ev) auto
  then show ?case using work_left_step [OF d eff_step.hyps(2)] eff_step by simp
next
  case (eff_recheck p n q ev)
  obtain ks where d: "in_dispatch ns a bf w ks q" using eff_recheck by blast
  then show ?case using work_left_step [OF d eff_recheck.hyps(2)] eff_recheck by auto
qed auto

section \<open>Claims\<close>

text \<open>A pool of two workers between dispatches, and its run over no nodes.\<close>

definition idle_two :: pool where
  "idle_two = start_worker (start_worker
     \<lparr>workGeneration = 3, activeNodeCount = 0, activeWorkerCount = 0, remainingWorkerCount = 0,
      workerSlots = [], phases = [], stoppingWorkers = False, workerException = None,
      outputs = \<lparr>out_states = [], out_capacities = [], out_statuses = [], out_changed = []\<rparr>\<rparr>)"

lemma idle_two: "idle_pool idle_two" "length (workerSlots idle_two) = 2"
  unfolding idle_two_def
  by (intro start_worker_idle) (simp_all add: idle_pool_def start_worker_def)

text \<open> C5. The dispatch protocol refines the dispatch of the simulation step: in every interleaving of the
  workers' critical sections, when the dispatcher finds that nothing remains, every worker has
  reported exactly once, and the exception it rethrows and the buffers are those of running the
  workers one after the other in the order of their reports; the pool is then ready for the next
  dispatch, with no worker left that could still use the dispatched buffers.
\<close>

theorem pool_refines_dispatch:
  assumes "idle_pool p" and "pool_path ns a (dispatch_work ns p) evs q" and "remainingWorkerCount q = 0"
  shows "schedule (length (workerSlots p)) (returns evs) \<and>
    (fst (collect q), outputs q) = dispatch ns a (length (workerSlots p)) (returns evs) (outputs p) \<and>
    idle_pool (snd (collect q))"
  using dispatch_finished [OF path_in_dispatch [OF assms(2) dispatch_starts [OF assms(1)]] assms(3)] by simp_all

theorem pool_refines_dispatch_witness:
  "\<exists>q. pool_path [] 1 (dispatch_work [] idle_two) [Top 1, Top 0, Return 1, Top 1, Return 0] q \<and>
     schedule 2 (returns [Top 1, Top 0, Return 1, Top 1, Return 0]) \<and> idle_pool (snd (collect q))"
proof -
  note steps = path_nil [of "[]" 1 "dispatch_work [] idle_two"]
  define q1 where "q1 = pool_step [] 1 (Top 1) (dispatch_work [] idle_two)"
  define q2 where "q2 = pool_step [] 1 (Top 0) q1"
  define q3 where "q3 = pool_step [] 1 (Return 1) q2"
  define q4 where "q4 = pool_step [] 1 (Top 1) q3"
  define q5 where "q5 = pool_step [] 1 (Return 0) q4"
  note eval = q1_def q2_def q3_def q4_def q5_def idle_two_def start_worker_def dispatch_work_def worker_top_def
    worker_return_def acknowledgeWorkerCompletion_def runNodeRange_def Let_def
  have "pool_path [] 1 (dispatch_work [] idle_two) ([] @ [Top 1]) q1"
    unfolding q1_def by (rule path_snoc [OF path_nil]) (simp add: eval)
  then have "pool_path [] 1 (dispatch_work [] idle_two) (([] @ [Top 1]) @ [Top 0]) q2"
    unfolding q2_def by (rule path_snoc) (simp add: eval)
  then have "pool_path [] 1 (dispatch_work [] idle_two) ((([] @ [Top 1]) @ [Top 0]) @ [Return 1]) q3"
    unfolding q3_def by (rule path_snoc) (simp add: eval)
  then have "pool_path [] 1 (dispatch_work [] idle_two) (((([] @ [Top 1]) @ [Top 0]) @ [Return 1]) @ [Top 1]) q4"
    unfolding q4_def by (rule path_snoc) (simp add: eval)
  then have "pool_path [] 1 (dispatch_work [] idle_two) ((((([] @ [Top 1]) @ [Top 0]) @ [Return 1]) @ [Top 1]) @ [Return 0]) q5"
    unfolding q5_def by (rule path_snoc) (simp add: eval)
  then have path: "pool_path [] 1 (dispatch_work [] idle_two) [Top 1, Top 0, Return 1, Top 1, Return 0] q5" by simp
  have "remainingWorkerCount q5 = 0" by (simp add: eval)
  from pool_refines_dispatch [OF idle_two(1) path this] path show ?thesis
    unfolding idle_two(2) by blast
qed

text \<open> C11. A dispatch terminates: whatever the interleaving, at most two effective critical sections per
  worker happen, the dispatcher is never stuck because some worker can take an effective step while
  anything remains, and once as many have happened as that bound allows, nothing remains.
\<close>

theorem dispatch_terminates:
  assumes "idle_pool p" and "effective_path ns a (dispatch_work ns p) n q"
  shows "n + work_left q = 2 * length (workerSlots p) \<and>
    (if remainingWorkerCount q = 0 then n = 2 * length (workerSlots p)
     else \<exists>ev. pool_enabled q ev \<and> effective q ev \<and> work_left (pool_step ns a ev q) < work_left q)"
proof -
  note d0 = dispatch_starts [OF assms(1), of ns a]
  obtain ks where w: "work_left (dispatch_work ns p) = n + work_left q"
    and d: "in_dispatch ns a (outputs p) (length (workerSlots p)) ks q"
    using effective_path_work [OF assms(2) d0] by blast
  show ?thesis
  proof (cases "remainingWorkerCount q = 0")
    case True
    have "schedule (length (workerSlots p)) ks" by (rule dispatch_finished(1) [OF d True])
    then have "map (\<lambda>(s, ph). slot_work s ph) (zip (workerSlots q) (phases q)) =
        replicate (length (workerSlots p)) 0"
      using d in_dispatch_worker [OF d]
      by (intro nth_equalityI) (auto simp: in_dispatch_def schedule_def slot_work_def)
    then have "work_left q = 0" by (simp add: work_left_alt sum_list_replicate)
    then show ?thesis using True w work_left_start [OF assms(1), of ns] by simp
  next
    case False
    then obtain ev where ev: "pool_enabled q ev" "effective q ev" using dispatch_not_stuck [OF d] by blast
    then have "work_left (pool_step ns a ev q) < work_left q" using work_left_step [OF d ev(1)] by simp
    then show ?thesis using False w work_left_start [OF assms(1), of ns] ev by auto
  qed
qed

theorem dispatch_terminates_witness:
  "\<exists>ev. pool_enabled (dispatch_work [] idle_two) ev \<and> effective (dispatch_work [] idle_two) ev"
proof -
  have "remainingWorkerCount (dispatch_work [] idle_two) \<noteq> 0"
    using idle_two(2) by (simp add: dispatch_work_def Let_def)
  then show ?thesis using dispatch_terminates [OF idle_two(1) eff_nil, of "[]" 1] by auto
qed

end
