(* ===== verification/Mesh_System.thy ===== *)
theory Mesh_System
  imports Mesh_Authority Worker_Pool
begin

text \<open>
  The whole mesh: every public operation that changes its state, and what holds of every mesh that
  some sequence of them can produce.
\<close>

datatype mesh_op =
    Op_topology topology_op
  | Op_shock int f64
  | Op_simulate "nat list"
  | Op_commit execution_capability
  | Op_derive bool eligibility_decision bool u64
  | Op_ledger ledger_op

text \<open>The mesh an operation leaves, whether it returns or throws.\<close>

fun mesh_apply :: "platform \<Rightarrow> mesh_op \<Rightarrow> mesh \<Rightarrow> mesh" where
  "mesh_apply P (Op_topology oper) m = snd (topology_apply P oper m)"
| "mesh_apply P (Op_shock t magnitude) m = snd (injectExternalShock t magnitude m)"
| "mesh_apply P (Op_simulate sched) m = snd (simulationStepAsync P sched m)"
| "mesh_apply P (Op_commit cap) m = snd (commitProductionTransition cap m)"
| "mesh_apply P (Op_derive room elig pol c) m = fst (snd (deriveProductionAuthority room elig pol m c))"
| "mesh_apply P (Op_ledger oper) m = m\<lparr>authorityLedger := snd (ledger_step oper (authorityLedger m))\<rparr>"

text \<open>Arguments are doubles, the mesh stays below \<open>2 ^ 31\<close> nodes, and all workers of a step report.\<close>

fun mesh_args_ok :: "platform \<Rightarrow> mesh \<Rightarrow> mesh_op \<Rightarrow> bool" where
  "mesh_args_ok P m (Op_topology oper) \<longleftrightarrow> topology_args_ok m oper"
| "mesh_args_ok P m (Op_shock t magnitude) \<longleftrightarrow> wf64 magnitude"
| "mesh_args_ok P m (Op_simulate sched) \<longleftrightarrow> schedule (pool_size P m) sched"
| "mesh_args_ok P m _ \<longleftrightarrow> True"

inductive mesh_reachable :: "nat \<Rightarrow> authority_domain \<Rightarrow> mesh \<Rightarrow> bool" for w d where
  reach_new: "mesh_reachable w d (new_mesh w d)"
| reach_step: "mesh_reachable w d m \<Longrightarrow> libm_hypot (hypot_of P) \<Longrightarrow> mesh_args_ok P m oper \<Longrightarrow>
    mesh_reachable w d (mesh_apply P oper m)"

lemma shock_ok: "mesh_ok m \<Longrightarrow> wf64 magnitude \<Longrightarrow> mesh_ok (snd (injectExternalShock t magnitude m))"
  using injectExternalShock_Inr(1) [of m magnitude t] injectExternalShock_Inl [of m magnitude t]
  by (cases "injectExternalShock t magnitude m"; cases "fst (injectExternalShock t magnitude m)") auto

lemma mesh_apply_ok:
  assumes "mesh_ok m" "libm_hypot (hypot_of P)" "mesh_args_ok P m oper"
  shows "mesh_ok (mesh_apply P oper m)"
proof (cases oper)
  case (Op_derive room elig pol c)
  then show ?thesis using assms live_derivation_denies [of room elig pol m c] by auto
qed (use assms topology_apply_ok shock_ok simulation_keeps_ok commit_keeps_ok ledger_ok
      in \<open>auto simp: simulationStepAsync_def\<close>)

lemma reachable_ok: "mesh_reachable w d m \<Longrightarrow> mesh_ok m"
  by (induction rule: mesh_reachable.induct) (simp_all add: new_mesh_ok mesh_apply_ok)

text \<open> C1. Every mesh that public operations can produce, in any order and with any failures, resource
  exhaustion and worker interleavings on the way, is well-formed: positions, states and invariants
  are finite, health indices and capacities lie in the unit interval, every status agrees with its
  capacity, adjacency is symmetric, without self-loops and duplicates, every directed edge and
  nothing else has a relationship lifecycle with the incarnations of its endpoints, and the
  stability coefficient is that of the present degrees.
\<close>

theorem reachable_mesh_well_formed:
  assumes "mesh_reachable w d m"
  shows "mesh_ok m"
  by (rule reachable_ok [OF assms])

theorem reachable_mesh_well_formed_witness:
  "mesh_ok (mesh_apply roomy_platform (Op_topology (Op_autoConnect 1))
     (mesh_apply roomy_platform (Op_topology (Op_addNode 0 (point 0) 0)) (new_mesh 2 (Domain 1))))"
  by (rule reachable_mesh_well_formed [of 2 "Domain 1"])
    (intro reach_step reach_new; simp add: topology_args_ok_def new_mesh_def vec3_wf_def point_def)

end
