(* ===== verification/State_Envelope.thy ===== *)
theory State_Envelope
  imports Simulation_Laws
begin

text \<open>
  The discrete maximum principle of the simulation (\<open>docs/mathematics.md\<close>, candidate proposition 1),
  for the step as the program computes it in doubles: a node's new state never leaves the range of
  its own old state and those of its neighbours. The rounding errors of the diffusion sum fit into
  the fifth that the stability coefficient leaves, so the bound is exact.
\<close>

section \<open>Rounding with room\<close>

lemma u_tiny: "p2 (- 53) \<le> 1 / 1024"
proof -
  have "p2 (- 53) \<le> p2 (- 10)" by (simp only: p2_le_iff)
  also have "p2 (- 10) = 1 / 1024" by (simp add: power_int_minus)
  finally show ?thesis .
qed

text \<open>A value that leaves room below a difference of doubles stays below it when rounded.\<close>

lemma rne_with_room:
  assumes "y = of_int n * p2 (- 1074)" "0 \<le> y" "x \<le> 17 / 20 * y"
  shows "rne x \<le> y"
proof (cases "y < p2 (- 1021)")
  case True
  then have "rne y = y"
    using is_repr_small_multiple [OF assms(1)] assms(2) by (simp only: is_repr_def abs_of_nonneg)
  then show ?thesis using assms(2,3) by (intro rne.rnd_le) linarith+
next
  case False
  define z where "z = 17 / 20 * y"
  have "p2 (- 1021) = 2 * p2 (- 1022)" using p2_add [of 1 "- 1022"] by simp
  then have "p2 (- 1022) \<le> \<bar>z\<bar>" using False assms(2) unfolding z_def by simp
  then have "\<bar>rne z - z\<bar> \<le> p2 (- 53) * \<bar>z\<bar>" by (rule rne_rel_error_normal)
  also have "\<dots> \<le> 1 / 1024 * \<bar>z\<bar>" using u_tiny by (intro mult_right_mono) simp_all
  finally have "rne z \<le> y" using assms(2) unfolding z_def by linarith
  moreover have "rne x \<le> rne z" using assms(3) by (intro rne_mono) (simp add: z_def)
  ultimately show ?thesis by linarith
qed

lemma growth_bound:
  assumes "n < 2 ^ 31"
  shows "(1 + p2 (- 53)) ^ n \<le> 101 / 100"
proof -
  define u where "u = p2 (- 53)"
  have u: "0 \<le> u" "u \<le> 1" using u_tiny by (simp_all add: u_def)
  have "of_nat n * u \<le> of_nat (2 ^ 31) * u"
    using assms u by (intro mult_right_mono) (simp_all only: of_nat_le_iff)
  also have "of_nat (2 ^ 31) * u = p2 (- 22)"
    using p2_add [of 31 "- 53"] p2_nat [of 31] by (simp add: u_def)
  also have "p2 (- 22) \<le> p2 (- 10)" by (simp only: p2_le_iff)
  also have "p2 (- 10) = 1 / 1024" by (simp add: power_int_minus)
  finally have nu: "of_nat n * u \<le> 1 / 1024" .
  have "1 - of_nat n * u \<le> (1 - u) ^ n"
    using Bernoulli_inequality [of "- u" n] u by simp
  then have low: "1023 / 1024 \<le> (1 - u) ^ n" using nu by linarith
  have "(1 + u) ^ n * (1 - u) ^ n = (1 - u * u) ^ n"
    by (simp add: power_mult_distrib [symmetric] algebra_simps)
  also have "\<dots> \<le> 1" using u by (intro power_le_one) (auto simp: mult_le_one)
  finally have "(1 + u) ^ n * (1 - u) ^ n \<le> 1" .
  moreover have "(1 + u) ^ n * (1023 / 1024) \<le> (1 + u) ^ n * (1 - u) ^ n"
    using low u by (intro mult_left_mono) simp_all
  ultimately have "(1 + u) ^ n * (1023 / 1024) \<le> 1" by linarith
  then show ?thesis unfolding u_def by linarith
qed

section \<open>The diffusion sum\<close>

text \<open>The rounded sum of the terms \<open>c * (x - s)\<close>, in the order of the bridges, and the new state.\<close>

definition diffusion_sum :: "rat \<Rightarrow> (rat \<times> rat) list \<Rightarrow> rat" where
  "diffusion_sum s ws = fold (\<lambda>(c, x) acc. rne (acc + rne (c * rne (x - s)))) ws 0"

definition diffused :: "rat \<Rightarrow> rat \<Rightarrow> (rat \<times> rat) list \<Rightarrow> rat" where
  "diffused a s ws = rne (s + rne (a * diffusion_sum s ws))"

lemma diffusion_sum_snoc:
  "diffusion_sum s (ws @ [(c, x)]) = rne (diffusion_sum s ws + rne (c * rne (x - s)))"
  by (simp add: diffusion_sum_def)

lemma diffusion_sum_nil [simp]: "diffusion_sum s [] = 0"
  by (simp add: diffusion_sum_def)

lemma diffusion_sum_repr: "is_repr (diffusion_sum s ws)"
  by (cases ws rule: rev_exhaust) (auto simp: diffusion_sum_snoc)

lemma diffusion_sum_mirror:
  "diffusion_sum (- s) (map (\<lambda>(c, x). (c, - x)) ws) = - diffusion_sum s ws"
proof (induction ws rule: rev_induct)
  case (snoc w ws)
  obtain c x where w: "w = (c, x)" by (cases w)
  have "rne (- x - - s) = - rne (x - s)" using rne_minus [of "x - s"] by simp
  then have "rne (c * rne (- x - - s)) = - rne (c * rne (x - s))"
    using rne_minus [of "c * rne (x - s)"] by simp
  then show ?case
    using snoc rne_minus [of "diffusion_sum s ws + rne (c * rne (x - s))"]
    by (simp add: w diffusion_sum_snoc)
qed simp

text \<open>A term is bounded by the largest difference.\<close>

lemma diffusion_term_le:
  assumes "0 \<le> c" "c \<le> 1" "x \<le> hi" "s \<le> hi"
  shows "rne (c * rne (x - s)) \<le> rne (hi - s)"
proof (rule rne.rnd_le)
  have d: "rne (x - s) \<le> rne (hi - s)" and h: "0 \<le> rne (hi - s)"
    using assms by (auto intro: rne_mono rne.rnd_nonneg)
  have "c * rne (x - s) \<le> c * rne (hi - s)" using d assms(1) by (rule mult_left_mono)
  also have "\<dots> \<le> rne (hi - s)" using h assms(1,2) by (rule mult_left_le_one_le)
  finally show "c * rne (x - s) \<le> rne (hi - s)" .
qed simp

lemma diffusion_sum_le:
  assumes "\<forall>(c, x) \<in> set ws. 0 \<le> c \<and> c \<le> 1 \<and> x \<le> hi" and s: "s \<le> hi"
  shows "diffusion_sum s ws \<le> of_nat (length ws) * rne (hi - s) * (1 + p2 (- 53)) ^ length ws"
  using assms(1)
proof (induction ws rule: rev_induct)
  case (snoc w ws)
  obtain c x where w: "w = (c, x)" by (cases w)
  define u h k where "u = p2 (- 53)" and "h = rne (hi - s)" and "k = (of_nat (length ws) :: rat)"
  define t where "t = diffusion_sum s ws + rne (c * rne (x - s))"
  have pos: "0 \<le> u" "0 \<le> h" "0 \<le> k" using s by (auto simp: u_def h_def k_def intro: rne.rnd_nonneg)
  have "rne (c * rne (x - s)) \<le> h"
    using snoc.prems s unfolding h_def by (intro diffusion_term_le) (auto simp: w)
  moreover have "diffusion_sum s ws \<le> k * h * (1 + u) ^ length ws"
    using snoc by (simp add: k_def h_def u_def)
  moreover have "1 \<le> (1 + u) ^ length ws" using pos by simp
  then have "h * 1 \<le> h * (1 + u) ^ length ws" using pos by (intro mult_left_mono)
  ultimately have t: "t \<le> (k + 1) * h * (1 + u) ^ length ws"
    unfolding t_def by (simp add: distrib_right)
  have b: "0 \<le> (k + 1) * h * (1 + u) ^ length ws" using pos by simp
  have "\<bar>rne t - t\<bar> \<le> u * \<bar>t\<bar>"
    unfolding t_def u_def by (rule rne_add_rel_error [OF diffusion_sum_repr is_repr_rne])
  then have "rne t \<le> (1 + u) * max 0 t"
    using rne.rnd_nonpos [of t] by (cases "0 \<le> t") (auto simp: distrib_right abs_le_iff)
  also have "\<dots> \<le> (1 + u) * ((k + 1) * h * (1 + u) ^ length ws)"
    using t b pos by (intro mult_left_mono) auto
  finally have "rne t \<le> (k + 1) * h * (1 + u) ^ Suc (length ws)" by (simp add: ac_simps)
  then show ?case by (simp add: w diffusion_sum_snoc t_def h_def k_def u_def add.commute)
qed simp

lemma diffused_le:
  assumes ws: "\<forall>(c, x) \<in> set ws. 0 \<le> c \<and> c \<le> 1 \<and> x \<le> hi" and s: "s \<le> hi"
    and repr: "is_repr s" "is_repr hi"
    and a: "0 \<le> a" "a * of_nat (length ws) \<le> 4 / 5 + 1 / 10 ^ 15" and small: "length ws < 2 ^ 31"
  shows "diffused a s ws \<le> hi"
proof -
  define h g where "h = rne (hi - s)" and "g = (1 + p2 (- 53)) ^ length ws"
  have h: "0 \<le> h" unfolding h_def using s by (intro rne.rnd_nonneg) simp
  have g: "0 \<le> g" "g \<le> 101 / 100" using growth_bound [OF small] by (simp_all add: g_def)
  obtain m n where mn: "hi = of_int m * p2 (- 1074)" "s = of_int n * p2 (- 1074)"
    using repr is_repr_multiple by blast
  have y: "hi - s = of_int (m - n) * p2 (- 1074)" by (simp add: mn left_diff_distrib)
  have "\<bar>h - (hi - s)\<bar> \<le> p2 (- 53) * \<bar>hi - s\<bar>"
    unfolding h_def by (rule rne_rel_error_multiple [OF y])
  also have "\<dots> \<le> 1 / 1024 * \<bar>hi - s\<bar>" using u_tiny by (intro mult_right_mono) simp_all
  finally have "\<bar>h - (hi - s)\<bar> \<le> 1 / 1024 * (hi - s)" using s by simp
  from abs_le_D1 [OF this] have hd: "h \<le> 1025 / 1024 * (hi - s)" by (simp add: field_simps)
  have "a * diffusion_sum s ws \<le> a * (of_nat (length ws) * h * g)"
    using diffusion_sum_le [OF ws s] a(1) unfolding h_def g_def by (rule mult_left_mono)
  also have "\<dots> = (a * of_nat (length ws)) * (h * g)" by (simp add: ac_simps)
  also have "\<dots> \<le> (4 / 5 + 1 / 10 ^ 15) * (h * g)" using a(2) h g by (intro mult_right_mono) simp_all
  also have "\<dots> \<le> (4 / 5 + 1 / 10 ^ 15) * (h * (101 / 100))"
    using h g by (intro mult_left_mono) simp_all
  also have "\<dots> \<le> 82 / 100 * h" using h by (simp add: field_simps)
  finally have bound: "a * diffusion_sum s ws \<le> 82 / 100 * h" .
  have "a * diffusion_sum s ws \<le> 17 / 20 * y" if "h \<le> 1025 / 1024 * y" "0 \<le> y" for y
    using bound that by linarith
  from this [OF hd] have "a * diffusion_sum s ws \<le> 17 / 20 * (hi - s)" using s by simp
  then have "rne (a * diffusion_sum s ws) \<le> hi - s" using s by (intro rne_with_room [OF y]) simp_all
  then show ?thesis
    unfolding diffused_def using repr(2) by (intro rne.rnd_le) (simp_all add: is_repr_def)
qed

lemma diffused_ge:
  assumes ws: "\<forall>(c, x) \<in> set ws. 0 \<le> c \<and> c \<le> 1 \<and> lo \<le> x" and s: "lo \<le> s"
    and repr: "is_repr s" "is_repr lo"
    and a: "0 \<le> a" "a * of_nat (length ws) \<le> 4 / 5 + 1 / 10 ^ 15" and small: "length ws < 2 ^ 31"
  shows "lo \<le> diffused a s ws"
proof -
  define ws' where "ws' = map (\<lambda>(c, x). (c, - x)) ws"
  have "diffused a (- s) ws' \<le> - lo"
    using assms by (intro diffused_le) (auto simp: ws'_def)
  moreover have "diffused a (- s) ws' = - diffused a s ws"
    using rne_minus [of "a * diffusion_sum s ws"] rne_minus [of "s + rne (a * diffusion_sum s ws)"]
    by (simp add: diffused_def ws'_def diffusion_sum_mirror)
  ultimately show ?thesis by simp
qed

section \<open>From doubles to rationals\<close>

lemma plus_finite:
  "isfinite (x + y) \<Longrightarrow> isfinite x \<and> isfinite y \<and> val (x + y) = rne (val x + val (y :: f64))"
  by (cases x; cases y) (auto simp: rnd64_def to_f64_def)

lemma minus_finite:
  "isfinite (x - y) \<Longrightarrow> isfinite x \<and> isfinite y \<and> val (x - y) = rne (val x - val (y :: f64))"
  by (cases x; cases y) (auto simp: minus_f64_def rnd64_def to_f64_def)

lemma infinite_sign: "\<not> isfinite (inf_of_sign s)"
  by (simp add: inf_of_sign_def)

lemma times_finite:
  "isfinite (x * y) \<Longrightarrow> isfinite x \<and> isfinite y \<and> val (x * y) = rne (val x * val (y :: f64))"
  by (cases x; cases y) (auto simp: infinite_sign rnd64_def to_f64_def)

lemma fold_plus_finite:
  assumes "isfinite (fold (\<lambda>(_, t) acc. acc + t) ps 0)"
    and "list_all2 (\<lambda>(_, t) (c, x). t = c * (x - s)) ps ws"
  shows "val (fold (\<lambda>(_, t) acc. acc + t) ps 0) = diffusion_sum (val s) (map (\<lambda>(c, x). (val c, val x)) ws)"
  using assms(2,1)
proof (induction ps arbitrary: ws rule: rev_induct)
  case (snoc p ps)
  then obtain ws0 c x where ws: "ws = ws0 @ [(c, x)]" "snd p = c * (x - s)"
    "list_all2 (\<lambda>(_, t) (c, x). t = c * (x - s)) ps ws0"
    by (cases p) (auto simp: list_all2_append1 list_all2_Cons1)
  have fin: "isfinite (fold (\<lambda>(_, t) acc. acc + t) ps 0 + c * (x - s))"
    using snoc.prems(2) ws(2) by (cases p) simp
  have t: "isfinite (c * (x - s))" using plus_finite [OF fin] by blast
  have "val (fold (\<lambda>(_, t) acc. acc + t) ps 0) = diffusion_sum (val s) (map (\<lambda>(c, x). (val c, val x)) ws0)"
    using snoc.IH [OF ws(3)] plus_finite [OF fin] by blast
  then show ?case
    using plus_finite [OF fin] times_finite [OF t] minus_finite [of x s] ws(2)
    by (cases p) (simp add: ws(1) diffusion_sum_snoc)
qed simp

section \<open>A node keeps within its neighbourhood\<close>

definition neighbourhood :: "node list \<Rightarrow> node \<Rightarrow> f64 list" where
  "neighbourhood ns n = state n # map (\<lambda>b. state (ns ! nat (targetNodeId b))) (bridges n)"

lemma coupling_unit:
  assumes "getEffectiveCoupling b = Inr c"
  shows "0 \<le> c \<and> c \<le> 1"
proof -
  have ok: "bridge_ok b" using assms by (rule getEffectiveCoupling_Inr_bridge_ok)
  then have "c = capacity b * (1 / (1 + dec 1 1 * distance b)) * orientationWeight b"
    using assms getEffectiveCoupling_eq [OF ok] by simp
  then show ?thesis using ok coupling_value_unit by (simp add: bridge_ok_def)
qed

lemma reference_bridge_term:
  assumes "reference_bridge ns n b = Inr p"
  obtains c where "0 \<le> c" "c \<le> 1" "snd p = c * (state (ns ! nat (targetNodeId b)) - state n)"
proof -
  obtain nb c where "getEffectiveCoupling nb = Inr c" "snd p = c * (state (ns ! nat (targetNodeId b)) - state n)"
    using assms unfolding reference_bridge_def result_simps Let_def by auto
  then show thesis using that coupling_unit by blast
qed

text \<open>The terms of a node as pairs of a coupling in the unit interval and a neighbour's state.\<close>

lemma reference_terms:
  assumes "map_result (reference_bridge ns n) bs = Inr ps"
  shows "\<exists>ws. map snd ws = map (\<lambda>b. state (ns ! nat (targetNodeId b))) bs \<and>
    (\<forall>(c, x) \<in> set ws. 0 \<le> c \<and> c \<le> 1) \<and> list_all2 (\<lambda>(_, t) (c, x). t = c * (x - state n)) ps ws"
  using assms
proof (induction bs arbitrary: ps)
  case (Cons b bs)
  then obtain p ps' where p: "ps = p # ps'" "reference_bridge ns n b = Inr p"
    "map_result (reference_bridge ns n) bs = Inr ps'"
    by (auto simp: result_simps)
  obtain ws where ws: "map snd ws = map (\<lambda>b. state (ns ! nat (targetNodeId b))) bs"
    "\<forall>(c, x) \<in> set ws. 0 \<le> c \<and> c \<le> 1" "list_all2 (\<lambda>(_, t) (c, x). t = c * (x - state n)) ps' ws"
    using Cons.IH [OF p(3)] by blast
  obtain c where c: "0 \<le> c" "c \<le> 1" "snd p = c * (state (ns ! nat (targetNodeId b)) - state n)"
    using p(2) by (rule reference_bridge_term)
  show ?case
    by (rule exI [of _ "(c, state (ns ! nat (targetNodeId b))) # ws"])
      (use ws c in \<open>cases p; simp add: p(1)\<close>)
qed simp

lemma reference_node_state:
  assumes "reference_node ns a n = Inr n'"
  obtains ps where "map_result (reference_bridge ns n) (bridges n) = Inr ps"
    "state n' = state n + a * fold (\<lambda>(_, t) acc. acc + t) ps 0" "isfinite (state n')"
proof -
  obtain ps where "map_result (reference_bridge ns n) (bridges n) = Inr ps"
    "isfinite (state n + a * fold (\<lambda>(_, t) acc. acc + t) ps 0)"
    "updateHealth (n\<lparr>state := state n + a * fold (\<lambda>(_, t) acc. acc + t) ps 0, bridges := map fst ps\<rparr>) = Inr n'"
    using assms unfolding reference_node_def result_simps Let_def by auto
  then show thesis using that by (auto simp: updateHealth_Inr_iff)
qed

text \<open>The new state is the rounded diffusion of exact values.\<close>

lemma reference_node_diffused:
  assumes "reference_node ns a n = Inr n'"
  obtains ws where "val (state n') = diffused (val a) (val (state n)) ws" "isfinite (state n')"
    "map snd ws = map (\<lambda>b. val (state (ns ! nat (targetNodeId b)))) (bridges n)"
    "\<forall>(c, x) \<in> set ws. 0 \<le> c \<and> c \<le> 1"
proof -
  obtain ps where ps: "map_result (reference_bridge ns n) (bridges n) = Inr ps"
    and st: "state n' = state n + a * fold (\<lambda>(_, t) acc. acc + t) ps 0" and fin: "isfinite (state n')"
    using assms by (rule reference_node_state)
  obtain ws where ws: "map snd ws = map (\<lambda>b. state (ns ! nat (targetNodeId b))) (bridges n)"
    "\<forall>(c, x) \<in> set ws. 0 \<le> c \<and> c \<le> 1" "list_all2 (\<lambda>(_, t) (c, x). t = c * (x - state n)) ps ws"
    using reference_terms [OF ps] by blast
  note sum = plus_finite [OF fin [unfolded st]]
  have prod: "isfinite (a * fold (\<lambda>(_, t) acc. acc + t) ps 0)" using sum by blast
  note prod = times_finite [OF this]
  have "val (fold (\<lambda>(_, t) acc. acc + t) ps 0) = diffusion_sum (val (state n)) (map (\<lambda>(c, x). (val c, val x)) ws)"
    using prod ws(3) by (intro fold_plus_finite) blast+
  then have "val (state n') = diffused (val a) (val (state n)) (map (\<lambda>(c, x). (val c, val x)) ws)"
    using sum prod by (simp add: st diffused_def)
  moreover have "map snd (map (\<lambda>(c, x). (val c, val x)) ws) = map (\<lambda>b. val (state (ns ! nat (targetNodeId b)))) (bridges n)"
  proof -
    have "map snd (map (\<lambda>(c, x). (val c, val x)) ws) = map val (map snd ws)" by (simp add: split_def)
    then show ?thesis by (simp add: ws(1))
  qed
  moreover have "\<forall>(c, x) \<in> set (map (\<lambda>(c, x). (val c, val x)) ws). 0 \<le> c \<and> c \<le> 1"
    using ws(2) unit_iff by fastforce
  ultimately show thesis using that fin by blast
qed

lemma mesh_state_repr:
  assumes "nodes_ok ns" "i < length ns"
  shows "is_repr (val (state (ns ! i)))" "isfinite (state (ns ! i))"
  using nodes_okD(1) [OF assms] by (auto simp: node_wf_def node_data_ok_def isfinite_iff)

lemma neighbourhood_members:
  assumes "nodes_ok ns" "i < length ns" "x \<in> set (neighbourhood ns (ns ! i))"
  obtains j where "j < length ns" "x = state (ns ! j)"
proof (cases "x = state (ns ! i)")
  case False
  then obtain b where b: "b \<in> set (bridges (ns ! i))" "x = state (ns ! nat (targetNodeId b))"
    using assms(3) by (auto simp: neighbourhood_def)
  then have "nat (targetNodeId b) < length ns" using nodes_ok_bridge [OF assms(1,2) b(1)] by (auto simp: bridge_wf_def)
  then show thesis using that b(2) by blast
qed (use that assms(2) in blast)

lemma reference_node_keeps:
  assumes ok: "mesh_ok m" and i: "i < length (nodes m)"
    and run: "reference_node (nodes m) (alpha m) (nodes m ! i) = Inr n'"
  shows "\<exists>x \<in> set (neighbourhood (nodes m) (nodes m ! i)). x \<le> state n'"
    and "\<exists>y \<in> set (neighbourhood (nodes m) (nodes m ! i)). state n' \<le> y"
proof -
  define nb n where "nb = set (neighbourhood (nodes m) (nodes m ! i))" and "n = nodes m ! i"
  have nok: "nodes_ok (nodes m)" using ok by (simp add: mesh_ok_def)
  have mem: "n \<in> set (nodes m)" using i by (simp add: n_def)
  obtain ws where v: "val (state n') = diffused (val (alpha m)) (val (state n)) ws" "isfinite (state n')"
    and ws: "map snd ws = map (\<lambda>b. val (state (nodes m ! nat (targetNodeId b)))) (bridges n)"
    "\<forall>(c, x) \<in> set ws. 0 \<le> c \<and> c \<le> 1"
    using reference_node_diffused [OF run] unfolding n_def by blast
  have l: "length ws = length (bridges n)" using ws(1) by (rule map_eq_imp_length_eq)
  have a: "0 \<le> val (alpha m)" "val (alpha m) * of_nat (length ws) \<le> 4 / 5 + 1 / 10 ^ 15"
    using mesh_alpha [OF ok] mem l by auto
  have small: "length ws < 2 ^ 31"
    using degree_bound [OF nok mem] nodes_okD(2) [OF nok i] l by linarith
  have fin: "finite (val ` nb)" "val ` nb \<noteq> {}" by (simp_all add: nb_def neighbourhood_def)
  have nb: "\<exists>x \<in> nb. y = val x \<and> is_repr (val x) \<and> isfinite x" if "y \<in> val ` nb" for y
  proof -
    obtain x where x: "x \<in> nb" "y = val x" using \<open>y \<in> val ` nb\<close> by blast
    obtain j where "j < length (nodes m)" "x = state (nodes m ! j)"
      using neighbourhood_members [OF nok i x(1) [unfolded nb_def]] .
    then show ?thesis using x mesh_state_repr [OF nok] by blast
  qed
  have self: "val (state n) \<in> val ` nb" by (simp add: nb_def neighbourhood_def n_def)
  have repr: "is_repr (val (state n))" using mesh_state_repr(1) [OF nok i] by (simp add: n_def)
  have wsin: "x \<in> val ` nb" if "(c, x) \<in> set ws" for c x
  proof -
    have "x \<in> set (map snd ws)" using that by force
    then show ?thesis by (auto simp: ws(1) nb_def neighbourhood_def n_def)
  qed
  obtain y where y: "y \<in> nb" "Max (val ` nb) = val y" "is_repr (val y)" "isfinite y"
    using nb [OF Max_in [OF fin]] by blast
  have top: "z \<le> val y" if "z \<in> val ` nb" for z using Max_ge [OF fin(1) that] by (simp only: y(2))
  have "\<forall>(c, z) \<in> set ws. 0 \<le> c \<and> c \<le> 1 \<and> z \<le> val y" using ws(2) wsin top by blast
  from diffused_le [OF this top [OF self] repr y(3) a small] have "val (state n') \<le> val y"
    by (simp only: v(1))
  then have "state n' \<le> y" using y(4) v(2) by (auto simp: isfinite_iff)
  then show "\<exists>y \<in> set (neighbourhood (nodes m) (nodes m ! i)). state n' \<le> y"
    using y(1) unfolding nb_def by blast
  obtain x where x: "x \<in> nb" "Min (val ` nb) = val x" "is_repr (val x)" "isfinite x"
    using nb [OF Min_in [OF fin]] by blast
  have bot: "val x \<le> z" if "z \<in> val ` nb" for z using Min_le [OF fin(1) that] by (simp only: x(2))
  have "\<forall>(c, z) \<in> set ws. 0 \<le> c \<and> c \<le> 1 \<and> val x \<le> z" using ws(2) wsin bot by blast
  from diffused_ge [OF this bot [OF self] repr x(3) a small] have "val x \<le> val (state n')"
    by (simp only: v(1))
  then have "x \<le> state n'" using x(4) v(2) by (auto simp: isfinite_iff)
  then show "\<exists>x \<in> set (neighbourhood (nodes m) (nodes m ! i)). x \<le> state n'"
    using x(1) unfolding nb_def by blast
qed

lemma step_keeps_range:
  assumes "mesh_ok m" "step_resources P" "schedule (pool_size P m) sched"
    and "simulationStep P sched m = (Inr u, m')"
  shows "list_all2 (\<lambda>n n'. (\<exists>x \<in> set (neighbourhood (nodes m) n). x \<le> state n') \<and>
    (\<exists>y \<in> set (neighbourhood (nodes m) n). state n' \<le> y)) (nodes m) (nodes m')"
proof -
  have "reference_step (nodes m) (alpha m) = Inr (nodes m')"
    using step_is_reference [OF assms(1-3)] unfolding assms(4)
    by (cases "reference_step (nodes m) (alpha m)") (simp_all add: is_ok_def)
  then have run: "list_all2 (\<lambda>n n'. reference_node (nodes m) (alpha m) n = Inr n') (nodes m) (nodes m')"
    by (simp add: reference_step_def map_result_Inr)
  show ?thesis
  proof (rule list_all2_all_nthI [OF list_all2_lengthD [OF run]])
    fix i assume i: "i < length (nodes m)"
    note keeps = reference_node_keeps [OF assms(1) i list_all2_nthD [OF run i]]
    show "(\<exists>x \<in> set (neighbourhood (nodes m) (nodes m ! i)). x \<le> state (nodes m' ! i)) \<and>
        (\<exists>y \<in> set (neighbourhood (nodes m) (nodes m ! i)). state (nodes m' ! i) \<le> y)"
      using keeps by (rule conjI)
  qed
qed

lemma scratch_nodes: "scratch_only m m' \<Longrightarrow> nodes m' = nodes m"
  unfolding scratch_only_def by (drule arg_cong [of _ _ nodes]) simp

section \<open>Claims\<close>

text \<open> C3. Discrete maximum principle, in doubles: a simulation step that succeeds puts the new state of
  every node between the least and the greatest of its own old state and those of its neighbours,
  with no error term for the rounding, so the range of all states never grows; a step that throws
  leaves every state as it was.
\<close>

theorem step_maximum_principle:
  assumes "mesh_ok m" and "step_resources P" and "schedule (pool_size P m) sched"
  shows "case simulationStep P sched m of
      (Inr _, m') \<Rightarrow> list_all2 (\<lambda>n n'. (\<exists>x \<in> set (neighbourhood (nodes m) n). x \<le> state n') \<and>
        (\<exists>y \<in> set (neighbourhood (nodes m) n). state n' \<le> y)) (nodes m) (nodes m')
    | (Inl _, m') \<Rightarrow> nodes m' = nodes m"
  using step_keeps_range [OF assms] simulationStep_fails_scratch [of P sched m]
  using scratch_nodes by (auto split: prod.splits sum.splits)

text \<open>Two linked nodes at rest and a third stay at rest.\<close>

lemma push_bridge_states: "map state (fold push_bridge es ns) = map state ns"
  by (rule nth_equalityI) (simp_all add: push_bridges_nth)

lemma connected_states: "map state (nodes (snd (connectNodePairs P cs m))) = map state (nodes m)"
  by (auto simp: connectNodePairs_def connectPairsUnlocked_def Let_def enforceStabilityConditionUnlocked_def
      push_bridge_states split: sum.splits prod.splits)

theorem step_maximum_principle_witness:
  "list_all (\<lambda>n. state n = 0) (nodes (snd (simulationStep roomy_platform
     (rev [0 ..< pool_size roomy_platform connected_mesh]) connected_mesh)))"
proof -
  have rest: "map state (nodes connected_mesh) = [0, 0, 0]"
    unfolding connected_mesh_def connected_states by (simp add: nodes_three sample_node_def)
  then have all: "state n = 0" if "n \<in> set (nodes connected_mesh)" for n
    using that by (metis in_set_conv_nth length_map list.set_intros nth_map set_ConsD empty_iff list.set(1) nth_mem)
  have nb: "x = 0" if "n \<in> set (nodes connected_mesh)" "x \<in> set (neighbourhood (nodes connected_mesh) n)" for n x
  proof -
    have nok: "nodes_ok (nodes connected_mesh)" using connected_mesh_ok by (simp add: mesh_ok_def)
    obtain i where i: "i < length (nodes connected_mesh)" "n = nodes connected_mesh ! i"
      using \<open>n \<in> set (nodes connected_mesh)\<close> by (metis in_set_conv_nth)
    show ?thesis using neighbourhood_members [OF nok i(1)] that(2) all unfolding i(2) by (metis nth_mem)
  qed
  have sched: "schedule (pool_size roomy_platform connected_mesh) (rev [0 ..< pool_size roomy_platform connected_mesh])"
    by (auto simp: schedule_def)
  have zero: "s = 0" if "x \<le> s" "s \<le> y" "x = 0" "y = (0 :: f64)" for s x y
    using that by (cases s) (auto simp: zero_f64_def)
  obtain r m' where run: "simulationStep roomy_platform (rev [0 ..< pool_size roomy_platform connected_mesh]) connected_mesh = (r, m')"
    by (cases "simulationStep roomy_platform (rev [0 ..< pool_size roomy_platform connected_mesh]) connected_mesh")
  show ?thesis
  proof (cases r)
    case (Inl e)
    then have "nodes m' = nodes connected_mesh"
      using step_maximum_principle [OF connected_mesh_ok roomy_step sched] run by simp
    then show ?thesis using run all by (simp add: list_all_iff)
  next
    case (Inr u)
    then have "list_all2 (\<lambda>n n'. (\<exists>x \<in> set (neighbourhood (nodes connected_mesh) n). x \<le> state n') \<and>
        (\<exists>y \<in> set (neighbourhood (nodes connected_mesh) n). state n' \<le> y)) (nodes connected_mesh) (nodes m')"
      using step_maximum_principle [OF connected_mesh_ok roomy_step sched] run by simp
    note range = this
    have "state n' = 0" if n': "n' \<in> set (nodes m')" for n'
    proof -
      obtain i where i: "i < length (nodes m')" "n' = nodes m' ! i" using n' by (metis in_set_conv_nth)
      then have l: "i < length (nodes connected_mesh)" using list_all2_lengthD [OF range] by simp
      show ?thesis
        using list_all2_nthD [OF range l] nb [OF nth_mem [OF l]] zero unfolding i(2) by blast
    qed
    then have "list_all (\<lambda>n. state n = 0) (nodes m')" by (simp add: list_all_iff)
    then show ?thesis by (simp add: run)
  qed
qed

section \<open>Where the documentation differs\<close>

text \<open>
  \<open>docs/mathematics.md\<close> bounds the coefficient by \<open>0.8 / D_max\<close>. With five bridges per node the rounded
  coefficient lies above that; \<open>stability_condition\<close> gives the bound that does hold.
\<close>

lemma cfl_limit_exceeded:
  assumes "max_degree ns = 5"
  shows "4 / 5 < val (stability_alpha ns) * 5"
proof -
  have "stability_alpha ns = std_min (dec 2 1) ((1 / f64_of_nat 5) * dec 8 1)"
    using assms by (simp add: stability_alpha_def Let_def)
  moreover have "4 / 5 < val (std_min (dec 2 1) ((1 / f64_of_nat 5) * dec 8 1)) * 5" by code_simp
  ultimately show ?thesis by (simp only:)
qed

text \<open>
  The same document assumes symmetric transmission weights. The two directions of a link between
  nodes of different height have different orientation factors, here one and zero.
\<close>

definition above :: vec3 where
  "above = \<lparr>vx = 0, vy = 0, vz = 1\<rparr>"

lemma orientation_asymmetric:
  "orientationFactorTo hypot_cr (point 0) above = Inr 1"
  "orientationFactorTo hypot_cr above (point 0) = Inr 0"
proof -
  have repr: "wf64 (Fin 1)" "wf64 (Fin (- 1))"
    using wf64_rnd64 [of 1] wf64_rnd64 [of "- 1"] by (simp_all del: wf64_rnd64)
  have h: "hypot_cr (Fin 0) (Fin 0) = Fin 0"
    using hypot_cr.hypot_zero [of 0] by (simp add: zero_f64_def del: hypot_cr.simps)
  have h1: "hypot_cr (Fin 0) (Fin (- 1)) = Fin 1"
    using hypot_cr.hypot_comm [of "Fin 0" "Fin (- 1)"] hypot_cr.hypot_zero [OF repr(2)]
    by (simp add: zero_f64_def del: hypot_cr.simps)
  have m: "rnd64 (- 1) = Fin (- 1)" using rnd64_wf [OF repr(2)] .
  have d: "distanceTo hypot_cr (point 0) above = Inr 1"
    by (simp add: distanceTo_Inr_iff vec3_ok_def point_def above_def zero_f64_def one_f64_def fin_arith m h h1
        del: hypot_cr.simps)
  have d': "distanceTo hypot_cr above (point 0) = Inr 1" using d by (rule hypot_cr.distance_sym)
  obtain q where q: "dec 1 6 = Fin q" "q \<le> 1"
    using dec_unit [of 1 6] by (cases "dec 1 6") (simp_all add: one_f64_def)
  then have small: "\<not> 1 < dec 1 6" by (simp add: one_f64_def)
  have "is_repr (1 / 2)" using is_repr_scaled_int [of 1 "- 1"] by (simp add: power_int_minus)
  then have "rnd64 (1 / 2) = Fin (1 / 2)"
    using p2_1024_gt [of "1 / 2"] by (intro rnd64_wf) (simp only: wf64_simps ilog2_abs_less_iff, simp)
  then have five: "dec 5 (Suc 0) = Fin (1 / 2)" by (simp add: dec_def)
  have half: "dec 5 1 * (1 + (1 - 0) / 1) = 1" "dec 5 1 * (1 + (0 - 1) / 1) = 0"
    by (simp_all add: five zero_f64_def one_f64_def fin_arith m)
  show "orientationFactorTo hypot_cr (point 0) above = Inr 1" "orientationFactorTo hypot_cr above (point 0) = Inr 0"
    unfolding orientationFactorTo_def d d' rbind_simps if_not_P [OF small] using half
    by (simp_all add: point_def above_def)
qed

end
