(* ===== verification/Lease_Binding.thy ===== *)
theory Lease_Binding
  imports Evaluation_Laws
begin

text \<open>
  The binding between a mesh and the evaluators handed out for it
  (\<open>BindingState\<close>, \<open>EvaluationLease\<close> and \<open>ProductionTransitionEvaluationBinding\<close> of
  \<open>src/detail/production_transition_evaluation_internal.hpp\<close>, and \<open>ProductionTransitionEvaluator\<close>
  of \<open>src/production_transition_evaluator.cpp\<close>). An evaluator works under a lease; destroying the
  mesh stops new leases, waits until the outstanding ones are released, and only then drops the
  backend. Each step below is one critical section of the binding's mutex, or one access to a lease
  outside it: a release counts itself out under the lock and resets its two pointers after it has
  unlocked, so other threads may run in between. The wait is modelled with its condition variable:
  the drainer sleeps, and is woken by a notification or spuriously.
\<close>

section \<open>State and operations\<close>

record binding_state =
  backend_present :: bool
  activeLeases :: nat
  acceptingLeases :: bool

text \<open>
  A lease holds two shared pointers; the first two flags say which of them are set. The third is
  not a member of the class but the position of its owner inside \<open>release\<close>: it is set from the end
  of the critical section until the function returns.
\<close>

record lease =
  lease_state :: bool
  lease_backend :: bool
  lease_leaving :: bool

abbreviation empty_lease :: lease where
  "empty_lease \<equiv> \<lparr>lease_state = False, lease_backend = False, lease_leaving = False\<rparr>"

abbreviation full_lease :: lease where
  "full_lease \<equiv> \<lparr>lease_state = True, lease_backend = True, lease_leaving = False\<rparr>"

text \<open>
  The lease lets its owner call the backend: \<open>operator bool\<close> holds, and the owner is not inside
  \<open>release\<close>, after whose critical section the source no longer dereferences the pointer.
\<close>

definition lease_usable :: "lease \<Rightarrow> bool" where
  "lease_usable l \<longleftrightarrow> lease_backend l \<and> \<not> lease_leaving l"

definition new_binding :: binding_state where
  "new_binding = \<lparr>backend_present = True, activeLeases = 0, acceptingLeases = True\<rparr>"

text \<open>The first argument says whether the handle still refers to a binding state.\<close>

definition acquireEvaluationLease :: "bool \<Rightarrow> binding_state \<Rightarrow> lease \<times> binding_state" where
  "acquireEvaluationLease has_state b =
    (if \<not> has_state then (empty_lease, b)
     else if \<not> acceptingLeases b \<or> \<not> backend_present b then (empty_lease, b)
     else (\<lparr>lease_state = True, lease_backend = backend_present b, lease_leaving = False\<rparr>,
           b\<lparr>activeLeases := activeLeases b + 1\<rparr>))"

text \<open>
  The critical section of \<open>release\<close>, and the two resets after it. The boolean result says whether
  \<open>drained_\<close> is notified.
\<close>

definition lease_leave :: "lease \<Rightarrow> binding_state \<Rightarrow> lease \<times> binding_state \<times> bool" where
  "lease_leave l b =
    (if \<not> lease_state l then (l, b, False)
     else let b' = (if 0 < activeLeases b then b\<lparr>activeLeases := activeLeases b - 1\<rparr> else b)
          in (l\<lparr>lease_leaving := True\<rparr>, b', \<not> acceptingLeases b' \<and> activeLeases b' = 0))"

definition lease_drop_backend :: "lease \<Rightarrow> lease" where
  "lease_drop_backend l = l\<lparr>lease_backend := False\<rparr>"

definition lease_drop_state :: "lease \<Rightarrow> lease" where
  "lease_drop_state l = l\<lparr>lease_state := False, lease_leaving := False\<rparr>"

text \<open>The whole function, run without interference.\<close>

definition lease_release :: "lease \<Rightarrow> binding_state \<Rightarrow> lease \<times> binding_state \<times> bool" where
  "lease_release l b =
    (case lease_leave l b of (l1, b1, notified) \<Rightarrow>
       (if lease_leaving l1 then lease_drop_state (lease_drop_backend l1) else l1, b1, notified))"

definition lease_move_construct :: "lease \<Rightarrow> lease \<times> lease" where
  "lease_move_construct other = (other, empty_lease)"

definition lease_move_assign ::
  "lease \<Rightarrow> lease \<Rightarrow> binding_state \<Rightarrow> lease \<times> lease \<times> binding_state \<times> bool" where
  "lease_move_assign this other b =
     (let (_, b', notified) = lease_release this b in (other, empty_lease, b', notified))"

datatype drain_phase = Open | Asleep | Awake | Drained

text \<open>The predicate wait, from the check on; it ends by dropping the backend.\<close>

definition drain_check :: "binding_state \<Rightarrow> drain_phase \<times> binding_state" where
  "drain_check b = (if activeLeases b = 0 then (Drained, b\<lparr>backend_present := False\<rparr>) else (Asleep, b))"

definition invalidateAndDrain :: "binding_state \<Rightarrow> drain_phase \<times> binding_state" where
  "invalidateAndDrain b = drain_check (b\<lparr>acceptingLeases := False\<rparr>)"

text \<open>
  \<open>ProductionTransitionEvaluator::evaluate\<close> run without interference: the lease is released when
  the scope is left, by return or by exception.
\<close>

definition evaluator_evaluate ::
  "'s backend \<Rightarrow> bool \<Rightarrow> locator \<Rightarrow> (binding_state \<times> 's, transition_evaluation) action" where
  "evaluator_evaluate B has_state loc = (\<lambda>(b, s).
     let (l, b1) = acquireEvaluationLease has_state b
     in if \<not> lease_backend l then (Inr Ev_not_eligible, (fst (snd (lease_release l b1)), s))
        else let (r, s') = orchestrator_evaluate B loc s
             in (r, (fst (snd (lease_release l b1)), s')))"

lemma evaluator_evaluate_eq:
  "evaluator_evaluate B has_state loc (b, s) =
     (if has_state \<and> acceptingLeases b \<and> backend_present b
      then (fst (orchestrator_evaluate B loc s), (b, snd (orchestrator_evaluate B loc s)))
      else (Inr Ev_not_eligible, (b, s)))"
  by (simp add: evaluator_evaluate_def acquireEvaluationLease_def lease_release_def lease_leave_def
      Let_def split_beta)

section \<open>Interleavings\<close>

record lease_world =
  binding_of :: binding_state
  leases :: "nat \<Rightarrow> lease"
  phase :: drain_phase

definition wake :: "bool \<Rightarrow> drain_phase \<Rightarrow> drain_phase" where
  "wake notified ph = (if notified \<and> ph = Asleep then Awake else ph)"

text \<open>
  Leases live in numbered slots, empty ones included. A slot must be empty before an acquired lease
  is constructed in it; a moved-from or released lease is an empty one. A lease belongs to one
  thread, which is inside \<open>release\<close> while the lease is leaving: until then it may be moved, after
  that only its resets follow. A move assignment is the steps of a release and then a move into the
  emptied slot.
\<close>

inductive lease_step :: "lease_world \<Rightarrow> lease_world \<Rightarrow> bool" where
  acquire: "leases w i = empty_lease \<Longrightarrow>
    acquireEvaluationLease h (binding_of w) = (l, b) \<Longrightarrow>
    lease_step w (w\<lparr>binding_of := b, leases := (leases w)(i := l)\<rparr>)"
| leave: "\<not> lease_leaving (leases w i) \<Longrightarrow>
    lease_leave (leases w i) (binding_of w) = (l, b, n) \<Longrightarrow>
    lease_step w (w\<lparr>binding_of := b, leases := (leases w)(i := l), phase := wake n (phase w)\<rparr>)"
| drop_backend: "lease_leaving (leases w i) \<Longrightarrow> lease_backend (leases w i) \<Longrightarrow>
    lease_step w (w\<lparr>leases := (leases w)(i := lease_drop_backend (leases w i))\<rparr>)"
| drop_state: "lease_leaving (leases w i) \<Longrightarrow> \<not> lease_backend (leases w i) \<Longrightarrow>
    lease_step w (w\<lparr>leases := (leases w)(i := lease_drop_state (leases w i))\<rparr>)"
| move: "i \<noteq> j \<Longrightarrow> leases w i = empty_lease \<Longrightarrow> \<not> lease_leaving (leases w j) \<Longrightarrow>
    lease_move_construct (leases w j) = (l, l') \<Longrightarrow>
    lease_step w (w\<lparr>leases := (leases w)(i := l, j := l')\<rparr>)"
| drain: "phase w = Open \<or> phase w = Drained \<Longrightarrow> invalidateAndDrain (binding_of w) = (ph, b) \<Longrightarrow>
    lease_step w (w\<lparr>binding_of := b, phase := ph\<rparr>)"
| spurious: "phase w = Asleep \<Longrightarrow> lease_step w (w\<lparr>phase := Awake\<rparr>)"
| recheck: "phase w = Awake \<Longrightarrow> drain_check (binding_of w) = (ph, b) \<Longrightarrow>
    lease_step w (w\<lparr>binding_of := b, phase := ph\<rparr>)"

inductive_cases lease_step_cases: "lease_step w w'"

definition lease_initial :: lease_world where
  "lease_initial = \<lparr>binding_of = new_binding, leases = (\<lambda>_. empty_lease), phase = Open\<rparr>"

text \<open>The leases that the binding counts: acquired and not yet counted out.\<close>

definition held :: "lease_world \<Rightarrow> nat set" where
  "held w = {i. lease_state (leases w i) \<and> \<not> lease_leaving (leases w i)}"

definition lease_ok :: "lease \<Rightarrow> bool" where
  "lease_ok l \<longleftrightarrow> (if lease_leaving l then lease_state l else lease_backend l = lease_state l)"

definition lease_inv :: "lease_world \<Rightarrow> bool" where
  "lease_inv w \<longleftrightarrow> finite (held w) \<and> activeLeases (binding_of w) = card (held w) \<and>
     (\<forall>i. lease_ok (leases w i)) \<and>
     (held w \<noteq> {} \<longrightarrow> backend_present (binding_of w)) \<and>
     (acceptingLeases (binding_of w) = (phase w = Open)) \<and>
     (phase w = Asleep \<longrightarrow> held w \<noteq> {}) \<and>
     (phase w = Drained \<longrightarrow> held w = {}) \<and>
     (backend_present (binding_of w) = (phase w \<noteq> Drained))"

lemma lease_inv_initial: "lease_inv lease_initial"
  by (simp add: lease_inv_def lease_initial_def new_binding_def held_def lease_ok_def)

lemma empty_lease_iff: "l = empty_lease \<longleftrightarrow> \<not> lease_state l \<and> \<not> lease_backend l \<and> \<not> lease_leaving l"
  by (cases l) auto

lemma lease_ok_simps [simp]: "lease_ok empty_lease" "lease_ok full_lease"
  by (simp_all add: lease_ok_def)

lemma usable_held: "lease_inv w \<Longrightarrow> lease_usable (leases w i) \<longleftrightarrow> i \<in> held w"
  by (auto simp: lease_inv_def lease_ok_def lease_usable_def held_def)

lemma held_empty_slot: "lease_inv w \<Longrightarrow> \<not> lease_leaving (leases w i) \<Longrightarrow> i \<notin> held w \<Longrightarrow> leases w i = empty_lease"
  by (auto simp: lease_inv_def lease_ok_def held_def empty_lease_iff)

lemma inv_acquire:
  assumes "lease_inv w" "leases w i = empty_lease"
    "acquireEvaluationLease h (binding_of w) = (l, b)"
  shows "lease_inv (w\<lparr>binding_of := b, leases := (leases w)(i := l)\<rparr>)"
proof -
  have i: "i \<notin> held w" using assms(2) by (simp add: held_def)
  show ?thesis
  proof (cases "h \<and> acceptingLeases (binding_of w) \<and> backend_present (binding_of w)")
    case True
    then have l: "l = full_lease"
      and b: "b = (binding_of w)\<lparr>activeLeases := activeLeases (binding_of w) + 1\<rparr>"
      using assms(3) by (auto simp: acquireEvaluationLease_def)
    have "held (w\<lparr>binding_of := b, leases := (leases w)(i := l)\<rparr>) = insert i (held w)"
      by (auto simp: held_def l)
    then show ?thesis using assms(1) i True by (simp add: lease_inv_def l b)
  next
    case False
    then have "b = binding_of w" "l = empty_lease"
      using assms(3) by (auto simp: acquireEvaluationLease_def split: if_splits)
    then show ?thesis using assms(1,2) by (simp add: fun_upd_idem)
  qed
qed

lemma inv_leave:
  assumes "lease_inv w" "\<not> lease_leaving (leases w i)"
    "lease_leave (leases w i) (binding_of w) = (l, b, n)"
  shows "lease_inv (w\<lparr>binding_of := b, leases := (leases w)(i := l), phase := wake n (phase w)\<rparr>)"
    and "held (w\<lparr>binding_of := b, leases := (leases w)(i := l), phase := wake n (phase w)\<rparr>) = held w - {i}"
proof -
  let ?w = "w\<lparr>binding_of := b, leases := (leases w)(i := l), phase := wake n (phase w)\<rparr>"
  have "lease_inv ?w \<and> held ?w = held w - {i}"
  proof (cases "i \<in> held w")
    case True
    then have fin: "finite (held w)" and c: "card (held w - {i}) = card (held w) - 1"
      using assms(1) by (auto simp: lease_inv_def)
    have pos: "0 < card (held w)" using True fin by (auto simp: card_gt_0_iff)
    have st: "lease_state (leases w i)" using True by (simp add: held_def)
    have act: "activeLeases (binding_of w) = card (held w)" using assms(1) by (simp add: lease_inv_def)
    have "b = (binding_of w)\<lparr>activeLeases := card (held w) - 1\<rparr>"
      "n = (\<not> acceptingLeases (binding_of w) \<and> card (held w) - 1 = 0)"
      and l: "l = (leases w i)\<lparr>lease_leaving := True\<rparr>"
      using assms(3) pos st by (auto simp: lease_leave_def act Let_def)
    then have b: "b = (binding_of w)\<lparr>activeLeases := card (held w - {i})\<rparr>"
      and n: "n = (\<not> acceptingLeases (binding_of w) \<and> held w - {i} = {})"
      unfolding c [symmetric] using fin by auto
    have ok: "lease_ok l" by (simp add: l lease_ok_def st)
    have h: "held ?w = held w - {i}" by (auto simp: held_def l)
    show ?thesis using assms(1) True fin ok unfolding lease_inv_def h
      by (cases "phase w") (simp_all add: b n wake_def)
  next
    case False
    then have "leases w i = empty_lease" using held_empty_slot [OF assms(1,2)] by simp
    then have "b = binding_of w" "\<not> n" "l = leases w i"
      using assms(3) by (auto simp: lease_leave_def)
    then show ?thesis using assms(1) False by (simp add: wake_def fun_upd_idem)
  qed
  then show "lease_inv ?w" and "held ?w = held w - {i}" by simp_all
qed

text \<open>The two resets change neither the counted leases nor the binding.\<close>

lemma inv_drop:
  assumes "lease_inv w" "lease_leaving (leases w i)" "lease_ok l" "lease_leaving l \<or> \<not> lease_state l"
  shows "lease_inv (w\<lparr>leases := (leases w)(i := l)\<rparr>)" "held (w\<lparr>leases := (leases w)(i := l)\<rparr>) = held w"
proof -
  show h: "held (w\<lparr>leases := (leases w)(i := l)\<rparr>) = held w" using assms(2,4) by (auto simp: held_def)
  show "lease_inv (w\<lparr>leases := (leases w)(i := l)\<rparr>)"
    using assms(1,3) unfolding lease_inv_def h by auto
qed

lemma drop_ok:
  assumes "lease_inv w" "lease_leaving (leases w i)"
  shows "lease_ok (lease_drop_backend (leases w i))" "lease_leaving (lease_drop_backend (leases w i))"
    and "\<not> lease_backend (leases w i) \<Longrightarrow> lease_drop_state (leases w i) = empty_lease"
  using assms
  by (auto simp: lease_inv_def lease_ok_def lease_drop_backend_def lease_drop_state_def empty_lease_iff)

lemma held_move:
  assumes "i \<noteq> j" "leases w i = empty_lease"
  shows "held (w\<lparr>leases := (leases w)(i := leases w j, j := empty_lease)\<rparr>) =
    (if j \<in> held w then insert i (held w - {j}) else held w)"
  using assms by (auto simp: held_def)

lemma inv_move:
  assumes "lease_inv w" "i \<noteq> j" "leases w i = empty_lease" "\<not> lease_leaving (leases w j)"
  shows "lease_inv (w\<lparr>leases := (leases w)(i := leases w j, j := empty_lease)\<rparr>)"
proof (cases "j \<in> held w")
  case True
  have h: "held (w\<lparr>leases := (leases w)(i := leases w j, j := empty_lease)\<rparr>) = insert i (held w - {j})"
    using held_move [OF assms(2,3)] True by simp
  have "i \<notin> held w" using assms(3) by (simp add: held_def)
  moreover have "finite (held w)" using assms(1) by (simp add: lease_inv_def)
  ultimately have "card (insert i (held w - {j})) = card (held w)" "finite (insert i (held w - {j}))"
    "insert i (held w - {j}) \<noteq> {}" "held w \<noteq> {}"
    using card_Suc_Diff1 [of "held w" j] True by auto
  then show ?thesis using assms(1) h unfolding lease_inv_def by auto
next
  case False
  then have "leases w j = empty_lease" using held_empty_slot [OF assms(1,4)] by simp
  then show ?thesis using assms by (simp add: fun_upd_idem)
qed

lemma inv_drain_check:
  assumes "lease_inv w" "phase w \<noteq> Open" "drain_check (binding_of w) = (ph, b)"
  shows "lease_inv (w\<lparr>binding_of := b, phase := ph\<rparr>)"
  using assms by (auto simp: lease_inv_def drain_check_def held_def split: if_splits)

lemma lease_step_inv:
  assumes "lease_step w w'" and "lease_inv w"
  shows "lease_inv w'"
  using assms
proof (cases rule: lease_step.cases)
  case (acquire i h l b)
  then show ?thesis using inv_acquire assms(2) by simp
next
  case (leave i l b n)
  then show ?thesis using inv_leave(1) assms(2) by simp
next
  case (drop_backend i)
  then show ?thesis using inv_drop(1) [OF assms(2)] drop_ok [OF assms(2)] by simp
next
  case (drop_state i)
  then show ?thesis using inv_drop(1) [OF assms(2)] drop_ok(3) [OF assms(2)] by simp
next
  case (move i j l l')
  then show ?thesis using inv_move [OF assms(2) move(2-4)] by (simp add: lease_move_construct_def)
next
  case (drain ph b)
  define v where "v = w\<lparr>binding_of := (binding_of w)\<lparr>acceptingLeases := False\<rparr>, phase := Awake\<rparr>"
  show ?thesis
  proof (cases "phase w = Open")
    case True
    then have "lease_inv v" using assms(2) by (auto simp: lease_inv_def v_def held_def)
    then have "lease_inv (v\<lparr>binding_of := b, phase := ph\<rparr>)"
      using drain(3) by (intro inv_drain_check) (simp_all add: v_def invalidateAndDrain_def)
    then show ?thesis using drain(1) by (simp add: v_def)
  next
    case False
    then show ?thesis using assms(2) drain
      by (auto simp: lease_inv_def invalidateAndDrain_def drain_check_def held_def)
  qed
next
  case spurious
  then show ?thesis using assms(2) by (simp add: lease_inv_def held_def)
next
  case (recheck ph b)
  then show ?thesis using inv_drain_check [OF assms(2)] by simp
qed

inductive lease_reachable :: "lease_world \<Rightarrow> bool" where
  start: "lease_reachable lease_initial"
| step: "lease_reachable w \<Longrightarrow> lease_step w w' \<Longrightarrow> lease_reachable w'"

lemma lease_reachable_inv: "lease_reachable w \<Longrightarrow> lease_inv w"
  by (induction rule: lease_reachable.induct) (auto intro: lease_inv_initial lease_step_inv)

section \<open>The functions as paths\<close>

text \<open>
  The uninterrupted \<open>release\<close> and move assignment, which the sequential code above uses, are runs of
  the step relation in which no other thread intervenes.
\<close>

lemma release_path:
  assumes "lease_inv w" "\<not> lease_leaving (leases w i)"
    "lease_release (leases w i) (binding_of w) = (l, b, n)"
  shows "lease_step\<^sup>*\<^sup>* w (w\<lparr>binding_of := b, leases := (leases w)(i := l), phase := wake n (phase w)\<rparr>)"
    "l = empty_lease"
proof -
  obtain l1 where le: "lease_leave (leases w i) (binding_of w) = (l1, b, n)"
    and l: "l = (if lease_leaving l1 then lease_drop_state (lease_drop_backend l1) else l1)"
    using assms(3) by (auto simp: lease_release_def split: prod.splits)
  define w1 where "w1 = w\<lparr>binding_of := b, leases := (leases w)(i := l1), phase := wake n (phase w)\<rparr>"
  have eq: "w\<lparr>binding_of := b, leases := (leases w)(i := l), phase := wake n (phase w)\<rparr> =
      w1\<lparr>leases := (leases w1)(i := l)\<rparr>" by (simp add: w1_def)
  have s1: "lease_step w w1" unfolding w1_def by (rule lease_step.leave [OF assms(2) le])
  have "lease_step\<^sup>*\<^sup>* w (w1\<lparr>leases := (leases w1)(i := l)\<rparr>) \<and> l = empty_lease"
  proof (cases "lease_state (leases w i)")
    case True
    have "lease_backend (leases w i)" using assms(1,2) True by (simp add: lease_inv_def lease_ok_def)
    then have l1: "lease_leaving l1" "lease_backend l1"
      using le True by (auto simp: lease_leave_def Let_def)
    let ?w2 = "w1\<lparr>leases := (leases w1)(i := lease_drop_backend l1)\<rparr>"
    have s2: "lease_step w1 ?w2"
      using lease_step.drop_backend [of w1 i] l1 by (simp add: w1_def)
    have s3: "lease_step ?w2 (?w2\<lparr>leases := (leases ?w2)(i := lease_drop_state (lease_drop_backend l1))\<rparr>)"
      using lease_step.drop_state [of ?w2 i] l1(1) by (simp add: lease_drop_backend_def)
    have "l = empty_lease"
      using l l1(1) by (simp add: lease_drop_backend_def lease_drop_state_def empty_lease_iff)
    moreover have "lease_step\<^sup>*\<^sup>* w1 (w1\<lparr>leases := (leases w1)(i := l)\<rparr>)"
      using rtranclp_trans [OF r_into_rtranclp r_into_rtranclp, of lease_step, OF s2 s3] l l1(1)
      by simp
    ultimately show ?thesis using s1 by (simp add: converse_rtranclp_into_rtranclp)
  next
    case False
    then have e: "leases w i = empty_lease" using assms(1,2)
      by (intro held_empty_slot) (auto simp: held_def)
    have l1: "l1 = empty_lease" using le unfolding e by (simp add: lease_leave_def)
    have "l = empty_lease" using l unfolding l1 by simp
    moreover have "w1\<lparr>leases := (leases w1)(i := l)\<rparr> = w1" using l1 \<open>l = empty_lease\<close> by (simp add: w1_def)
    ultimately show ?thesis using s1 by (simp only: r_into_rtranclp simp_thms)
  qed
  then show "lease_step\<^sup>*\<^sup>* w (w\<lparr>binding_of := b, leases := (leases w)(i := l), phase := wake n (phase w)\<rparr>)"
    and "l = empty_lease" unfolding eq by blast+
qed

lemma move_assign_path:
  assumes "lease_inv w" "i \<noteq> j" "\<not> lease_leaving (leases w i)" "\<not> lease_leaving (leases w j)"
    "lease_move_assign (leases w i) (leases w j) (binding_of w) = (l, l', b, n)"
  shows "lease_step\<^sup>*\<^sup>* w (w\<lparr>binding_of := b, leases := (leases w)(i := l, j := l'), phase := wake n (phase w)\<rparr>)"
proof -
  obtain l0 where r: "lease_release (leases w i) (binding_of w) = (l0, b, n)"
    and ll: "l = leases w j" "l' = empty_lease"
    using assms(5) by (auto simp: lease_move_assign_def split_beta Let_def prod_eq_iff)
  note p = release_path [OF assms(1,3) r]
  let ?v = "w\<lparr>binding_of := b, leases := (leases w)(i := l0), phase := wake n (phase w)\<rparr>"
  have "lease_step ?v (?v\<lparr>leases := (leases ?v)(i := leases w j, j := empty_lease)\<rparr>)"
    using assms(2,4) p(2) by (intro lease_step.move) (simp_all add: lease_move_construct_def)
  also have "?v\<lparr>leases := (leases ?v)(i := leases w j, j := empty_lease)\<rparr> =
      w\<lparr>binding_of := b, leases := (leases w)(i := l, j := l'), phase := wake n (phase w)\<rparr>"
    by (simp add: ll)
  finally show ?thesis by (rule rtranclp.rtrancl_into_rtrancl [OF p(1)])
qed

section \<open>Safety and progress\<close>

lemma card_moved:
  assumes "finite H"
  shows "card (insert i (H - {j})) \<le> card H \<or> j \<notin> H"
proof (cases "j \<in> H")
  case True
  have "card (insert i (H - {j})) \<le> Suc (card (H - {j}))" using assms by (simp add: card_insert_if)
  also have "\<dots> = card H" using assms True by (rule card_Suc_Diff1)
  finally show ?thesis by simp
qed simp

lemma lease_step_held:
  assumes "lease_inv w" "lease_step w w'" "\<not> acceptingLeases (binding_of w)"
  shows "card (held w') \<le> card (held w)"
proof -
  have fin: "finite (held w)" using assms(1) by (simp add: lease_inv_def)
  show ?thesis using assms(2)
  proof (cases rule: lease_step.cases)
    case (acquire i h l b)
    then have "b = binding_of w" "l = empty_lease"
      using assms(3) by (auto simp: acquireEvaluationLease_def split: if_splits)
    then have "held w' = held w" using acquire(1,2) by (simp add: fun_upd_idem held_def)
    then show ?thesis by simp
  next
    case (leave i l b n)
    then show ?thesis using inv_leave(2) [OF assms(1) leave(2,3)] fin by (simp add: card_Diff1_le)
  next
    case (drop_backend i)
    then show ?thesis using inv_drop(2) [OF assms(1)] drop_ok [OF assms(1)] by simp
  next
    case (drop_state i)
    then show ?thesis using inv_drop(2) [OF assms(1)] drop_ok(3) [OF assms(1)] by simp
  next
    case (move i j l l')
    then have w': "w' = w\<lparr>leases := (leases w)(i := leases w j, j := empty_lease)\<rparr>"
      by (simp add: lease_move_construct_def)
    show ?thesis using held_move [OF move(2,3)] card_moved [OF fin, of i j] unfolding w' by auto
  qed (simp_all add: held_def)
qed

text \<open>Once the drain has finished it stays finished, and nothing is lent any more.\<close>

lemma drained_final:
  assumes "lease_step\<^sup>*\<^sup>* w w'" "lease_inv w" "phase w = Drained"
  shows "lease_inv w' \<and> phase w' = Drained"
  using assms
proof (induction rule: rtranclp_induct)
  case (step v v')
  then have v: "lease_inv v" "phase v = Drained" by simp_all
  then have "activeLeases (binding_of v) = 0" by (simp add: lease_inv_def)
  with step(2) v(2) have "phase v' = Drained"
    by (cases rule: lease_step.cases) (auto simp: wake_def invalidateAndDrain_def drain_check_def)
  then show ?case using lease_step_inv [OF step(2) v(1)] by simp
qed simp

text \<open>
  C7. In every interleaving of acquiring, moving and releasing leases with the destruction of the
  mesh, a lease through which its owner may still call the backend finds it alive: the binding has
  not dropped it, the drain has not finished, and the lease is counted. And once the drain has
  finished, no lease, old or newly acquired, can be used to call the backend in any later state. A
  lease that is leaving, after its critical section, may outlive the drain; it still shares the
  ownership of the backend object, and only resets its pointers.
\<close>

theorem lease_never_dangles:
  "lease_reachable w \<Longrightarrow>
     (lease_usable (leases w i) \<longrightarrow>
        backend_present (binding_of w) \<and> phase w \<noteq> Drained \<and> 0 < activeLeases (binding_of w)) \<and>
     (phase w = Drained \<and> lease_step\<^sup>*\<^sup>* w w' \<longrightarrow>
        phase w' = Drained \<and> \<not> backend_present (binding_of w') \<and> \<not> lease_usable (leases w' i))"
proof (intro conjI impI; (elim conjE)?)
  assume r: "lease_reachable w"
  note inv = lease_reachable_inv [OF r]
  show "backend_present (binding_of w)" "phase w \<noteq> Drained" "0 < activeLeases (binding_of w)"
    if "lease_usable (leases w i)"
    using inv that usable_held [OF inv] by (auto simp: lease_inv_def card_gt_0_iff)
  show "phase w' = Drained" "\<not> backend_present (binding_of w')" "\<not> lease_usable (leases w' i)"
    if "phase w = Drained" "lease_step\<^sup>*\<^sup>* w w'"
    using drained_final [OF that(2) inv that(1)] usable_held [of w' i] by (auto simp: lease_inv_def)
qed

lemma reachable_acquired:
  "lease_reachable (lease_initial\<lparr>binding_of := new_binding\<lparr>activeLeases := 1\<rparr>,
     leases := (\<lambda>_. empty_lease)(0 := full_lease)\<rparr>)"
  using lease_step.acquire [of lease_initial 0 True] lease_reachable.intros
  by (simp add: lease_initial_def acquireEvaluationLease_def new_binding_def)

text \<open>
  At the witness the drain finishes in the gap of a release: the lease is leaving, its pointer is
  still set, the backend has been dropped by the binding, and the lease is not usable.
\<close>

lemma reachable_gap:
  "lease_reachable \<lparr>binding_of = \<lparr>backend_present = False, activeLeases = 0, acceptingLeases = False\<rparr>,
     leases = (\<lambda>_. empty_lease)(0 := full_lease\<lparr>lease_leaving := True\<rparr>), phase = Drained\<rparr>"
proof -
  have "lease_reachable \<lparr>binding_of = new_binding,
      leases = (\<lambda>_. empty_lease)(0 := full_lease\<lparr>lease_leaving := True\<rparr>), phase = Open\<rparr>"
    using lease_reachable.step [OF reachable_acquired lease_step.leave [of _ 0, where n = False]]
    by (simp add: lease_initial_def new_binding_def lease_leave_def wake_def)
  from lease_reachable.step [OF this lease_step.drain] show ?thesis
    by (simp add: new_binding_def invalidateAndDrain_def drain_check_def)
qed

theorem lease_never_dangles_witness:
  "(\<exists>w. lease_reachable w \<and> lease_usable (leases w 0) \<and> backend_present (binding_of w)) \<and>
   (\<exists>w. lease_reachable w \<and> phase w = Drained \<and> lease_backend (leases w 0) \<and>
      \<not> lease_usable (leases w 0) \<and> \<not> backend_present (binding_of w))"
proof
  define w where "w = lease_initial\<lparr>binding_of := new_binding\<lparr>activeLeases := 1\<rparr>,
     leases := (\<lambda>_. empty_lease)(0 := full_lease)\<rparr>"
  have r: "lease_reachable w" unfolding w_def by (rule reachable_acquired)
  have "lease_usable (leases w 0)" by (simp add: w_def lease_usable_def)
  with lease_never_dangles [OF r] r
  show "\<exists>w. lease_reachable w \<and> lease_usable (leases w 0) \<and> backend_present (binding_of w)" by blast
next
  define w where "w = \<lparr>binding_of = \<lparr>backend_present = False, activeLeases = 0, acceptingLeases = False\<rparr>,
     leases = (\<lambda>_. empty_lease)(0 := full_lease\<lparr>lease_leaving := True\<rparr>), phase = Drained\<rparr>"
  have r: "lease_reachable w" unfolding w_def by (rule reachable_gap)
  have "phase w = Drained" "lease_backend (leases w 0)" by (simp_all add: w_def)
  with lease_never_dangles [OF r, of 0 w] r
  show "\<exists>w. lease_reachable w \<and> phase w = Drained \<and> lease_backend (leases w 0) \<and>
      \<not> lease_usable (leases w 0) \<and> \<not> backend_present (binding_of w)" by blast
qed

text \<open>
  C34. The drain cannot be blocked by anything but leases that exist: while it waits no step makes
  the number of held leases grow; a sleeping drainer is always owed a wake-up by some held lease
  (no wake-up is lost); and once none is held, the drainer is awake and its next check drops the
  backend.
\<close>

theorem drain_progress:
  "lease_reachable w \<Longrightarrow> phase w \<in> {Asleep, Awake} \<Longrightarrow>
     (\<forall>w'. lease_step w w' \<longrightarrow> card (held w') \<le> card (held w)) \<and>
     (phase w = Asleep \<longrightarrow> held w \<noteq> {}) \<and>
     (held w = {} \<longrightarrow> drain_check (binding_of w) = (Drained, (binding_of w)\<lparr>backend_present := False\<rparr>))"
  using lease_reachable_inv [of w] lease_step_held [of w]
  by (auto simp: lease_inv_def drain_check_def)

lemma reachable_sleeping:
  "lease_reachable \<lparr>binding_of = \<lparr>backend_present = True, activeLeases = 1, acceptingLeases = False\<rparr>,
     leases = (\<lambda>_. empty_lease)(0 := full_lease), phase = Asleep\<rparr>"
  using lease_reachable.step [OF reachable_acquired lease_step.drain]
  by (simp add: lease_initial_def new_binding_def invalidateAndDrain_def drain_check_def)

theorem drain_progress_witness:
  "\<exists>w. lease_reachable w \<and> phase w = Asleep \<and> held w \<noteq> {}"
proof -
  define w where "w = \<lparr>binding_of = \<lparr>backend_present = True, activeLeases = 1, acceptingLeases = False\<rparr>,
     leases = (\<lambda>_. empty_lease)(0 := full_lease), phase = Asleep\<rparr>"
  have r: "lease_reachable w" unfolding w_def by (rule reachable_sleeping)
  have "phase w = Asleep" by (simp add: w_def)
  with drain_progress [OF r] r show ?thesis by blast
qed

end
