(* ===== verification/Shadow_Laws.thy ===== *)
theory Shadow_Laws
  imports Persistence_Laws
begin

text \<open>
  The shadow controller of \<open>experiments/shadow_adaptive/shadow_adaptive_controller.cpp\<close>: a gate
  whose recommendations are filtered by the permissions of each input. Its decisions are
  characterised in terms of the inputs alone: windows of consecutive inputs whose signed evidence
  reaches a threshold.
\<close>

section \<open>The controller\<close>

definition shadow_evidence :: "shadow_input \<Rightarrow> bridge_policy_evidence" where
  "shadow_evidence x = policy_evaluate (in_observation x) (in_confidence x)"

lemma shadow_evaluate_eq:
  "snd (shadow_evaluate x p) = snd (observe (shadow_evidence x) p)"
  "disposition (fst (shadow_evaluate x p)) =
     toShadowDisposition (authorization_evaluate (fst (observe (shadow_evidence x) p)) (in_permissions x))"
  by (simp_all add: shadow_evaluate_def shadow_evidence_def split_beta Let_def)

lemma shadow_run_eq:
  "map disposition (fst (shadow_run xs p)) =
     map2 (\<lambda>x r. toShadowDisposition (authorization_evaluate r (in_permissions x))) xs
       (fst (observe_run (map shadow_evidence xs) p))"
proof (induction xs arbitrary: p)
  case (Cons x xs)
  obtain d q where x: "shadow_evaluate x p = (d, q)" by fastforce
  obtain r q' where o: "observe (shadow_evidence x) p = (r, q')" by fastforce
  have eq: "q' = q" "disposition d = toShadowDisposition (authorization_evaluate r (in_permissions x))"
    using shadow_evaluate_eq [of x p] by (simp_all only: x o fst_conv snd_conv)
  obtain ds p2 where xs: "shadow_run xs q = (ds, p2)" by fastforce
  obtain rs p3 where os: "observe_run (map shadow_evidence xs) q = (rs, p3)" by fastforce
  have "fst (shadow_run (x # xs) p) = d # ds"
    by (simp only: shadow_run.simps x xs Let_def prod.case fst_conv)
  moreover have "fst (observe_run (map shadow_evidence (x # xs)) p) = r # rs"
    by (simp only: list.map observe_run.simps o eq os Let_def prod.case fst_conv)
  ultimately show ?case using Cons.IH [of q] by (simp add: xs os eq)
qed simp

section \<open>What an intervention means in terms of the inputs\<close>

text \<open>The last \<open>w\<close> of the first \<open>e\<close> elements all satisfy \<open>Q\<close>.\<close>

definition window :: "('a \<Rightarrow> bool) \<Rightarrow> 'a list \<Rightarrow> nat \<Rightarrow> nat \<Rightarrow> bool" where
  "window Q xs e w \<longleftrightarrow> w \<le> e \<and> (\<forall>x \<in> set (drop (e - w) (take e xs)). Q x)"

text \<open>
  After the first \<open>t\<close> elements an activation is in force: some \<open>M\<close> consecutive elements agreed, and no
  \<open>N\<close> consecutive ones after them receded.
\<close>

definition justified :: "('a \<Rightarrow> bool) \<Rightarrow> ('a \<Rightarrow> bool) \<Rightarrow> nat \<Rightarrow> nat \<Rightarrow> 'a list \<Rightarrow> nat \<Rightarrow> bool" where
  "justified agree recede M N xs t \<longleftrightarrow>
     (\<exists>e \<in> {0..t}. window agree xs e M \<and> (\<forall>f \<in> {e + N..t}. \<not> window recede xs f N))"

lemma window_map: "window Q (map g xs) e w \<longleftrightarrow> window (\<lambda>x. Q (g x)) xs e w"
  by (simp add: window_def take_map drop_map)

lemma justified_map: "justified A R M N (map g xs) t \<longleftrightarrow> justified (\<lambda>x. A (g x)) (\<lambda>x. R (g x)) M N xs t"
  by (simp add: justified_def window_map)

lemma window_mono: "window Q xs e w \<Longrightarrow> (\<And>x. x \<in> set xs \<Longrightarrow> Q x \<Longrightarrow> Q' x) \<Longrightarrow> window Q' xs e w"
  unfolding window_def by (meson in_set_dropD in_set_takeD)

lemma justified_mono:
  "justified A R M N xs t \<Longrightarrow> (\<And>x. x \<in> set xs \<Longrightarrow> A x \<Longrightarrow> A' x) \<Longrightarrow> justified A' R M N xs t"
  unfolding justified_def using window_mono [of A xs _ M A'] by blast

lemma window_append: "e \<le> length xs \<Longrightarrow> window Q (xs @ ys) e w \<longleftrightarrow> window Q xs e w"
  by (simp add: window_def)

lemma window_take: "e \<le> t \<Longrightarrow> window Q (take t xs) e w \<longleftrightarrow> window Q xs e w"
  by (simp add: window_def min_absorb1)

lemma justified_take: "justified A R M N (take t xs) t \<longleftrightarrow> justified A R M N xs t"
  by (auto simp: justified_def window_take)

text \<open>A streak of the newest samples since \<open>e\<close> is a window that starts at \<open>e\<close> or later.\<close>

lemma streak_ge: "w \<le> streak Q h \<longleftrightarrow> w \<le> length h \<and> (\<forall>x \<in> set (take w h). Q x)"
proof (induction h arbitrary: w)
  case (Cons v h)
  then show ?case by (cases w) auto
qed simp

lemma streak_window:
  assumes "e \<le> length vs"
  shows "w \<le> streak Q (rev (drop e vs)) \<longleftrightarrow> e + w \<le> length vs \<and> window Q vs (length vs) w"
proof -
  have "take w (rev (drop e vs)) = rev (drop (length vs - w) vs)" if "e + w \<le> length vs"
    using that by (simp add: take_rev)
  then show ?thesis using assms by (auto simp: streak_ge window_def)
qed

fun agrees :: "f64 \<Rightarrow> persistent_recommendation \<Rightarrow> f64 \<Rightarrow> bool" where
  "agrees A R_SUPPORT v = (A \<le> v)"
| "agrees A R_CONSTRAIN v = (v \<le> - A)"
| "agrees A R_PRESERVE v = False"

fun recedes :: "f64 \<Rightarrow> persistent_recommendation \<Rightarrow> f64 \<Rightarrow> bool" where
  "recedes R R_SUPPORT v = (v \<le> R)"
| "recedes R R_CONSTRAIN v = (- R \<le> v)"
| "recedes R R_PRESERVE v = False"

lemma direction_preds:
  "agrees A R_SUPPORT = (\<lambda>v. A \<le> v)" "agrees A R_CONSTRAIN = (\<lambda>v. v \<le> - A)"
  "recedes R R_SUPPORT = (\<lambda>v. v \<le> R)" "recedes R R_CONSTRAIN = (\<lambda>v. - R \<le> v)"
  by (simp_all add: fun_eq_iff)

definition spec_after :: "bridge_persistence \<Rightarrow> f64 list \<Rightarrow> gate_spec" where
  "spec_after p vs = fold (spec_step p) vs (R_PRESERVE, [])"

lemma spec_run_length [simp]: "length (spec_run p vs s) = length vs"
  by (induction vs arbitrary: s) (simp_all add: Let_def)

lemma spec_run_nth:
  "k < length vs \<Longrightarrow> spec_run p vs s ! k = fst (fold (spec_step p) (take (Suc k) vs) s)"
proof (induction vs arbitrary: s k)
  case (Cons v vs)
  then show ?case by (cases k) (simp_all add: Let_def)
qed simp

definition spec_meaning :: "bridge_persistence \<Rightarrow> f64 list \<Rightarrow> gate_spec \<Rightarrow> bool" where
  "spec_meaning p vs s \<longleftrightarrow> (case s of (q, h) \<Rightarrow>
     \<exists>e \<le> length vs. h = rev (drop e vs) \<and> (q \<noteq> R_PRESERVE \<longrightarrow>
       window (agrees (activationThreshold p) q) vs e (unat (activationSamples p)) \<and>
       (\<forall>f \<in> {e + unat (releaseSamples p)..length vs}.
          \<not> window (recedes (releaseThreshold p) q) vs f (unat (releaseSamples p)))))"

lemma spec_step_held:
  assumes "q \<noteq> R_PRESERVE"
  shows "spec_step p v (q, h) =
    (if unat (releaseSamples p) \<le> streak (recedes (releaseThreshold p) q) (v # h)
     then (R_PRESERVE, []) else (q, v # h))"
  using assms by (cases q) (simp_all add: spec_step_def direction_preds Let_def)

lemma spec_step_preserve:
  "\<exists>q h'. spec_step p v (R_PRESERVE, h) = (q, h') \<and>
     (if q = R_PRESERVE then h' = v # h
      else h' = [] \<and> unat (activationSamples p) \<le> streak (agrees (activationThreshold p) q) (v # h))"
  by (simp add: spec_step_def direction_preds Let_def)

lemma spec_meaning_step:
  assumes "0 < unat (releaseSamples p)" "spec_meaning p vs s"
  shows "spec_meaning p (vs @ [v]) (spec_step p v s)"
proof -
  let ?m = "unat (activationSamples p)" and ?n = "unat (releaseSamples p)" and ?vs = "vs @ [v]"
  obtain q h where s: "s = (q, h)" by fastforce
  obtain e where e: "e \<le> length vs" "h = rev (drop e vs)"
    and held: "q \<noteq> R_PRESERVE \<longrightarrow> window (agrees (activationThreshold p) q) vs e ?m \<and>
      (\<forall>f \<in> {e + ?n..length vs}. \<not> window (recedes (releaseThreshold p) q) vs f ?n)"
    using assms(2) unfolding spec_meaning_def s by auto
  have h: "v # h = rev (drop e ?vs)" using e by simp
  have e': "e \<le> length ?vs" using e by simp
  show ?thesis
  proof (cases "q = R_PRESERVE")
    case True
    obtain q' h' where st: "spec_step p v s = (q', h')"
      and c: "if q' = R_PRESERVE then h' = v # h
        else h' = [] \<and> ?m \<le> streak (agrees (activationThreshold p) q') (v # h)"
      using spec_step_preserve [of p v h] unfolding s True by auto
    show ?thesis
    proof (cases "q' = R_PRESERVE")
      case True
      then show ?thesis using c h e' unfolding st spec_meaning_def by auto
    next
      case False
      then have "window (agrees (activationThreshold p) q') ?vs (length ?vs) ?m" "h' = []"
        using c streak_window [OF e'] unfolding h by auto
      then show ?thesis using assms(1) unfolding st spec_meaning_def
        by (auto intro!: exI [of _ "length ?vs"])
    qed
  next
    case False
    note st = spec_step_held [OF False, of p v h, unfolded h streak_window [OF e']]
    show ?thesis
    proof (cases "e + ?n \<le> length ?vs \<and> window (recedes (releaseThreshold p) q) ?vs (length ?vs) ?n")
      case True
      then show ?thesis unfolding s st spec_meaning_def by (auto intro!: exI [of _ "length ?vs"])
    next
      case no: False
      have "\<not> window (recedes (releaseThreshold p) q) ?vs f ?n" if "f \<in> {e + ?n..length ?vs}" for f
      proof (cases "f = length ?vs")
        case True
        then show ?thesis using no that by auto
      next
        case 2: False
        then show ?thesis using held False that window_append [of f vs] by auto
      qed
      then show ?thesis using held False e(1) no window_append [OF e(1)]
        unfolding s st spec_meaning_def by (auto intro!: exI [of _ e])
    qed
  qed
qed

lemma spec_after_meaning:
  assumes "0 < unat (releaseSamples p)"
  shows "spec_meaning p vs (spec_after p vs)"
proof (induction vs rule: rev_induct)
  case Nil
  show ?case by (simp add: spec_after_def spec_meaning_def)
next
  case (snoc v vs)
  then show ?case using spec_meaning_step [OF assms, of vs _ v] by (simp add: spec_after_def)
qed

text \<open>How many more agreeing samples the specification needs before it recommends \<open>d\<close>.\<close>

definition needed :: "bridge_persistence \<Rightarrow> persistent_recommendation \<Rightarrow> gate_spec \<Rightarrow> nat" where
  "needed p d s = (case s of (q, h) \<Rightarrow>
     if q = d then 0
     else if q = R_PRESERVE
     then max 1 (unat (activationSamples p) - streak (agrees (activationThreshold p) d) h)
     else unat (activationSamples p) +
       max 1 (unat (releaseSamples p) - streak (recedes (releaseThreshold p) q) h))"

lemma agrees_excludes:
  assumes "thresholds_ok p" "agrees (activationThreshold p) d v" "v \<noteq> NaN" "q \<noteq> d" "q \<noteq> R_PRESERVE"
  shows "\<not> agrees (activationThreshold p) q v" "recedes (releaseThreshold p) q v"
    "\<not> recedes (releaseThreshold p) d v"
proof -
  obtain A where A: "activationThreshold p = Fin A" using assms(1) by (auto simp: thresholds_ok_def isfinite_iff)
  obtain R where R: "releaseThreshold p = Fin R" using assms(1) by (auto simp: thresholds_ok_def isfinite_iff)
  have "0 \<le> R" "R < A" using assms(1) by (auto simp: thresholds_ok_def A R zero_f64_def)
  with assms(2-5) show "\<not> agrees (activationThreshold p) q v" "recedes (releaseThreshold p) q v"
    "\<not> recedes (releaseThreshold p) d v"
    unfolding A R by (cases d; cases q; cases v; simp)+
qed

lemma needed_step:
  assumes ok: "thresholds_ok p" and pos: "0 < unat (activationSamples p)"
    and v: "agrees (activationThreshold p) d v" "v \<noteq> NaN" and d: "d \<noteq> R_PRESERVE"
  shows "needed p d (spec_step p v (q, h)) \<le> needed p d (q, h) - 1"
proof -
  let ?m = "unat (activationSamples p)" and ?n = "unat (releaseSamples p)"
  consider "q = R_PRESERVE" | "q = d" | "q \<noteq> R_PRESERVE" "q \<noteq> d" by blast
  then show ?thesis
  proof cases
    case 1
    define o' where "o' = (if d = R_SUPPORT then R_CONSTRAIN else R_SUPPORT)"
    have "o' \<noteq> d" "o' \<noteq> R_PRESERVE" by (auto simp: o'_def)
    then have "\<not> agrees (activationThreshold p) o' v" using agrees_excludes(1) [OF ok v] by blast
    then have "spec_step p v (q, h) = (if ?m \<le> streak (agrees (activationThreshold p) d) (v # h)
        then (d, []) else (R_PRESERVE, v # h))"
      using d pos v(1) unfolding 1 by (cases d) (simp_all add: spec_step_def direction_preds Let_def o'_def)
    then show ?thesis using d v(1) by (auto simp: needed_def 1 split: if_splits)
  next
    case 2
    obtain q' where q': "q' \<noteq> d" "q' \<noteq> R_PRESERVE" by (cases d) auto
    have "\<not> recedes (releaseThreshold p) d v" using agrees_excludes(3) [OF ok v q'] .
    moreover have "0 < ?n" using ok by (auto simp: thresholds_ok_def word_le_nat_alt)
    ultimately have "spec_step p v (q, h) = (d, v # h)" using spec_step_held [of q p v h] d 2 by simp
    then show ?thesis by (simp add: needed_def)
  next
    case 3
    have "recedes (releaseThreshold p) q v" using agrees_excludes(2) [OF ok v 3(2,1)] .
    then have "spec_step p v (q, h) = (if ?n \<le> Suc (streak (recedes (releaseThreshold p) q) h)
        then (R_PRESERVE, []) else (q, v # h))"
      using spec_step_held [OF 3(1), of p v h] by simp
    then show ?thesis using d 3 pos \<open>recedes (releaseThreshold p) q v\<close>
      by (auto simp: needed_def split: if_splits)
  qed
qed

lemma needed_zero: "needed p d s = 0 \<Longrightarrow> 0 < unat (activationSamples p) \<Longrightarrow> fst s = d"
  by (auto simp: needed_def split: prod.splits if_splits)

lemma needed_fold:
  assumes "thresholds_ok p" "0 < unat (activationSamples p)" "d \<noteq> R_PRESERVE"
    "\<forall>v \<in> set us. agrees (activationThreshold p) d v \<and> v \<noteq> NaN" "needed p d s \<le> length us"
  shows "fst (fold (spec_step p) us s) = d"
  using assms(4,5)
proof (induction us arbitrary: s)
  case Nil
  then show ?case using needed_zero assms(2) by simp
next
  case (Cons u us)
  have "needed p d (spec_step p u s) \<le> needed p d s - 1"
    using needed_step [OF assms(1,2) _ _ assms(3)] Cons.prems(1) by (cases s) auto
  then show ?case using Cons by simp
qed

text \<open>\<open>M + N\<close> agreeing samples always end in the recommendation they ask for.\<close>

lemma spec_after_responds:
  assumes ok: "thresholds_ok p" and d: "d \<noteq> R_PRESERVE" and t: "t \<le> length vs"
    and w: "window (agrees (activationThreshold p) d) vs t (unat (activationSamples p) + unat (releaseSamples p))"
    and fin: "\<forall>v \<in> set vs. v \<noteq> NaN"
  shows "fst (spec_after p (take t vs)) = d"
proof -
  let ?w = "unat (activationSamples p) + unat (releaseSamples p)"
  let ?us = "drop (t - ?w) (take t vs)" and ?s = "spec_after p (take (t - ?w) vs)"
  have pos: "0 < unat (activationSamples p)" "0 < unat (releaseSamples p)"
    using ok by (auto simp: thresholds_ok_def word_le_nat_alt)
  have "take t vs = take (t - ?w) vs @ ?us"
    by (metis append_take_drop_id diff_le_self min.absorb1 take_take)
  then have "spec_after p (take t vs) = fold (spec_step p) ?us ?s"
    unfolding spec_after_def by (metis comp_apply fold_append)
  moreover have "length ?us = ?w" using w t by (auto simp: window_def)
  moreover have "needed p d ?s \<le> ?w" using pos by (auto simp: needed_def split: prod.splits)
  moreover have "\<forall>v \<in> set ?us. agrees (activationThreshold p) d v \<and> v \<noteq> NaN"
    using w fin unfolding window_def by (meson in_set_dropD in_set_takeD)
  ultimately show ?thesis using needed_fold [OF ok pos(1) d] by simp
qed

text \<open>The signed evidence of an input: compatibility mapped to [-1, 1], scaled by the confidence.\<close>

definition signed_sample :: "shadow_input \<Rightarrow> f64" where
  "signed_sample x =
     (dec 20 1 * compatibility (in_observation x) - 1) * confidence (in_confidence x)"

definition accepted_input :: "shadow_input \<Rightarrow> bool" where
  "accepted_input x \<longleftrightarrow>
     mk_InteractionObservation (compatibility (in_observation x)) = Inr (in_observation x) \<and>
     mk_BridgeConfidence (confidence (in_confidence x)) = Inr (in_confidence x)"

lemma accepted_sample:
  assumes "accepted_input x"
  shows "evidence (shadow_evidence x) = signed_sample x" "signed_sample x \<noteq> NaN"
    "signed_sample x < 0 \<Longrightarrow> val (compatibility (in_observation x)) < 1 / 2"
    "0 < signed_sample x \<Longrightarrow> 1 / 2 < val (compatibility (in_observation x))"
proof -
  let ?c = "compatibility (in_observation x)" and ?q = "confidence (in_confidence x)"
  have c: "0 \<le> ?c" "?c \<le> 1" and q: "0 \<le> ?q" "?q \<le> 1"
    using assms unfolding accepted_input_def mk_InteractionObservation_iff mk_BridgeConfidence_iff by auto
  show "evidence (shadow_evidence x) = signed_sample x"
    by (simp add: shadow_evidence_def policy_evaluate_def signed_sample_def)
  obtain e where e: "(dec 20 1 * ?c - 1) * ?q = Fin e"
    "val ?c \<le> 1 / 2 \<Longrightarrow> e \<le> 0" "1 / 2 \<le> val ?c \<Longrightarrow> 0 \<le> e"
    using evidence_value [OF c q] by metis
  then show "signed_sample x \<noteq> NaN"
    "signed_sample x < 0 \<Longrightarrow> val ?c < 1 / 2" "0 < signed_sample x \<Longrightarrow> 1 / 2 < val ?c"
    by (auto simp: signed_sample_def zero_f64_def not_less [symmetric])
qed

lemma controller_parameters:
  assumes "mk_ShadowAdaptiveController a r m n = Inr p"
  shows "activationThreshold p = a" "releaseThreshold p = r" "activationSamples p = m"
    "releaseSamples p = n" "persistence_inv p" "thresholds_ok p" "gate_rel p (R_PRESERVE, [])"
proof -
  have g: "mk_BridgePersistence a r m n = Inr p"
    using assms by (simp add: mk_ShadowAdaptiveController_def)
  show "persistence_inv p" using mk_BridgePersistence_inv [OF g] .
  then show "thresholds_ok p" by (simp add: persistence_inv_def)
  show "gate_rel p (R_PRESERVE, [])" using gate_rel_initial [OF g] .
  show "activationThreshold p = a" "releaseThreshold p = r" "activationSamples p = m" "releaseSamples p = n"
    using g by (auto simp: mk_BridgePersistence_def result_simps)
qed

lemma shadow_run_nth:
  assumes "mk_ShadowAdaptiveController a r m n = Inr p" "\<forall>x \<in> set xs. accepted_input x" "k < length xs"
  shows "disposition (fst (shadow_run xs p) ! k) =
    toShadowDisposition (authorization_evaluate (fst (spec_after p (take (Suc k) (map signed_sample xs))))
      (in_permissions (xs ! k)))"
proof -
  note c = controller_parameters [OF assms(1)]
  let ?es = "map shadow_evidence xs" and ?vs = "map signed_sample xs"
  have ev: "map evidence ?es = ?vs" using assms(2) by (auto simp: accepted_sample(1))
  have "\<forall>e \<in> set ?es. evidence e \<noteq> NaN" using assms(2) by (auto simp: accepted_sample(1,2))
  note run = observe_run_refines [OF c(5,7) this, unfolded ev]
  have len: "length (fst (shadow_run xs p)) = length xs"
    using arg_cong [OF shadow_run_eq [of xs p], of length] by (simp add: run)
  have "disposition (fst (shadow_run xs p) ! k) = map disposition (fst (shadow_run xs p)) ! k"
    using assms(3) len by simp
  also have "\<dots> = toShadowDisposition
      (authorization_evaluate (spec_run p ?vs (R_PRESERVE, []) ! k) (in_permissions (xs ! k)))"
    unfolding shadow_run_eq run using assms(3) by simp
  finally show ?thesis using assms(3) by (simp add: spec_run_nth spec_after_def)
qed

lemma disposition_intervention:
  "toShadowDisposition (authorization_evaluate q perms) = D_constrain \<longleftrightarrow> q = R_CONSTRAIN \<and> constrainAllowed perms"
  "toShadowDisposition (authorization_evaluate q perms) = D_support \<longleftrightarrow> q = R_SUPPORT \<and> supportAllowed perms"
  by (cases q; simp)+

lemma spec_after_justified:
  assumes c: "mk_ShadowAdaptiveController a r m n = Inr p" and t: "t \<le> length vs"
    and q: "fst (spec_after p (take t vs)) = q" "q \<noteq> R_PRESERVE"
  shows "justified (agrees a q) (recedes r q) (unat m) (unat n) vs t"
proof -
  note par = controller_parameters [OF c]
  have "0 < unat (releaseSamples p)" using par(6) by (auto simp: thresholds_ok_def word_le_nat_alt)
  from spec_after_meaning [OF this, of "take t vs"] q
  have "justified (agrees a q) (recedes r q) (unat m) (unat n) (take t vs) t"
    using t by (auto simp: spec_meaning_def justified_def par(1-4) split: prod.splits)
  then show ?thesis by (simp add: justified_take)
qed

text \<open>
  C29. What the decisions of a shadow controller mean in terms of its inputs, for accepted parameters
  (thresholds a and r, sample counts m and n) and accepted inputs. No unjustified intervention: input
  k is answered with constrain only when its own permissions allow it and m consecutive inputs up to
  k had signed evidence at most -a, hence compatibility below one half, with no n consecutive ones
  after them back at -r or above; with support only under the mirrored condition. No missed
  intervention: when the last m + n inputs all had signed evidence at most -a (at least a) and input
  k permits it, the answer is constrain (support), whatever came before and whatever it permitted.
\<close>

theorem shadow_intervention_justified:
  assumes "mk_ShadowAdaptiveController a r m n = Inr p"
    and "\<forall>x \<in> set xs. accepted_input x" and "k < length xs"
  shows "(disposition (fst (shadow_run xs p) ! k) = D_constrain \<longrightarrow>
      constrainAllowed (in_permissions (xs ! k)) \<and>
      justified (\<lambda>x. signed_sample x \<le> - a \<and> val (compatibility (in_observation x)) < 1 / 2)
        (\<lambda>x. - r \<le> signed_sample x) (unat m) (unat n) xs (Suc k)) \<and>
    (disposition (fst (shadow_run xs p) ! k) = D_support \<longrightarrow>
      supportAllowed (in_permissions (xs ! k)) \<and>
      justified (\<lambda>x. a \<le> signed_sample x \<and> 1 / 2 < val (compatibility (in_observation x)))
        (\<lambda>x. signed_sample x \<le> r) (unat m) (unat n) xs (Suc k)) \<and>
    (constrainAllowed (in_permissions (xs ! k)) \<and>
      window (\<lambda>x. signed_sample x \<le> - a) xs (Suc k) (unat m + unat n) \<longrightarrow>
      disposition (fst (shadow_run xs p) ! k) = D_constrain) \<and>
    (supportAllowed (in_permissions (xs ! k)) \<and>
      window (\<lambda>x. a \<le> signed_sample x) xs (Suc k) (unat m + unat n) \<longrightarrow>
      disposition (fst (shadow_run xs p) ! k) = D_support)"
proof -
  let ?vs = "map signed_sample xs" and ?q = "fst (spec_after p (take (Suc k) (map signed_sample xs)))"
  note par = controller_parameters [OF assms(1)]
  note act = activation_positive [OF par(6), unfolded par(1)]
  have t: "Suc k \<le> length ?vs" using assms(3) by simp
  have acc: "accepted_input x" if "x \<in> set xs" for x using assms(2) that by blast
  have nan: "\<forall>v \<in> set ?vs. v \<noteq> NaN" using acc accepted_sample(2) by auto
  note just = spec_after_justified [OF assms(1) t refl]
  note resp = spec_after_responds [OF par(6) _ t _ nan, unfolded par(1,3,4) window_map]
  have neg: "val (compatibility (in_observation x)) < 1 / 2" if "x \<in> set xs" "signed_sample x \<le> - a" for x
    using accepted_sample(3) [OF acc] abs_threshold(3) [OF act(3,2) _ act(1)] accepted_sample(2) [OF acc] that
    by blast
  have pos: "1 / 2 < val (compatibility (in_observation x))" if "x \<in> set xs" "a \<le> signed_sample x" for x
  proof -
    have "0 < signed_sample x" using act(1) that(2) by (cases "signed_sample x"; cases a) (auto simp: zero_f64_def)
    then show ?thesis using accepted_sample(4) [OF acc] that by blast
  qed
  show ?thesis unfolding shadow_run_nth [OF assms] disposition_intervention
  proof (intro conjI impI; (elim conjE)?)
    assume "?q = R_CONSTRAIN"
    with just have "justified (\<lambda>x. signed_sample x \<le> - a) (\<lambda>x. - r \<le> signed_sample x) (unat m) (unat n) xs (Suc k)"
      by (simp add: justified_map)
    then show "justified (\<lambda>x. signed_sample x \<le> - a \<and> val (compatibility (in_observation x)) < 1 / 2)
        (\<lambda>x. - r \<le> signed_sample x) (unat m) (unat n) xs (Suc k)"
      using neg by (elim justified_mono) simp
  next
    assume "?q = R_SUPPORT"
    with just have "justified (\<lambda>x. a \<le> signed_sample x) (\<lambda>x. signed_sample x \<le> r) (unat m) (unat n) xs (Suc k)"
      by (simp add: justified_map)
    then show "justified (\<lambda>x. a \<le> signed_sample x \<and> 1 / 2 < val (compatibility (in_observation x)))
        (\<lambda>x. signed_sample x \<le> r) (unat m) (unat n) xs (Suc k)"
      using pos by (elim justified_mono) simp
  next
    show "?q = R_CONSTRAIN" if "window (\<lambda>x. signed_sample x \<le> - a) xs (Suc k) (unat m + unat n)"
      using resp [of R_CONSTRAIN] that by simp
    show "?q = R_SUPPORT" if "window (\<lambda>x. a \<le> signed_sample x) xs (Suc k) (unat m + unat n)"
      using resp [of R_SUPPORT] that by simp
  qed
qed

text \<open>
  At the witness four inputs of full confidence and no compatibility, of which the last alone permits
  constraint, make its answer constrain; the windows are evaluated on the inputs.
\<close>

theorem shadow_intervention_justified_witness:
  "\<exists>p x y. mk_ShadowAdaptiveController 1 0 2 2 = Inr p \<and> accepted_input x \<and> accepted_input y \<and>
     \<not> constrainAllowed (in_permissions x) \<and> signed_sample x = - 1 \<and>
     disposition (fst (shadow_run [x, x, x, y] p) ! 3) = D_constrain \<and>
     disposition (fst (shadow_run [x, x, x, y] p) ! 2) \<noteq> D_constrain"
proof -
  define x where "x = \<lparr>in_source = 0, in_target = 1, in_observation = \<lparr>compatibility = 0\<rparr>,
    in_confidence = \<lparr>confidence = 1\<rparr>,
    in_permissions = \<lparr>constrainAllowed = False, supportAllowed = True\<rparr>\<rparr>"
  define y where "y = x\<lparr>in_permissions := \<lparr>constrainAllowed = True, supportAllowed = False\<rparr>\<rparr>"
  obtain p where p: "mk_ShadowAdaptiveController 1 0 2 2 = Inr p"
    using sample_gate_accepted by (simp add: mk_ShadowAdaptiveController_def)
  have acc: "accepted_input x" "accepted_input y"
    by (simp_all add: accepted_input_def x_def y_def mk_InteractionObservation_iff mk_BridgeConfidence_iff)
  have s: "signed_sample x = - 1"
    unfolding signed_sample_def dec_20_1 by (simp add: x_def zero_f64_def one_f64_def fin_arith)
  then have s': "signed_sample y = - 1" by (simp add: signed_sample_def y_def)
  have all: "\<forall>z \<in> set [x, x, x, y]. accepted_input z" using acc by simp
  have len: "2 < length [x, x, x, y]" "3 < length [x, x, x, y]" by simp_all
  have "window (\<lambda>z. signed_sample z \<le> - 1) [x, x, x, y] (Suc 3) (unat (2::u64) + unat (2::u64))"
    by (auto simp: window_def s s' one_f64_def dest!: in_set_dropD in_set_takeD)
  moreover have "constrainAllowed (in_permissions ([x, x, x, y] ! 3))" by (simp add: y_def)
  ultimately have "disposition (fst (shadow_run [x, x, x, y] p) ! 3) = D_constrain"
    using shadow_intervention_justified [OF p all len(2)] by blast
  moreover have no: "\<not> constrainAllowed (in_permissions ([x, x, x, y] ! 2))"
    "\<not> constrainAllowed (in_permissions x)" by (simp_all add: x_def)
  moreover have "disposition (fst (shadow_run [x, x, x, y] p) ! 2) \<noteq> D_constrain"
    using shadow_intervention_justified [OF p all len(1)] no by blast
  ultimately show ?thesis using p acc s by blast
qed

end
