(* ===== verification/Kiko.thy ===== *)
theory Kiko
  imports Soam_Prelude
begin

text \<open>
  The interchange adapter of the Kiko experiment (\<open>experiments/kiko/k9_interchange.hpp\<close> and
  \<open>.cpp\<close>): one text line of five tab-separated fields, its validation in a fixed precedence, and
  the proof that the accepted lines are exactly the encodings of valid observations. Strings are
  lists of bytes; an \<open>AdapterError\<close> is the left alternative of the result.
\<close>

section \<open>Data\<close>

text \<open>\<open>unnamed_kind\<close> stands for the values of the enumeration's type that no enumerator names.\<close>

datatype experiment_kind = production_gate | k3_authorization_disabled | unnamed_kind int

datatype experimental_outcome = blocked | passed

datatype adapter_error =
    malformed_record
  | unsupported_schema
  | unsupported_experiment
  | invalid_outcome
  | invalid_correlation
  | context_mismatch

record experiment_observation =
  schemaVersion :: "32 word"
  experimentKind :: experiment_kind
  outcome :: experimental_outcome
  correlationId :: string

abbreviation tab :: char where "tab \<equiv> CHR 0x09"
abbreviation lf :: char where "lf \<equiv> CHR 0x0A"
abbreviation cr :: char where "cr \<equiv> CHR 0x0D"

definition marker :: string where "marker = ''KIKO-EXPERIMENT''"

definition schemaV1 :: string where "schemaV1 = ''1''"

section \<open>Parsing\<close>

fun validExpectedKind :: "experiment_kind \<Rightarrow> bool" where
  "validExpectedKind production_gate = True"
| "validExpectedKind k3_authorization_disabled = True"
| "validExpectedKind (unnamed_kind _) = False"

definition parseExperimentKind :: "string \<Rightarrow> experiment_kind option" where
  "parseExperimentKind token =
    (if token = ''production_gate'' then Some production_gate
     else if token = ''k3_authorization_disabled'' then Some k3_authorization_disabled
     else None)"

definition parseOutcome :: "string \<Rightarrow> experimental_outcome option" where
  "parseOutcome token =
    (if token = ''blocked'' then Some blocked else if token = ''passed'' then Some passed else None)"

definition isCorrelationCharacter :: "char \<Rightarrow> bool" where
  "isCorrelationCharacter c \<longleftrightarrow> (let v = (of_char c :: nat) in
     (65 \<le> v \<and> v \<le> 90) \<or> (97 \<le> v \<and> v \<le> 122) \<or> (48 \<le> v \<and> v \<le> 57) \<or>
     c = CHR ''.'' \<or> c = CHR ''_'' \<or> c = CHR '':'' \<or> c = CHR ''-'')"

definition validCorrelation :: "string \<Rightarrow> bool" where
  "validCorrelation s \<longleftrightarrow> \<not> (s = [] \<or> 128 < length s) \<and> list_all isCorrelationCharacter s"

text \<open>The loop of \<open>splitFields\<close>: the indices still to visit, the start of the current field and the
  fields found.\<close>

fun split_scan :: "string \<Rightarrow> nat list \<Rightarrow> nat \<Rightarrow> string list \<Rightarrow> string list option" where
  "split_scan body [] start flds =
     (if length flds \<noteq> 4 then None else Some (flds @ [drop start body]))"
| "split_scan body (i # is) start flds =
     (if body ! i \<noteq> tab then split_scan body is start flds
      else if 4 \<le> length flds then None
      else split_scan body is (i + 1) (flds @ [take (i - start) (drop start body)]))"

definition splitFields :: "string \<Rightarrow> string list option" where
  "splitFields body = split_scan body [0 ..< length body] 0 []"

definition create_observation :: "experiment_kind \<Rightarrow> experimental_outcome \<Rightarrow> string \<Rightarrow> experiment_observation" where
  "create_observation k out corr = \<lparr>schemaVersion = 1, experimentKind = k, outcome = out, correlationId = corr\<rparr>"

definition validate :: "string \<Rightarrow> experiment_kind \<Rightarrow> adapter_error + experiment_observation" where
  "validate s expected =
    (if s = [] \<or> last s \<noteq> lf then Inl malformed_record
     else if list_ex (\<lambda>i. s ! i = lf \<or> s ! i = cr) [0 ..< length s - 1] then Inl malformed_record
     else case splitFields (take (length s - 1) s) of
         None \<Rightarrow> Inl malformed_record
       | Some flds \<Rightarrow>
           if flds ! 0 \<noteq> marker then Inl malformed_record
           else if flds ! 1 \<noteq> schemaV1 then Inl unsupported_schema
           else (case parseExperimentKind (flds ! 2) of
               None \<Rightarrow> Inl unsupported_experiment
             | Some k \<Rightarrow> (case parseOutcome (flds ! 3) of
                 None \<Rightarrow> Inl invalid_outcome
               | Some out \<Rightarrow>
                   if \<not> validCorrelation (flds ! 4) then Inl invalid_correlation
                   else if \<not> validExpectedKind expected \<or> k \<noteq> expected then Inl context_mismatch
                   else Inr (create_observation k out (flds ! 4)))))"

section \<open>Splitting at tabs\<close>

fun cut :: "string \<Rightarrow> string list" where
  "cut [] = [[]]"
| "cut (c # cs) = (if c = tab then [] # cut cs else (c # hd (cut cs)) # tl (cut cs))"

fun join :: "string list \<Rightarrow> string" where
  "join [] = []"
| "join [f] = f"
| "join (f # fs) = f @ tab # join fs"

lemma cut_ne [simp]: "cut s \<noteq> []"
  by (cases s) simp_all

lemma cut_append: "tab \<notin> set f \<Longrightarrow> cut (f @ s) = (f @ hd (cut s)) # tl (cut s)"
  by (induction f) auto

lemma cut_tab: "tab \<notin> set f \<Longrightarrow> cut (f @ tab # s) = f # cut s"
  by (simp add: cut_append)

lemma cut_plain: "tab \<notin> set f \<Longrightarrow> cut f = [f]"
  using cut_append [of f "[]"] by simp

lemma join_Cons: "fs \<noteq> [] \<Longrightarrow> join (f # fs) = f @ tab # join fs"
  by (cases fs) simp_all

lemma join_cut: "join (cut s) = s"
proof (induction s)
  case (Cons c s)
  show ?case
  proof (cases "cut s")
    case (Cons f fs)
    then show ?thesis using Cons.IH by (cases fs) (auto simp: join_Cons)
  qed simp
qed simp

lemma cut_fields: "f \<in> set (cut s) \<Longrightarrow> tab \<notin> set f"
proof (induction s arbitrary: f)
  case (Cons c s)
  have "set (cut s) = insert (hd (cut s)) (set (tl (cut s)))" by (metis cut_ne list.collapse list.simps(15))
  then show ?case using Cons by (auto split: if_splits)
qed simp

lemma cut_join: "fs \<noteq> [] \<Longrightarrow> \<forall>f \<in> set fs. tab \<notin> set f \<Longrightarrow> cut (join fs) = fs"
  by (induction fs rule: join.induct) (simp_all add: cut_plain cut_tab)

lemma split_scan_cut:
  assumes "start \<le> i" "i \<le> length body" "length flds \<le> 4" "tab \<notin> set (take (i - start) (drop start body))"
  shows "split_scan body [i ..< length body] start flds =
    (if length flds + length (cut (drop start body)) = 5 then Some (flds @ cut (drop start body)) else None)"
  using assms
proof (induction "length body - i" arbitrary: i start flds)
  case 0
  then have "i = length body" by simp
  then have "tab \<notin> set (drop start body)" using 0 by simp
  then show ?case using \<open>i = length body\<close> by (simp add: cut_plain)
next
  case (Suc n)
  have i: "i < length body" using Suc.hyps(2) by simp
  then have upt: "[i ..< length body] = i # [Suc i ..< length body]" by (simp add: upt_conv_Cons)
  define f where "f = take (i - start) (drop start body)"
  have d: "drop start body = f @ body ! i # drop (Suc i) body"
    using Suc.prems(1) i unfolding f_def
    by (metis Cons_nth_drop_Suc append_take_drop_id drop_drop le_add_diff_inverse2)
  show ?case
  proof (cases "body ! i = tab")
    case True
    have c: "cut (drop start body) = f # cut (drop (Suc i) body)"
      unfolding d True using Suc.prems(4) by (simp add: cut_tab f_def)
    show ?thesis
    proof (cases "4 \<le> length flds")
      case True
      then show ?thesis using \<open>body ! i = tab\<close>
        by (cases "cut (drop (Suc i) body)") (simp_all add: upt c)
    next
      case False
      have "split_scan body [Suc i ..< length body] (Suc i) (flds @ [f]) =
          (if length (flds @ [f]) + length (cut (drop (Suc i) body)) = 5
           then Some ((flds @ [f]) @ cut (drop (Suc i) body)) else None)"
        using Suc.hyps(2) i False by (intro Suc.hyps(1)) simp_all
      then show ?thesis using False \<open>body ! i = tab\<close> by (simp add: upt c f_def)
    qed
  next
    case False
    have "take (Suc i - start) (drop start body) = f @ [body ! i]"
      using Suc.prems(1) i unfolding f_def
      by (simp add: Suc_diff_le take_Suc_conv_app_nth)
    then have "tab \<notin> set (take (Suc i - start) (drop start body))"
      using False Suc.prems(4) by (simp add: f_def)
    then show ?thesis using Suc.hyps(2) Suc.prems i False
      by (simp add: upt Suc.hyps(1) [of "Suc i" start flds])
  qed
qed

lemma splitFields_iff:
  "splitFields body = Some fs \<longleftrightarrow> length fs = 5 \<and> (\<forall>f \<in> set fs. tab \<notin> set f) \<and> body = join fs"
proof -
  have "splitFields body = (if length (cut body) = 5 then Some (cut body) else None)"
    unfolding splitFields_def using split_scan_cut [of 0 0 body "[]"] by simp
  moreover have "length fs = 5 \<Longrightarrow> fs \<noteq> []" by auto
  ultimately show ?thesis using join_cut [of body] cut_fields [of _ body] cut_join [of fs] by auto
qed

section \<open>Encoding\<close>

fun kind_token :: "experiment_kind \<Rightarrow> string" where
  "kind_token production_gate = ''production_gate''"
| "kind_token k3_authorization_disabled = ''k3_authorization_disabled''"
| "kind_token (unnamed_kind _) = []"

fun outcome_token :: "experimental_outcome \<Rightarrow> string" where
  "outcome_token blocked = ''blocked''"
| "outcome_token passed = ''passed''"

definition encode :: "experiment_observation \<Rightarrow> string" where
  "encode obs = join [marker, schemaV1, kind_token (experimentKind obs), outcome_token (outcome obs),
     correlationId obs] @ [lf]"

definition valid_observation :: "experiment_observation \<Rightarrow> bool" where
  "valid_observation obs \<longleftrightarrow> schemaVersion obs = 1 \<and> validExpectedKind (experimentKind obs) \<and>
     validCorrelation (correlationId obs)"

lemma parseExperimentKind_iff:
  "parseExperimentKind s = Some k \<longleftrightarrow> validExpectedKind k \<and> s = kind_token k"
  by (cases k) (auto simp: parseExperimentKind_def)

lemma parseOutcome_iff: "parseOutcome s = Some out \<longleftrightarrow> s = outcome_token out"
  by (cases out) (auto simp: parseOutcome_def)

lemma plain_characters:
  "isCorrelationCharacter c \<Longrightarrow> c \<noteq> tab \<and> c \<noteq> lf \<and> c \<noteq> cr"
  by (auto simp: isCorrelationCharacter_def Let_def)

lemma plain_tokens:
  "list_all (\<lambda>c. c \<noteq> tab \<and> c \<noteq> lf \<and> c \<noteq> cr) (kind_token k)"
  "list_all (\<lambda>c. c \<noteq> tab \<and> c \<noteq> lf \<and> c \<noteq> cr) (outcome_token out)"
  "list_all (\<lambda>c. c \<noteq> tab \<and> c \<noteq> lf \<and> c \<noteq> cr) marker"
  "list_all (\<lambda>c. c \<noteq> tab \<and> c \<noteq> lf \<and> c \<noteq> cr) schemaV1"
proof -
  show "list_all (\<lambda>c. c \<noteq> tab \<and> c \<noteq> lf \<and> c \<noteq> cr) (kind_token k)" by (cases k) simp_all
  show "list_all (\<lambda>c. c \<noteq> tab \<and> c \<noteq> lf \<and> c \<noteq> cr) (outcome_token out)" by (cases out) simp_all
qed (simp_all add: marker_def schemaV1_def)

lemma plain_correlation:
  "validCorrelation s \<Longrightarrow> list_all (\<lambda>c. c \<noteq> tab \<and> c \<noteq> lf \<and> c \<noteq> cr) s"
  using plain_characters by (auto simp: validCorrelation_def list_all_iff)

lemma framing_iff:
  "s = [] \<or> last s \<noteq> lf \<or> list_ex (\<lambda>i. s ! i = lf \<or> s ! i = cr) [0 ..< length s - 1] \<longleftrightarrow>
     \<not> (\<exists>body. s = body @ [lf] \<and> list_all (\<lambda>c. c \<noteq> lf \<and> c \<noteq> cr) body)"
proof (cases s rule: rev_exhaust)
  case (snoc body c)
  have "list_ex (\<lambda>i. s ! i = lf \<or> s ! i = cr) [0 ..< length s - 1] \<longleftrightarrow>
      \<not> list_all (\<lambda>c. c \<noteq> lf \<and> c \<noteq> cr) body"
    by (auto simp: snoc list_ex_iff list_all_length nth_append)
  then show ?thesis using snoc by auto
qed simp

definition body_fields :: "string \<Rightarrow> string list option" where
  "body_fields s = (if s \<noteq> [] \<and> last s = lf \<and> \<not> list_ex (\<lambda>i. s ! i = lf \<or> s ! i = cr) [0 ..< length s - 1]
     then splitFields (take (length s - 1) s) else None)"

lemma plain_join:
  "list_all (\<lambda>c. c \<noteq> lf \<and> c \<noteq> cr) (join fs) \<longleftrightarrow> (\<forall>f \<in> set fs. list_all (\<lambda>c. c \<noteq> lf \<and> c \<noteq> cr) f)"
  by (induction fs rule: join.induct) auto

lemma plain_field:
  "list_all (\<lambda>c. c \<noteq> lf \<and> c \<noteq> cr) f \<and> tab \<notin> set f \<longleftrightarrow> list_all (\<lambda>c. c \<noteq> tab \<and> c \<noteq> lf \<and> c \<noteq> cr) f"
  by (induction f) auto

lemma body_fields_iff:
  "body_fields s = Some fs \<longleftrightarrow> length fs = 5 \<and>
     (\<forall>f \<in> set fs. list_all (\<lambda>c. c \<noteq> tab \<and> c \<noteq> lf \<and> c \<noteq> cr) f) \<and> s = join fs @ [lf]"
proof -
  have framed: "s \<noteq> [] \<and> last s = lf \<and> \<not> list_ex (\<lambda>i. s ! i = lf \<or> s ! i = cr) [0 ..< length s - 1] \<longleftrightarrow>
      (\<exists>body. s = body @ [lf] \<and> list_all (\<lambda>c. c \<noteq> lf \<and> c \<noteq> cr) body)"
    using framing_iff [of s] by argo
  have "body_fields s = Some fs \<longleftrightarrow>
      (\<exists>body. s = body @ [lf] \<and> list_all (\<lambda>c. c \<noteq> lf \<and> c \<noteq> cr) body) \<and> splitFields (butlast s) = Some fs"
    unfolding body_fields_def butlast_conv_take framed by simp
  also have "\<dots> \<longleftrightarrow> s = join fs @ [lf] \<and> list_all (\<lambda>c. c \<noteq> lf \<and> c \<noteq> cr) (join fs) \<and>
      length fs = 5 \<and> (\<forall>f \<in> set fs. tab \<notin> set f)"
    unfolding splitFields_iff by (cases s rule: rev_exhaust) (simp, simp only: butlast_snoc append1_eq_conv, blast)
  also have "\<dots> \<longleftrightarrow> s = join fs @ [lf] \<and> length fs = 5 \<and>
      (\<forall>f \<in> set fs. list_all (\<lambda>c. c \<noteq> lf \<and> c \<noteq> cr) f \<and> tab \<notin> set f)"
    unfolding plain_join by blast
  also have "\<dots> \<longleftrightarrow> length fs = 5 \<and>
     (\<forall>f \<in> set fs. list_all (\<lambda>c. c \<noteq> tab \<and> c \<noteq> lf \<and> c \<noteq> cr) f) \<and> s = join fs @ [lf]"
    unfolding plain_field by blast
  finally show ?thesis .
qed

lemma validate_fields:
  "validate s expected = (case body_fields s of
     None \<Rightarrow> Inl malformed_record
   | Some fs \<Rightarrow>
       if fs ! 0 \<noteq> marker then Inl malformed_record
       else if fs ! 1 \<noteq> schemaV1 then Inl unsupported_schema
       else if parseExperimentKind (fs ! 2) = None then Inl unsupported_experiment
       else if parseOutcome (fs ! 3) = None then Inl invalid_outcome
       else if \<not> validCorrelation (fs ! 4) then Inl invalid_correlation
       else if \<not> validExpectedKind expected \<or> parseExperimentKind (fs ! 2) \<noteq> Some expected then Inl context_mismatch
       else Inr (create_observation expected (the (parseOutcome (fs ! 3))) (fs ! 4)))"
  by (auto simp: validate_def body_fields_def split: option.splits)

lemma five_fields: "length fs = 5 \<longleftrightarrow> (\<exists>a b c d e. fs = [a, b, c, d, e])"
  by (auto simp: length_Suc_conv numeral_eq_Suc)

text \<open> C10. Round trip: a line is accepted for an expected experiment exactly when it is the encoding of a
  valid observation of that experiment, and the observation returned is that one. So every valid
  observation survives printing and parsing, and nothing else, no stray byte, extra field or other
  spelling, is ever accepted.
\<close>

theorem k9_round_trip:
  "validate s expected = Inr obs \<longleftrightarrow> s = encode obs \<and> valid_observation obs \<and> experimentKind obs = expected"
proof
  assume "validate s expected = Inr obs"
  then obtain fs where fs: "body_fields s = Some fs" "fs ! 0 = marker" "fs ! 1 = schemaV1"
    "parseExperimentKind (fs ! 2) = Some expected" "validExpectedKind expected"
    "parseOutcome (fs ! 3) \<noteq> None" "validCorrelation (fs ! 4)"
    "obs = create_observation expected (the (parseOutcome (fs ! 3))) (fs ! 4)"
    by (auto simp: validate_fields split: option.splits if_splits)
  obtain a b c d e where l: "fs = [a, b, c, d, e]" using fs(1) by (auto simp: body_fields_iff five_fields)
  obtain out where o: "parseOutcome d = Some out" using fs(6) l by auto
  then have "the (parseOutcome d) = out" by simp
  then have "obs = create_observation expected out e" using fs(8) by (simp add: l)
  then show "s = encode obs \<and> valid_observation obs \<and> experimentKind obs = expected"
    using fs(1-5,7) o by (simp add: l body_fields_iff encode_def valid_observation_def create_observation_def
        parseExperimentKind_iff parseOutcome_iff)
next
  assume o: "s = encode obs \<and> valid_observation obs \<and> experimentKind obs = expected"
  define fs where "fs = [marker, schemaV1, kind_token (experimentKind obs), outcome_token (outcome obs), correlationId obs]"
  have "body_fields s = Some fs"
    unfolding body_fields_iff using o plain_tokens plain_correlation
    by (simp add: fs_def encode_def valid_observation_def)
  moreover have kind: "validExpectedKind expected" "validCorrelation (correlationId obs)"
    using o unfolding valid_observation_def by blast+
  moreover have "parseExperimentKind (fs ! 2) = Some expected"
    using o kind(1) unfolding parseExperimentKind_iff by (simp add: fs_def)
  moreover have "parseOutcome (fs ! 3) = Some (outcome obs)"
    unfolding parseOutcome_iff by (simp add: fs_def)
  moreover have "fs ! 0 = marker" "fs ! 1 = schemaV1" "fs ! 4 = correlationId obs" by (simp_all add: fs_def)
  moreover have "obs = create_observation expected (outcome obs) (correlationId obs)"
    using o by (cases obs) (simp add: create_observation_def valid_observation_def)
  ultimately show "validate s expected = Inr obs"
    by (simp add: validate_fields)
qed

end
