(* ===== verification/Spec2Isabelle.thy ===== *)
theory Spec2Isabelle
  imports Mesh_System State_Envelope Lease_Binding Shadow_Laws Kiko
begin

text \<open>
  A verification library of the adaptive mesh runtime (SOAM).

  The program. A \<open>SpatialAdaptiveMesh\<close> is a graph of nodes with a double-valued state, linked by pairs
  of directed bridges whose capacity adapts to the signals that cross them. Its implementation
  (\<open>src/detail/spatial_adaptive_mesh_impl.hpp\<close>, with the value types in
  \<open>cmake/templates/system_architecture.hpp.in\<close> and \<open>src/system_architecture.cpp\<close>) validates and mutates
  the topology, runs a diffusion step on a pool of worker threads, and keeps a lifecycle record for
  every directed edge. On top of it sit a domain layer that turns observations into recommendations
  (\<open>include/bridge_persistence.hpp\<close> and its neighbours), an evaluator of transition requests with a
  backend interface (\<open>src/detail/production_transition_evaluation_internal.hpp\<close>,
  \<open>include/production_transition_eligibility.hpp\<close>), and the authority that issues single-use
  capabilities and commits them to one bridge (\<open>src/detail/production_authority_internal.hpp\<close>). Two
  experiments stand beside it: the shadow controller and the Kiko interchange adapter.

  Theories, from the bottom.
  \<^item> \<open>Soam_Prelude\<close>: exceptions as values (\<open>'a result\<close>), their bind, \<open>guard_that\<close>, machine integers.
  \<^item> \<open>Binary64\<close>, \<open>Double\<close>, \<open>Hypot\<close>: IEEE binary64 with rounding to nearest even, over the rationals;
    the locale \<open>rounding\<close> is what interval proofs need of a rounding function, the locale
    \<open>libm_hypot\<close> the documented contract of \<open>std::hypot\<close>, both with interpretations.
  \<^item> \<open>Mesh_Primitives\<close>, \<open>Primitive_Laws\<close>, \<open>Bridge_Dynamics\<close>: positions, invariants, signal
    evaluation, bridges, nodes and the accessors of \<open>include/api_access.hpp\<close>; bounds of every computed
    value, and how bridges decay and recover.
  \<^item> \<open>Bridge_Policy\<close>, \<open>Persistence_Laws\<close>, \<open>Shadow_Laws\<close>: evidence, persistence gate, authorization and
    shadow controller; the gate refines a specification that counts agreeing samples, and every
    intervention of the controller is justified by, and follows from, windows of consecutive inputs.
  \<^item> \<open>Persistence_Record\<close>: the record of a relationship, and which changes of its gate its lineage
    detects when allocations may fail.
  \<^item> \<open>Eligibility\<close>, \<open>Evaluation\<close>, \<open>Evaluation_Laws\<close>: the eligibility contract, the backend
    interface (a record of actions), validators and orchestrator; locales \<open>backend_frame\<close> and
    \<open>read_only_backend\<close> carry what the orchestrator preserves of the state behind a backend.
  \<^item> \<open>Lease_Binding\<close>: evaluation leases and the draining destructor as steps under one mutex and as
    accesses after it; a release resets its pointers only after it has unlocked, so the destructor may
    finish in between, and what holds is about leases through which the backend can still be called.
  \<^item> \<open>Tokens\<close>, \<open>Authority\<close>, \<open>Authority_Laws\<close>: the process-wide identity counters with their
    compare-exchange loop, capabilities, the derivation policy, the ledger (locale \<open>one_shot\<close>: what can
    be won is won once), the live derivation, and the identities that one ledger issues over time.
  \<^item> \<open>Mesh_State\<close>: the record \<open>mesh\<close> (the fields of \<open>Impl\<close>), and \<open>addNode\<close>, \<open>connectNodes\<close>,
    \<open>connectNodePairs\<close>, \<open>autoConnectNearbyNodes\<close>, \<open>pruneIsolatedBridges\<close>, \<open>enforceStabilityCondition\<close>,
    \<open>injectExternalShock\<close> and the getters, each one step because each holds \<open>topologyMutex\<close>.
    \<open>Mesh_Connections\<close>, \<open>Mesh_Topology\<close> (the invariant \<open>mesh_ok\<close>), \<open>Mesh_Operations\<close> and \<open>Mesh_Laws\<close>
    hold their lemmas and what they promise: failure atomicity, exact edge sets, stability.
  \<^item> \<open>Mesh_Simulation\<close>, \<open>Simulation_Laws\<close>, \<open>State_Envelope\<close>: \<open>simulationStep\<close> with its validation,
    buffers, node ranges and commit; its equality with a reference step through the checked
    operations; the maximum principle; two places where the documentation differs.
  \<^item> \<open>Worker_Pool\<close>: \<open>workerLoop\<close>, \<open>acknowledgeWorkerCompletion\<close> and the dispatch block as a step
    relation on the state under \<open>workMutex\<close>; every interleaving refines the dispatch of \<open>Mesh_Simulation\<close>
    and ends after a bounded number of effective steps.
  \<^item> \<open>Mesh_Authority\<close>: the live backend (an interpretation of the two backend locales), derivation from
    a mesh, and \<open>commitProductionTransition\<close> with its effect and its single use.
  \<^item> \<open>Mesh_System\<close>: all state-changing public operations together, and the invariant of every mesh they
    can reach.
  \<^item> \<open>Kiko\<close>: the interchange line of \<open>experiments/kiko\<close> and its round trip.

  Correspondence. Definitions keep the names of the functions they translate; helper definitions
  name one block of them. An exception is the left value of a result, together with the state the
  code leaves when it throws. \<open>platform\<close> collects what the code takes from outside: \<open>std::hypot\<close>, the
  hardware concurrency, and where an allocation or a thread start fails.

  Assumptions of the model.
  \<^item> Doubles: one zero, because no sign of a zero is ever inspected; operations are rounded one by
    one, so the compiler neither contracts to fused operations nor keeps extra precision.
  \<^item> \<open>size_t\<close> values that index or count objects in memory are natural numbers; the 64-bit counters
    that identify things (tokens, generations, versions, incarnations) are 64-bit words and wrap as
    in the code. Worker dispatch generations are natural numbers.
  \<^item> A critical section is one step. The timed waits of the worker pool recheck every millisecond, so
    no property depends on a notification there; the drain of \<open>Lease_Binding\<close> is modelled with its
    condition variable and lost or spurious wake-ups.
  \<^item> A worker's range is computed when it reports. It reads nodes that do not change during a dispatch
    and writes rows no other worker touches (\<open>worker_ranges_partition\<close>), so the moment is not observable.
  \<^item> The live backend's calls take the lock one by one. The orchestrator's claims quantify over backends
    that change state arbitrarily between calls; the claims about the live backend are for a mesh that
    nobody changes meanwhile.
  \<^item> Memory may run out at every allocation of the topology operations, of pruning, of registering a
    capability, of replacing a lineage, and of the buffers and threads of a step: the predicates of
    \<open>platform\<close> and the \<open>room\<close> arguments say where. A place at which a container may allocate is
    counted whether or not a given library does; the predicate is then true there. Left out are the
    allocations of \<open>validateTopologyUnlocked\<close> and of reserving the worker vectors in a step: they
    would only add exceptions before its first change.
  \<^item> After a failed allocation in \<open>evolve\<close> on a persistence record the gate is the new one and the lineage
    the old one, as in the code; \<open>lineage_detects_every_change\<close> says exactly what is then lost.

  Bounds and termination. All definitions are total functions; no fuel is used. Loops are structural
  recursions over the lists they traverse, the square root of \<open>Hypot\<close> and the bit count of \<open>Binary64\<close>
  have a measure. Meshes stay below \<open>2 ^ 31\<close> nodes, since the code compares indices as \<open>int\<close>.

  Not modelled. Phase profiling (timing instrumentation), the scenario driver of the shadow
  controller, benchmarks, demo and tests (programs that print); the joining of worker threads and
  \<open>std::thread\<close> itself; the hash function of the edge map, on whose order nothing depends; the
  byte layout of values.

  Plan. Generations and incarnations are never reused before their counters wrap; the shadow scenario
  driver's tables as functions of the controller; a mesh shared by threads whose backend calls
  interleave with commits.
\<close>

end
